(* ===== verification/Prelude.thy ===== *)
theory Prelude
  imports Main "HOL-Library.Word" "HOL-Library.Multiset" "HOL-Library.List_Lexorder"
begin

text \<open>
  Shared vocabulary of the development: the model of the JavaScript values the
  components use (arrays read and written by index, strings of UTF-16 code
  units), singly linked lists over an explicit store, ring-buffer reads, and the
  generic list lemmas that several components need.
\<close>

unbundle bit_operations_syntax

named_theorems arr_simps \<open>evaluation of JavaScript array reads and writes\<close>
named_theorems link_intros \<open>introduction rules for linked chains\<close>

section \<open>JavaScript arrays with nullable slots\<close>

text \<open>
  An array of nullable slots is a list of options.  A read past the end is
  \<open>undefined\<close>, which like \<open>null\<close> is \<^term>\<open>None\<close>; a write past the end extends
  the array with empty slots, as JavaScript does.
\<close>

definition arr_get :: "'a option list \<Rightarrow> nat \<Rightarrow> 'a option" where
  "arr_get xs i = (if i < length xs then xs ! i else None)"

definition arr_set :: "'a option list \<Rightarrow> nat \<Rightarrow> 'a option \<Rightarrow> 'a option list" where
  "arr_set xs i v =
     (if i < length xs then xs[i := v] else xs @ replicate (i - length xs) None @ [v])"

lemma arr_get_in [arr_simps]: "i < length xs \<Longrightarrow> arr_get xs i = xs ! i"
  by (simp add: arr_get_def)

lemma arr_set_in [arr_simps]: "i < length xs \<Longrightarrow> arr_set xs i v = xs[i := v]"
  by (simp add: arr_set_def)

lemma arr_get_set: "arr_get (arr_set xs i v) j = (if i = j then v else arr_get xs j)"
  by (auto simp: arr_get_def arr_set_def nth_append nth_list_update)

lemma length_arr_set: "length (arr_set xs i v) = max (length xs) (Suc i)"
  by (auto simp: arr_set_def)

text \<open>Filling a fresh array from index 0 upwards.\<close>

lemma fold_arr_set_fill:
  "n \<le> N \<Longrightarrow> fold (\<lambda>i ys. arr_set ys i (f i)) [0..<n] (replicate N None)
     = map f [0..<n] @ replicate (N - n) None"
proof (induction n)
  case (Suc n)
  then have "replicate (N - n) None = None # replicate (N - Suc n) (None :: 'a option)"
    by (metis Suc_diff_Suc Suc_le_lessD replicate_Suc)
  with Suc show ?case by (simp add: arr_simps list_update_append)
qed simp

section \<open>Strings\<close>

text \<open>
  A JavaScript string is a sequence of UTF-16 code units, and \<open><\<close> on strings is
  the lexicographic order of the units, the order of \<^typ>\<open>16 word list\<close> here.
  \<open>js\<close> writes an ASCII literal as such a string.
\<close>

type_synonym jsstr = "16 word list"

definition js :: "string \<Rightarrow> jsstr" where
  "js s = map (\<lambda>c. of_nat (of_char c)) s"

text \<open>The decimal digits of a number, as a template literal prints it.\<close>

function js_nat :: "nat \<Rightarrow> jsstr" where
  "js_nat n = (if n < 10 then [of_nat (48 + n)] else js_nat (n div 10) @ [of_nat (48 + n mod 10)])"
  by pat_completeness auto
termination by (relation "measure id") auto

declare js_nat.simps [simp del]

section \<open>Sorting with a comparator\<close>

text \<open>
  \<open>Array.prototype.sort\<close> is stable and orders by the sign of the comparator; for a
  comparator that decides a total preorder this determines the result.
\<close>

fun js_insert :: "('a \<Rightarrow> 'a \<Rightarrow> int) \<Rightarrow> 'a \<Rightarrow> 'a list \<Rightarrow> 'a list" where
  "js_insert cmp x [] = [x]"
| "js_insert cmp x (y # ys) = (if cmp x y \<le> 0 then x # y # ys else y # js_insert cmp x ys)"

definition js_sort :: "('a \<Rightarrow> 'a \<Rightarrow> int) \<Rightarrow> 'a list \<Rightarrow> 'a list" where
  "js_sort cmp xs = foldr (js_insert cmp) xs []"

lemma js_sort_key:
  fixes key :: "'a \<Rightarrow> 'k::linorder"
  assumes "\<And>x y. cmp x y \<le> 0 \<longleftrightarrow> key x \<le> key y"
  shows "js_sort cmp xs = sort_key key xs"
proof -
  have "js_insert cmp x ys = insort_key key x ys" for x ys
    by (induction ys) (simp_all add: assms)
  then show ?thesis by (induction xs) (simp_all add: js_sort_def)
qed

lemma js_sort_distinct_key:
  fixes key :: "'a \<Rightarrow> 'k::linorder"
  assumes "\<And>x y. cmp x y \<le> 0 \<longleftrightarrow> key x < key y" "distinct (map key xs)"
  shows "js_sort cmp xs = sort_key key xs"
proof -
  have ins: "js_insert cmp x ys = insort_key key x ys" if "key x \<notin> key ` set ys" for x ys
    using that by (induction ys) (auto simp: assms(1))
  show ?thesis using assms(2) by (induction xs) (simp_all add: js_sort_def ins)
qed

section \<open>Binary search\<close>

text \<open>
  The loop \<open>while (low < high)\<close> with \<open>mid = (low + high) >>> 1\<close> that looks for the
  end of a prefix of indices, given by the test at \<open>mid\<close>.
\<close>

function bsearch :: "(nat \<Rightarrow> bool) \<Rightarrow> nat \<Rightarrow> nat \<Rightarrow> nat" where
  "bsearch below lo hi =
     (if lo < hi
      then let mid = (lo + hi) div 2 in
           if below mid then bsearch below (mid + 1) hi else bsearch below lo mid
      else lo)"
  by pat_completeness auto
termination by (relation "measure (\<lambda>(_, lo, hi). hi - lo)") auto

declare bsearch.simps [simp del]

lemma bsearch_step:
  "lo < hi \<Longrightarrow> bsearch below lo hi =
     (if below ((lo + hi) div 2) then bsearch below ((lo + hi) div 2 + 1) hi else bsearch below lo ((lo + hi) div 2))"
  by (subst bsearch.simps) (simp add: Let_def)

lemma bsearch_correct:
  assumes mono: "\<And>i j. i \<le> j \<Longrightarrow> j < length xs \<Longrightarrow> P (xs ! j) \<Longrightarrow> P (xs ! i)"
  shows "lo \<le> hi \<Longrightarrow> hi \<le> length xs \<Longrightarrow> \<forall>i < lo. P (xs ! i) \<Longrightarrow>
     \<forall>i. hi \<le> i \<and> i < length xs \<longrightarrow> \<not> P (xs ! i) \<Longrightarrow>
     bsearch (\<lambda>i. P (xs ! i)) lo hi = length (takeWhile P xs)"
proof (induction "hi - lo" arbitrary: lo hi rule: less_induct)
  case less
  show ?case
  proof (cases "lo < hi")
    case True
    let ?mid = "(lo + hi) div 2"
    have mid: "?mid < hi" "lo \<le> ?mid" using True by auto
    show ?thesis
    proof (cases "P (xs ! ?mid)")
      case below: True
      have "P (xs ! i)" if "i < ?mid + 1" for i
        using mono [of i ?mid] below mid(1) less.prems(2) that by (simp add: less_Suc_eq_le)
      then have "bsearch (\<lambda>i. P (xs ! i)) (?mid + 1) hi = length (takeWhile P xs)"
        using mid less.prems by (intro less.hyps) auto
      then show ?thesis using below bsearch_step [OF True] by simp
    next
      case False
      have "\<not> P (xs ! i)" if "?mid \<le> i" "i < length xs" for i
        using mono [OF that] False by blast
      then have "bsearch (\<lambda>i. P (xs ! i)) lo ?mid = length (takeWhile P xs)"
        using mid less.prems by (intro less.hyps) auto
      then show ?thesis using False bsearch_step [OF True] by simp
    qed
  next
    case False
    then have eq: "lo = hi" "bsearch (\<lambda>i. P (xs ! i)) lo hi = lo"
      using less.prems(1) by (auto simp: bsearch.simps)
    have "takeWhile P xs = take lo xs"
      using less.prems eq(1) by (intro takeWhile_eq_take_P_nth) auto
    then show ?thesis using eq less.prems(2) by simp
  qed
qed

lemma bsearch_takeWhile:
  assumes "\<And>i j. i \<le> j \<Longrightarrow> j < length xs \<Longrightarrow> P (xs ! j) \<Longrightarrow> P (xs ! i)"
  shows "bsearch (\<lambda>i. P (xs ! i)) 0 (length xs) = length (takeWhile P xs)"
  using assms by (rule bsearch_correct) auto

section \<open>Exceptions\<close>

text \<open>A constructor or function that throws returns \<^term>\<open>Inl\<close> the exception's class.\<close>

datatype RangeError = RangeError

section \<open>Numbers\<close>

definition isSafeInteger :: "int \<Rightarrow> bool" where
  "isSafeInteger n \<longleftrightarrow> \<bar>n\<bar> \<le> 2 ^ 53 - 1"

section \<open>Binary masks\<close>

lemma and_pow2_minus_1: "(a::nat) AND (2 ^ k - 1) = a mod 2 ^ k"
  using take_bit_eq_mask [of k a] by (simp add: take_bit_eq_mod mask_eq_exp_minus_1)

section \<open>Circular reads\<close>

text \<open>
  The backlog of a ring buffer: \<open>n\<close> slots read circularly from \<open>h\<close>.
\<close>

definition ring_read :: "'a list \<Rightarrow> nat \<Rightarrow> nat \<Rightarrow> 'a list" where
  "ring_read xs h n = map (\<lambda>i. xs ! ((h + i) mod length xs)) [0..<n]"

lemma length_ring_read [simp]: "length (ring_read xs h n) = n"
  by (simp add: ring_read_def)

lemma ring_read_0 [simp]: "ring_read xs h 0 = []"
  by (simp add: ring_read_def)

lemma ring_read_eq_Nil [simp]: "ring_read xs h n = [] \<longleftrightarrow> n = 0"
  by (metis length_0_conv length_ring_read)

lemma nth_ring_read [simp]: "i < n \<Longrightarrow> ring_read xs h n ! i = xs ! ((h + i) mod length xs)"
  by (simp add: ring_read_def)

lemma mod_ring_distinct_less:
  assumes "i < j" "j < (L::nat)"
  shows "(h + j) mod L \<noteq> (h + i) mod L"
proof
  assume "(h + j) mod L = (h + i) mod L"
  then have "L dvd j - i"
    using assms mod_eq_dvd_iff_nat [of "h + i" "h + j" L] by simp
  then show False using assms by (auto dest: dvd_imp_le)
qed

lemma mod_ring_distinct:
  assumes "i < n" "j < n" "i \<noteq> j" "n \<le> (L::nat)"
  shows "(h + i) mod L \<noteq> (h + j) mod L"
  using assms mod_ring_distinct_less [of i j L h] mod_ring_distinct_less [of j i L h]
  by (cases "i < j") auto

lemma mod_ring_reach:
  assumes "j < (L::nat)"
  shows "\<exists>st < L. (c + st) mod L = j"
proof (intro exI conjI)
  let ?st = "(j + (L - c mod L)) mod L"
  show "?st < L" using assms by (intro mod_less_divisor) simp
  have "(c + ?st) mod L = (c mod L + (j + (L - c mod L))) mod L" by (simp add: mod_simps)
  also have "c mod L + (j + (L - c mod L)) = j + L"
    using mod_less_divisor [of L c] assms by linarith
  finally show "(c + ?st) mod L = j" using assms by simp
qed

lemma ring_read_write_outside:
  assumes "n < length xs"
  shows "ring_read (xs[(h + n) mod length xs := v]) h n = ring_read xs h n"
proof (rule nth_equalityI; simp)
  fix i assume "i < n"
  then have "(h + i) mod length xs \<noteq> (h + n) mod length xs"
    using assms by (intro mod_ring_distinct [where n = "length xs"]) auto
  then show "xs[(h + n) mod length xs := v] ! ((h + i) mod length xs)
      = xs ! ((h + i) mod length xs)"
    by simp
qed

lemma ring_read_snoc:
  assumes "n < length xs"
  shows "ring_read (xs[(h + n) mod length xs := v]) h (Suc n) = ring_read xs h n @ [v]"
proof -
  have "(h + n) mod length xs < length xs" using assms by (intro mod_less_divisor) auto
  then show ?thesis
    using ring_read_write_outside [OF assms, of h v] assms
    by (simp add: ring_read_def)
qed

lemma ring_read_Cons:
  assumes "h < length xs"
  shows "ring_read xs h (Suc n) = xs ! h # ring_read xs (Suc h mod length xs) n"
proof -
  have "ring_read xs h (Suc n) = xs ! (h mod length xs) # map (\<lambda>i. xs ! ((h + Suc i) mod length xs)) [0..<n]"
    by (simp add: ring_read_def map_upt_Suc del: upt_Suc)
  moreover have "(h + Suc i) mod length xs = (Suc h mod length xs + i) mod length xs" for i
    by (simp add: mod_add_left_eq)
  ultimately show ?thesis using assms by (simp add: ring_read_def)
qed

lemma ring_read_clear_head:
  assumes "h < length xs" "Suc n \<le> length xs"
  shows "ring_read (xs[h := v]) (Suc h mod length xs) n = ring_read xs (Suc h mod length xs) n"
proof (rule nth_equalityI; simp)
  fix i assume "i < n"
  then have "(h + Suc i) mod length xs \<noteq> (h + 0) mod length xs"
    using assms by (intro mod_ring_distinct [where n = "length xs"]) auto
  then have "(Suc h mod length xs + i) mod length xs \<noteq> h"
    using assms(1) by (simp add: mod_add_left_eq)
  then show "xs[h := v] ! ((Suc h mod length xs + i) mod length xs)
      = xs ! ((Suc h mod length xs + i) mod length xs)"
    by simp
qed

section \<open>Singly linked lists\<close>

text \<open>
  Objects linked by a \<open>next\<close> field, over an explicit store of references:
  \<open>chain nx p rs\<close> says that following \<open>nx\<close> from \<open>p\<close> visits exactly \<open>rs\<close>
  and ends in \<open>null\<close>; \<open>walk\<close> follows the links, at most \<open>n\<close> of them.
\<close>

fun chain :: "('r \<Rightarrow> 'r option) \<Rightarrow> 'r option \<Rightarrow> 'r list \<Rightarrow> bool" where
  "chain nx p [] \<longleftrightarrow> p = None"
| "chain nx p (r # rs) \<longleftrightarrow> p = Some r \<and> chain nx (nx r) rs"

fun walk :: "nat \<Rightarrow> ('r \<Rightarrow> 'r option) \<Rightarrow> 'r option \<Rightarrow> 'r list" where
  "walk 0 nx p = []"
| "walk (Suc n) nx None = []"
| "walk (Suc n) nx (Some r) = r # walk n nx (nx r)"

lemma walk_chain: "chain nx p rs \<Longrightarrow> length rs \<le> n \<Longrightarrow> walk n nx p = rs"
proof (induction rs arbitrary: n p)
  case Nil
  then show ?case by (cases n) auto
next
  case (Cons r rs)
  then show ?case by (cases n) auto
qed

lemma chain_cong: "(\<And>r. r \<in> set rs \<Longrightarrow> nx r = nx' r) \<Longrightarrow> chain nx p rs = chain nx' p rs"
  by (induction rs arbitrary: p) auto

lemma chain_keep [link_intros]:
  "chain nx p rs \<Longrightarrow> (\<And>r. r \<in> set rs \<Longrightarrow> nx' r = nx r) \<Longrightarrow> chain nx' p rs"
  by (induction rs arbitrary: p) auto

lemma chain_upd_notin [simp]: "r \<notin> set rs \<Longrightarrow> chain (nx(r := v)) p rs = chain nx p rs"
  by (rule chain_cong) auto

lemma chain_last: "chain nx p (rs @ [t]) \<Longrightarrow> nx t = None"
  by (induction rs arbitrary: p) auto

lemma chain_snoc [link_intros]:
  "chain nx p (rs @ [t]) \<Longrightarrow> distinct (rs @ [t]) \<Longrightarrow> s \<notin> set (rs @ [t]) \<Longrightarrow> nx' t = Some s \<Longrightarrow>
   nx' s = None \<Longrightarrow> (\<And>r. r \<in> set rs \<Longrightarrow> nx' r = nx r) \<Longrightarrow> chain nx' p (rs @ [t, s])"
  by (induction rs arbitrary: p) auto

lemma length_bounded_refs: "distinct rs \<Longrightarrow> set rs \<subseteq> {..<n} \<Longrightarrow> length rs \<le> (n::nat)"
  by (metis card_lessThan card_mono distinct_card finite_lessThan)

end
