(* ===== verification/Hlc.thy ===== *)
theory Hlc
  imports Prelude "HOL-Library.Product_Lexorder"
begin

text \<open>
  Hybrid logical clocks, \<open>src/kv/hlc.ts\<close>: the timestamps that order writes and the
  clock that issues them.  Times are integers (epoch milliseconds and counters
  far below \<open>2 ^ 53\<close>, where numbers are exact).  The theory shows that the
  comparison is a total order, that a clock never issues a timestamp that is not
  above all its earlier ones, and that it overtakes what it receives.
\<close>

section \<open>Timestamps\<close>

datatype HybridTime = HybridTime (wallMs: int) (logical: int) (node: jsstr)

definition compareHybrid :: "HybridTime \<Rightarrow> HybridTime \<Rightarrow> int" where
  "compareHybrid left right =
     (if wallMs left \<noteq> wallMs right then if wallMs left < wallMs right then -1 else 1
      else if logical left \<noteq> logical right then if logical left < logical right then -1 else 1
      else if node left = node right then 0
      else if node left < node right then -1 else 1)"

instantiation HybridTime :: linorder
begin

definition less_eq_HybridTime :: "HybridTime \<Rightarrow> HybridTime \<Rightarrow> bool" where
  "s \<le> t \<longleftrightarrow> (wallMs s, logical s, node s) \<le> (wallMs t, logical t, node t)"

definition less_HybridTime :: "HybridTime \<Rightarrow> HybridTime \<Rightarrow> bool" where
  "s < t \<longleftrightarrow> (wallMs s, logical s, node s) < (wallMs t, logical t, node t)"

instance
proof
  fix s t u :: HybridTime
  show "(s < t) = (s \<le> t \<and> \<not> t \<le> s)"
    unfolding less_eq_HybridTime_def less_HybridTime_def by (rule less_le_not_le)
  show "s \<le> s" unfolding less_eq_HybridTime_def by (rule order_refl)
  show "s \<le> t \<Longrightarrow> t \<le> u \<Longrightarrow> s \<le> u" unfolding less_eq_HybridTime_def by (rule order_trans)
  show "s \<le> t \<Longrightarrow> t \<le> s \<Longrightarrow> s = t"
    unfolding less_eq_HybridTime_def by (drule (1) order_antisym) (simp add: HybridTime.expand)
  show "s \<le> t \<or> t \<le> s" unfolding less_eq_HybridTime_def by (rule linear)
qed

end

lemma less_HybridTime_iff:
  "s < t \<longleftrightarrow> wallMs s < wallMs t \<or> wallMs s = wallMs t \<and>
     (logical s < logical t \<or> logical s = logical t \<and> node s < node t)"
  by (auto simp: less_HybridTime_def)

lemma compareHybrid_pos: "0 < compareHybrid s t \<longleftrightarrow> t < s"
  by (auto simp: compareHybrid_def less_HybridTime_iff)

lemma compareHybrid_zero: "compareHybrid s t = 0 \<longleftrightarrow> s = t"
  by (auto simp: compareHybrid_def HybridTime.expand)

lemma compareHybrid_neg: "compareHybrid s t < 0 \<longleftrightarrow> s < t"
  by (auto simp: compareHybrid_def less_HybridTime_iff)

section \<open>The clock\<close>

record HybridClock =
  hc_node :: jsstr
  hc_wallMs :: int
  hc_logical :: int

definition hc_new :: "jsstr \<Rightarrow> RangeError + HybridClock" where
  "hc_new nd =
     (if length nd = 0 then Inl RangeError else Inr \<lparr>hc_node = nd, hc_wallMs = 0, hc_logical = 0\<rparr>)"

text \<open>
  The injected physical source is an argument of each operation: the reading it
  returns, or \<^term>\<open>None\<close> for a number that is not finite.
\<close>

definition hc_readPhysical :: "int option \<Rightarrow> RangeError + int" where
  "hc_readPhysical reading = (case reading of None \<Rightarrow> Inl RangeError | Some t \<Rightarrow> Inr t)"

definition hc_stamp :: "HybridClock \<Rightarrow> HybridTime" where
  "hc_stamp c = HybridTime (hc_wallMs c) (hc_logical c) (hc_node c)"

definition hc_now :: "int option \<Rightarrow> HybridClock \<Rightarrow> (RangeError + HybridTime) \<times> HybridClock" where
  "hc_now reading c =
     (case hc_readPhysical reading of
        Inl e \<Rightarrow> (Inl e, c)
      | Inr physical \<Rightarrow>
          let wall = max (hc_wallMs c) physical;
              c' = c\<lparr>hc_logical := (if wall = hc_wallMs c then hc_logical c + 1 else 0), hc_wallMs := wall\<rparr>
          in (Inr (hc_stamp c'), c'))"

definition hc_mergeLogical :: "int \<Rightarrow> HybridTime \<Rightarrow> HybridClock \<Rightarrow> int" where
  "hc_mergeLogical wall remote c =
     (let matchesLocal = (wall = hc_wallMs c); matchesRemote = (wall = wallMs remote) in
      if matchesLocal \<and> matchesRemote then max (hc_logical c) (logical remote) + 1
      else if matchesLocal then hc_logical c + 1
      else if matchesRemote then logical remote + 1
      else 0)"

definition hc_update ::
  "HybridTime \<Rightarrow> int option \<Rightarrow> HybridClock \<Rightarrow> (RangeError + HybridTime) \<times> HybridClock" where
  "hc_update remote reading c =
     (case hc_readPhysical reading of
        Inl e \<Rightarrow> (Inl e, c)
      | Inr physical \<Rightarrow>
          let wall = max (hc_wallMs c) (max (wallMs remote) physical);
              c' = c\<lparr>hc_logical := hc_mergeLogical wall remote c, hc_wallMs := wall\<rparr>
          in (Inr (hc_stamp c'), c'))"

section \<open>Runs of a clock\<close>

datatype clock_call = Now "int option" | Update HybridTime "int option"

fun clock_step :: "clock_call \<Rightarrow> HybridClock \<Rightarrow> (RangeError + HybridTime) \<times> HybridClock" where
  "clock_step (Now reading) c = hc_now reading c"
| "clock_step (Update remote reading) c = hc_update remote reading c"

fun clock_run :: "clock_call list \<Rightarrow> HybridClock \<Rightarrow> HybridTime list" where
  "clock_run [] c = []"
| "clock_run (e # es) c =
     (case clock_step e c of
        (Inl _, c') \<Rightarrow> clock_run es c'
      | (Inr t, c') \<Rightarrow> t # clock_run es c')"

lemma clock_step_cases:
  assumes "clock_step e c = (r, c')"
  obtains (failed) x where "r = Inl x" "c' = c"
  | (issued) "r = Inr (hc_stamp c')" "hc_stamp c < hc_stamp c'"
proof (cases r)
  case (Inl x)
  then have "c' = c"
    using assms by (cases e) (auto simp: hc_now_def hc_update_def Let_def split: sum.splits)
  then show thesis using failed Inl by blast
next
  case (Inr t)
  have "hc_stamp c < hc_stamp c' \<and> t = hc_stamp c'"
    using assms Inr
    by (cases e) (auto simp: hc_now_def hc_update_def hc_stamp_def hc_mergeLogical_def less_HybridTime_iff
        Let_def max_def split: sum.splits if_splits)
  then show thesis using issued Inr by blast
qed

lemma clock_run_above: "t \<in> set (clock_run es c) \<Longrightarrow> hc_stamp c < t"
proof (induction es arbitrary: c)
  case (Cons e es)
  obtain r c' where s: "clock_step e c = (r, c')" by fastforce
  from s show ?case
  proof (cases rule: clock_step_cases)
    case (failed x)
    then show ?thesis using Cons s by simp
  next
    case issued
    then show ?thesis using Cons.prems Cons.IH [of c'] s less_trans by auto
  qed
qed simp

text \<open>
  The comparison is the total order on wall time, then logical counter, then
  node name: its sign decides every pair the same way on every node, and it is
  zero on equal timestamps only.
\<close>

lemma compareHybrid_total_order:
  "sgn (compareHybrid s t) = (if s < t then -1 else if t < s then 1 else 0)
   \<and> compareHybrid t s = - compareHybrid s t
   \<and> (compareHybrid s t = 0 \<longleftrightarrow> s = t)"
proof -
  have "compareHybrid t s = - compareHybrid s t" by (auto simp: compareHybrid_def)
  then show ?thesis
    using compareHybrid_pos [of s t] compareHybrid_zero [of s t] compareHybrid_neg [of s t]
    by (auto simp: sgn_if)
qed

text \<open>
  Whatever the physical clock does (stalls, steps back, or fails to give a
  finite number) and whatever timestamps arrive, the timestamps a clock issues
  are strictly increasing.
\<close>

lemma clock_monotone: "sorted_wrt (<) (clock_run es c)"
proof (induction es arbitrary: c)
  case (Cons e es)
  obtain r c' where s: "clock_step e c = (r, c')" by fastforce
  from s show ?case
    by (cases rule: clock_step_cases) (use s Cons.IH clock_run_above in auto)
qed simp

text \<open>
  A received timestamp is overtaken: the timestamp that an update issues, and
  so every later one, follows the remote timestamp by wall time and logical
  counter alone, whatever the two node names are.
\<close>

lemma clock_update_overtakes:
  assumes "hc_update remote reading c = (Inr t, c')"
  shows "(wallMs remote < wallMs t \<or> wallMs remote = wallMs t \<and> logical remote < logical t)
    \<and> (\<forall>u \<in> set (clock_run es c'). remote < u)"
proof -
  have now: "wallMs remote < wallMs t \<or> wallMs remote = wallMs t \<and> logical remote < logical t"
    and t: "t = hc_stamp c'"
    using assms
    by (auto simp: hc_update_def hc_stamp_def hc_mergeLogical_def Let_def max_def split: sum.splits if_splits)
  have "remote < t" using now by (auto simp: less_HybridTime_iff)
  then show ?thesis using now clock_run_above [of _ es c'] t less_trans by blast
qed

end
