(* ===== verification/KvHash.thy ===== *)
theory KvHash
  imports Prelude
begin

text \<open>
  Partition hashing, \<open>src/kv/hash.ts\<close>: FNV-1a over the UTF-8 bytes of a string,
  finished with a 32-bit avalanche.  Numbers that the source keeps in 32 bits with
  \<open>^\<close>, \<open>>>>\<close> and \<open>Math.imul\<close> are \<^typ>\<open>32 word\<close>s.  The theory shows that the
  avalanche is a permutation, so it loses nothing of the hash it finishes.
\<close>

section \<open>UTF-8\<close>

text \<open>
  \<open>TextEncoder\<close> reads a string as code points, where a surrogate pair is one code
  point and a lone surrogate becomes the replacement character, and writes each
  as one to four bytes.
\<close>

definition is_high :: "16 word \<Rightarrow> bool" where
  "is_high u \<longleftrightarrow> 0xD800 \<le> u \<and> u \<le> 0xDBFF"

definition is_low :: "16 word \<Rightarrow> bool" where
  "is_low u \<longleftrightarrow> 0xDC00 \<le> u \<and> u \<le> 0xDFFF"

fun code_points :: "jsstr \<Rightarrow> nat list" where
  "code_points [] = []"
| "code_points [u] = [if is_high u \<or> is_low u then 0xFFFD else unat u]"
| "code_points (u # v # us) =
     (if is_high u \<and> is_low v
      then (0x10000 + (unat u - 0xD800) * 0x400 + (unat v - 0xDC00)) # code_points us
      else (if is_high u \<or> is_low u then 0xFFFD else unat u) # code_points (v # us))"

definition utf8_bytes :: "nat \<Rightarrow> 8 word list" where
  "utf8_bytes c =
     map of_nat
      (if c < 0x80 then [c]
       else if c < 0x800 then [0xC0 + c div 0x40, 0x80 + c mod 0x40]
       else if c < 0x10000 then [0xE0 + c div 0x1000, 0x80 + c div 0x40 mod 0x40, 0x80 + c mod 0x40]
       else [0xF0 + c div 0x40000, 0x80 + c div 0x1000 mod 0x40, 0x80 + c div 0x40 mod 0x40, 0x80 + c mod 0x40])"

definition encode :: "jsstr \<Rightarrow> 8 word list" where
  "encode s = concat (map utf8_bytes (code_points s))"

section \<open>Hashes\<close>

definition FNV_OFFSET :: "32 word" where "FNV_OFFSET = 0x811c9dc5"

definition FNV_PRIME :: "32 word" where "FNV_PRIME = 0x01000193"

definition fnv1a32 :: "8 word list \<Rightarrow> 32 word" where
  "fnv1a32 bytes = fold (\<lambda>b hash. (hash XOR ucast b) * FNV_PRIME) bytes FNV_OFFSET"

definition mix32 :: "32 word \<Rightarrow> 32 word" where
  "mix32 hash =
     (let mixed = hash;
          mixed = mixed XOR drop_bit 16 mixed;
          mixed = mixed * 0x85ebca6b;
          mixed = mixed XOR drop_bit 13 mixed;
          mixed = mixed * 0xc2b2ae35
      in mixed XOR drop_bit 16 mixed)"

definition hash32 :: "jsstr \<Rightarrow> 32 word" where
  "hash32 value = mix32 (fnv1a32 (encode value))"

definition partitionId :: "jsstr \<Rightarrow> int \<Rightarrow> RangeError + nat" where
  "partitionId key partitionCount =
     (if \<not> isSafeInteger partitionCount \<or> partitionCount \<le> 0 then Inl RangeError else Inr (unat (hash32 key) mod nat partitionCount))"

section \<open>The avalanche loses nothing\<close>

definition unmix32 :: "32 word \<Rightarrow> 32 word" where
  "unmix32 h =
     (let m = h XOR drop_bit 16 h;
          m = m * 0x7ed1b41d;
          m = m XOR drop_bit 13 m XOR drop_bit 26 m;
          m = m * 0xa5cb9243
      in m XOR drop_bit 16 m)"

lemma xorshift16 [simp]:
  "(w XOR drop_bit 16 w) XOR drop_bit 16 (w XOR drop_bit 16 w) = (w :: 32 word)"
  by (rule bit_word_eqI) (auto simp: bit_simps)

lemma xorshift13 [simp]:
  "(w XOR drop_bit 13 w) XOR drop_bit 13 (w XOR drop_bit 13 w) XOR drop_bit 26 (w XOR drop_bit 13 w) = (w :: 32 word)"
  by (rule bit_word_eqI) (auto simp: bit_simps)

lemma xorshift13' [simp]:
  fixes w :: "32 word"
  defines "u \<equiv> w XOR drop_bit 13 w XOR drop_bit 26 w"
  shows "u XOR drop_bit 13 u = w"
  unfolding u_def by (rule bit_word_eqI) (auto simp: bit_simps)

lemma imul_inverse:
  "(w * 0x85ebca6b) * 0xa5cb9243 = (w :: 32 word)" "(w * 0xa5cb9243) * 0x85ebca6b = (w :: 32 word)"
  "(w * 0xc2b2ae35) * 0x7ed1b41d = (w :: 32 word)" "(w * 0x7ed1b41d) * 0xc2b2ae35 = (w :: 32 word)"
proof -
  have one: "(0x85ebca6b * 0xa5cb9243 :: 32 word) = 1" "(0xa5cb9243 * 0x85ebca6b :: 32 word) = 1"
    "(0xc2b2ae35 * 0x7ed1b41d :: 32 word) = 1" "(0x7ed1b41d * 0xc2b2ae35 :: 32 word) = 1"
    by simp_all
  show "(w * 0x85ebca6b) * 0xa5cb9243 = w" "(w * 0xa5cb9243) * 0x85ebca6b = w"
    "(w * 0xc2b2ae35) * 0x7ed1b41d = w" "(w * 0x7ed1b41d) * 0xc2b2ae35 = w"
    by (simp_all only: mult.assoc one mult_1_right)
qed

lemma unmix_mix: "unmix32 (mix32 h) = h"
  by (simp only: unmix32_def mix32_def Let_def xorshift16 xorshift13 imul_inverse)

lemma mix_unmix: "mix32 (unmix32 h) = h"
  by (simp only: unmix32_def mix32_def Let_def xorshift16 xorshift13' imul_inverse)

lemma inj_mix32: "inj mix32"
  using unmix_mix by (rule inj_on_inverseI)

text \<open>
  The avalanche is a permutation of the 32-bit hashes, undone by an explicit
  inverse: two strings collide after it only if they collided before.
\<close>

lemma mix32_permutation: "bij mix32 \<and> (hash32 s = hash32 t \<longleftrightarrow> fnv1a32 (encode s) = fnv1a32 (encode t))"
  using bij_betw_byWitness [of UNIV unmix32 mix32 UNIV] unmix_mix mix_unmix inj_mix32
  by (simp add: hash32_def inj_eq)

lemma partitionId_bound: "partitionId key n = Inr p \<Longrightarrow> p < nat n"
  by (auto simp: partitionId_def split: if_splits)

end
