(* ===== verification/JsMap.thy ===== *)
theory JsMap
  imports Prelude "HOL-Library.AList"
begin

text \<open>
  JavaScript's \<open>Map\<close>, which iterates in insertion order: an association list where
  setting a present key keeps its place and setting an absent one appends, as
  the library's \<open>AList\<close> operations do.  Iteration order is what snapshots,
  pages and sweeps follow, so the list is the model and the map it denotes the
  abstraction.
\<close>

type_synonym ('k, 'v) jsmap = "('k \<times> 'v) list"

abbreviation js_get :: "('k, 'v) jsmap \<Rightarrow> 'k \<Rightarrow> 'v option" where
  "js_get m k \<equiv> map_of m k"

abbreviation js_set :: "'k \<Rightarrow> 'v \<Rightarrow> ('k, 'v) jsmap \<Rightarrow> ('k, 'v) jsmap" where
  "js_set \<equiv> AList.update"

abbreviation js_delete :: "'k \<Rightarrow> ('k, 'v) jsmap \<Rightarrow> ('k, 'v) jsmap" where
  "js_delete \<equiv> AList.delete"

abbreviation js_keys :: "('k, 'v) jsmap \<Rightarrow> 'k list" where
  "js_keys m \<equiv> map fst m"

abbreviation js_values :: "('k, 'v) jsmap \<Rightarrow> 'v list" where
  "js_values m \<equiv> map snd m"

definition js_ok :: "('k, 'v) jsmap \<Rightarrow> bool" where
  "js_ok m \<longleftrightarrow> distinct (js_keys m)"

named_theorems js_simps

lemma js_ok_Nil [simp]: "js_ok []"
  by (simp add: js_ok_def)

lemma js_ok_Cons: "js_ok (p # m) \<longleftrightarrow> fst p \<notin> set (js_keys m) \<and> js_ok m"
  by (auto simp: js_ok_def)

lemma js_ok_set [simp]: "js_ok m \<Longrightarrow> js_ok (js_set k v m)"
  by (simp add: js_ok_def distinct_update)

lemma js_ok_delete [simp]: "js_ok m \<Longrightarrow> js_ok (js_delete k m)"
  by (simp add: js_ok_def distinct_delete)

lemma js_get_set [simp, js_simps]: "js_get (js_set k v m) k' = (if k' = k then Some v else js_get m k')"
  by (simp add: update_conv')

lemma js_get_delete [simp, js_simps]: "js_get (js_delete k m) k' = (if k' = k then None else js_get m k')"
  by (simp add: delete_conv')

lemma js_keys_set: "js_keys (js_set k v m) = (if k \<in> set (js_keys m) then js_keys m else js_keys m @ [k])"
  by (induction m) auto

lemma js_get_in_values: "js_get m k = Some v \<Longrightarrow> v \<in> set (js_values m)"
  by (force dest: map_of_SomeD)

lemma js_values_get: "js_ok m \<Longrightarrow> v \<in> set (js_values m) \<Longrightarrow> \<exists>k. js_get m k = Some v"
  by (auto simp: js_ok_def)

lemma js_get_iff: "js_ok m \<Longrightarrow> js_get m k = Some v \<longleftrightarrow> (k, v) \<in> set m"
  by (simp add: js_ok_def)

text \<open>Two maps with the same lookups hold the same pairs, in some order.\<close>

lemma js_same_pairs: "js_ok m \<Longrightarrow> js_ok m' \<Longrightarrow> map_of m = map_of m' \<Longrightarrow> mset m = mset m'"
  by (simp add: js_ok_def) (metis distinct_map map_of_inject_set set_eq_iff_mset_eq_distinct)

lemma js_delete_absent: "k \<notin> set (js_keys m) \<Longrightarrow> js_delete k m = m"
  by (induction m) auto

lemma js_set_subset: "set (js_set k v m) \<subseteq> insert (k, v) (set m)"
  by (induction m) auto

lemma js_set_set [simp]: "js_set k v (js_set k w m) = js_set k v m"
  by (induction m) auto

lemma js_delete_filter: "js_delete k m = filter (\<lambda>p. fst p \<noteq> k) m"
  by (induction m) auto

section \<open>Exclusive-or over a list\<close>

definition xor_all :: "'a::len word list \<Rightarrow> 'a word" where
  "xor_all ws = foldr (XOR) ws 0"

lemma xor_all_simps [simp]:
  "xor_all [] = 0" "xor_all (w # ws) = w XOR xor_all ws"
  by (simp_all add: xor_all_def)

lemma xor_all_append [simp]: "xor_all (us @ vs) = xor_all us XOR xor_all vs"
  by (induction us) (simp_all add: xor.assoc)

lemma xor_cancel [simp]: "w XOR (w XOR v) = (v :: 'a::len word)"
  by (simp add: xor.assoc [symmetric])

lemma xor_all_perm: "mset us = mset vs \<Longrightarrow> xor_all us = xor_all vs"
proof (induction us arbitrary: vs)
  case (Cons u us)
  then obtain as bs where vs: "vs = as @ u # bs"
    by (metis in_set_conv_decomp list.set_intros(1) set_mset_mset)
  then show ?case using Cons.IH [of "as @ bs"] Cons.prems by (simp add: xor.left_commute)
qed simp

lemma xor_all_set:
  "xor_all (map f (js_values (js_set k v m)))
     = xor_all (map f (js_values m)) XOR (case js_get m k of None \<Rightarrow> 0 | Some old \<Rightarrow> f old) XOR f v"
  by (induction m) (auto simp: ac_simps split: option.splits)

lemma xor_all_delete:
  "js_ok m \<Longrightarrow> js_get m k = Some old \<Longrightarrow>
     xor_all (map f (js_values (js_delete k m))) = xor_all (map f (js_values m)) XOR f old"
  by (induction m) (auto simp: js_ok_Cons js_delete_absent ac_simps split: if_splits)

end
