(* ===== verification/Bytes.thy ===== *)
theory Bytes
  imports Prelude
begin

text \<open>
  Byte arrays as the codecs use them: big-endian unsigned integers of a fixed
  width (\<open>DataView.setUint8\<close> to \<open>setBigUint64\<close>) and signed 64-bit integers.  Writing
  keeps the value modulo the width, reading back gives that value, and every byte
  string of the width is the writing of what it reads as.
\<close>

type_synonym bytes = "8 word list"

primrec put_be :: "nat \<Rightarrow> nat \<Rightarrow> bytes" where
  "put_be 0 v = []"
| "put_be (Suc n) v = of_nat (v div 256 ^ n) # put_be n v"

fun get_be :: "bytes \<Rightarrow> nat" where
  "get_be [] = 0"
| "get_be (b # bs) = unat b * 256 ^ length bs + get_be bs"

lemma length_put_be [simp]: "length (put_be n v) = n"
  by (induction n) simp_all

lemma get_put_be [simp]: "get_be (put_be n v) = v mod 256 ^ n"
proof (induction n)
  case (Suc n)
  have "v mod (256 ^ n * 256) = 256 ^ n * (v div 256 ^ n mod 256) + v mod 256 ^ n"
    by (rule mod_mult2_eq)
  then show ?case using Suc by (simp add: unat_of_nat mult.commute)
qed simp

lemma get_be_less: "get_be bs < 256 ^ length bs"
proof (induction bs)
  case (Cons b bs)
  have "unat b < 256" using unsigned_less [of b, where ?'a = nat] by simp
  then have "Suc (unat b) * 256 ^ length bs \<le> 256 * 256 ^ length bs" by (intro mult_right_mono) simp_all
  then have "unat b * 256 ^ length bs + 256 ^ length bs \<le> 256 * 256 ^ length bs" by (simp only: mult_Suc add.commute)
  then show ?case unfolding get_be.simps length_Cons power_Suc using Cons.IH by linarith
qed simp

lemma put_be_mod: "put_be n (v mod 256 ^ n) = put_be n v"
proof -
  have "put_be n (v mod 256 ^ (n + k)) = put_be n v" for k
  proof (induction n arbitrary: k)
    case (Suc n)
    have "v mod 256 ^ (Suc n + k) = v mod (256 ^ n * 256 ^ Suc k)" by (simp add: power_add mult_ac)
    also have "\<dots> = 256 ^ n * (v div 256 ^ n mod 256 ^ Suc k) + v mod 256 ^ n" by (rule mod_mult2_eq)
    finally have "v mod 256 ^ (Suc n + k) div 256 ^ n = v div 256 ^ n mod 256 ^ Suc k" by simp
    moreover have "(of_nat (x mod 256 ^ Suc k) :: 8 word) = of_nat x" for x
      by (rule word_unat_eq_iff [THEN iffD2]) (simp add: unat_of_nat mod_mod_cancel)
    ultimately show ?case using Suc [of "Suc k"] by simp
  qed simp
  from this [of 0] show ?thesis by simp
qed

lemma put_get_be: "put_be (length bs) (get_be bs) = bs"
proof (induction bs)
  case (Cons b bs)
  have "get_be (b # bs) mod 256 ^ length bs = get_be bs" using get_be_less [of bs] by simp
  then have "put_be (length bs) (get_be (b # bs)) = bs" using put_be_mod [of "length bs" "get_be (b # bs)"] Cons by simp
  moreover have "get_be (b # bs) div 256 ^ length bs = unat b" using get_be_less [of bs] by simp
  ultimately show ?case by simp
qed simp

section \<open>Signed 64-bit integers\<close>

definition asIntN64 :: "int \<Rightarrow> int" where
  "asIntN64 v = (v + 2 ^ 63) mod 2 ^ 64 - 2 ^ 63"

definition setBigInt64 :: "int \<Rightarrow> bytes" where
  "setBigInt64 v = put_be 8 (nat (v mod 2 ^ 64))"

definition getBigInt64 :: "bytes \<Rightarrow> int" where
  "getBigInt64 bs = asIntN64 (int (get_be bs))"

lemma asIntN64_mod: "asIntN64 (v mod 2 ^ 64) = asIntN64 v"
  by (simp add: asIntN64_def mod_add_left_eq)

lemma asIntN64_idem [simp]: "asIntN64 (asIntN64 v + d) = asIntN64 (v + d)"
proof -
  have "((v + 2 ^ 63) mod 2 ^ 64 - 2 ^ 63 + d + 2 ^ 63) mod 2 ^ 64 = ((v + 2 ^ 63) mod 2 ^ 64 + d) mod (2 ^ 64 :: int)"
    by (simp add: algebra_simps)
  also have "\<dots> = (v + d + 2 ^ 63) mod 2 ^ 64" by (simp add: mod_add_right_eq algebra_simps)
  finally show ?thesis by (simp add: asIntN64_def)
qed

lemma asIntN64_small: "- (2 ^ 63) \<le> v \<Longrightarrow> v < 2 ^ 63 \<Longrightarrow> asIntN64 v = v"
  by (simp add: asIntN64_def)

lemma asIntN64_range: "- (2 ^ 63) \<le> asIntN64 v \<and> asIntN64 v < 2 ^ 63"
  using pos_mod_bound [of "2 ^ 64" "v + 2 ^ 63"] pos_mod_sign [of "2 ^ 64" "v + 2 ^ 63"]
  by (simp add: asIntN64_def)

lemma length_setBigInt64 [simp]: "length (setBigInt64 v) = 8"
  by (simp add: setBigInt64_def)

lemma getBigInt64_set [simp]: "getBigInt64 (setBigInt64 v) = asIntN64 v"
proof -
  have "nat (v mod 2 ^ 64) mod 256 ^ 8 = nat (v mod 2 ^ 64)"
    using pos_mod_bound [of "2 ^ 64" v] pos_mod_sign [of "2 ^ 64" v] by (intro mod_less) (simp add: nat_less_iff)
  then show ?thesis using asIntN64_mod [of v] by (simp add: getBigInt64_def setBigInt64_def)
qed

end
