(* ===== verification/Partition.thy ===== *)
theory Partition
  imports Hlc KvHash JsMap Bytes
begin

text \<open>
  Stored records and one partition's fragment, \<open>src/kv/entry.ts\<close> and
  \<open>src/kv/partition.ts\<close>: a map from keys to entries merged under last write wins,
  and two 32-bit digest lanes kept in step with it.  The theory shows that the
  digest is always the exclusive-or of the stored entries' contributions, that
  merging is independent of order and repetition, and that the repair buckets
  isolate a difference.
\<close>

section \<open>Entries\<close>

record Entry =
  e_key :: jsstr
  e_value :: "bytes option"
  e_timestamp :: HybridTime
  e_sequence :: int
  e_expiresAt :: "int option"
  e_deleted :: bool

definition TOMBSTONE_TTL_MS :: int where "TOMBSTONE_TTL_MS = 600000"

definition supersedes :: "Entry \<Rightarrow> Entry \<Rightarrow> bool" where
  "supersedes candidate incumbent \<longleftrightarrow> compareHybrid (e_timestamp candidate) (e_timestamp incumbent) > 0"

definition isExpired :: "Entry \<Rightarrow> int \<Rightarrow> bool" where
  "isExpired entry nowMs \<longleftrightarrow> (case e_expiresAt entry of None \<Rightarrow> False | Some t \<Rightarrow> t \<le> nowMs)"

definition isLiveValue :: "Entry \<Rightarrow> int \<Rightarrow> bool" where
  "isLiveValue entry nowMs \<longleftrightarrow> \<not> e_deleted entry \<and> \<not> isExpired entry nowMs"

definition isReapableTombstone :: "Entry \<Rightarrow> int \<Rightarrow> bool" where
  "isReapableTombstone entry nowMs \<longleftrightarrow>
     e_deleted entry \<and> nowMs - wallMs (e_timestamp entry) \<ge> TOMBSTONE_TTL_MS"

definition BUCKET_SEED :: "32 word" where "BUCKET_SEED = 0x2545f491"

definition repairBucket :: "jsstr \<Rightarrow> nat \<Rightarrow> nat" where
  "repairBucket key bucketCount = unat (mix32 (hash32 key XOR BUCKET_SEED)) mod bucketCount"

definition HI_SEED :: "32 word" where "HI_SEED = 0x9e3779b9"

definition DELETED_SALT :: "32 word" where "DELETED_SALT = 0x27d4eb2f"

record DigestLanes =
  hi :: "32 word"
  lo :: "32 word"

definition entryContribution :: "Entry \<Rightarrow> DigestLanes" where
  "entryContribution entry =
     (let keyHash = hash32 (e_key entry);
          wallLow = word_of_int (wallMs (e_timestamp entry));
          wallHigh = word_of_int (wallMs (e_timestamp entry) div 0x100000000);
          lgc = word_of_int (logical (e_timestamp entry));
          nodeHash = hash32 (node (e_timestamp entry));
          salt = (if e_deleted entry then DELETED_SALT else 0);
          l = mix32 (mix32 (mix32 (keyHash XOR wallLow XOR salt) XOR lgc) XOR nodeHash);
          h = mix32 (mix32 (mix32 (keyHash XOR HI_SEED) XOR wallHigh) XOR (nodeHash XOR lgc))
      in \<lparr>hi = h, lo = l\<rparr>)"

lemma supersedes_iff: "supersedes e d \<longleftrightarrow> e_timestamp d < e_timestamp e"
  by (simp add: supersedes_def compareHybrid_pos)

section \<open>The fragment\<close>

record Partition =
  pt_entries :: "(jsstr, Entry) jsmap"
  pt_hi :: "32 word"
  pt_lo :: "32 word"

definition pt_new :: Partition where
  "pt_new = \<lparr>pt_entries = [], pt_hi = 0, pt_lo = 0\<rparr>"

definition pt_size :: "Partition \<Rightarrow> nat" where
  "pt_size p = length (pt_entries p)"

definition pt_digest :: "Partition \<Rightarrow> DigestLanes" where
  "pt_digest p = \<lparr>hi = pt_hi p, lo = pt_lo p\<rparr>"

definition pt_peek :: "jsstr \<Rightarrow> Partition \<Rightarrow> Entry option" where
  "pt_peek key p = js_get (pt_entries p) key"

definition pt_get :: "jsstr \<Rightarrow> int \<Rightarrow> Partition \<Rightarrow> Entry option" where
  "pt_get key nowMs p =
     (case js_get (pt_entries p) key of
        None \<Rightarrow> None
      | Some entry \<Rightarrow> if isLiveValue entry nowMs then Some entry else None)"

definition pt_toggle :: "Entry \<Rightarrow> Partition \<Rightarrow> Partition" where
  "pt_toggle entry p =
     (let contribution = entryContribution entry
      in p\<lparr>pt_hi := pt_hi p XOR hi contribution, pt_lo := pt_lo p XOR lo contribution\<rparr>)"

definition pt_apply :: "Entry \<Rightarrow> Partition \<Rightarrow> bool \<times> Partition" where
  "pt_apply entry p =
     (let existing = js_get (pt_entries p) (e_key entry) in
      if existing \<noteq> None \<and> \<not> supersedes entry (the existing) then (False, p)
      else
        let p1 = (case existing of None \<Rightarrow> p | Some old \<Rightarrow> pt_toggle old p);
            p2 = p1\<lparr>pt_entries := js_set (e_key entry) entry (pt_entries p1)\<rparr>
        in (True, pt_toggle entry p2))"

definition pt_reapable :: "int \<Rightarrow> Entry \<Rightarrow> bool" where
  "pt_reapable nowMs entry \<longleftrightarrow> isReapableTombstone entry nowMs \<or> isExpired entry nowMs"

text \<open>
  The walk visits the values in order; deleting the entry being visited leaves
  the rest of the walk unchanged.
\<close>

definition pt_reap :: "int \<Rightarrow> Partition \<Rightarrow> nat \<times> Partition" where
  "pt_reap nowMs p =
     fold (\<lambda>entry (reaped, q).
         if pt_reapable nowMs entry
         then (reaped + 1, pt_toggle entry (q\<lparr>pt_entries := js_delete (e_key entry) (pt_entries q)\<rparr>))
         else (reaped, q))
       (js_values (pt_entries p)) (0, p)"

definition pt_bucketDigests :: "nat \<Rightarrow> Partition \<Rightarrow> DigestLanes list" where
  "pt_bucketDigests bucketCount p =
     (let (his, los) =
        fold (\<lambda>entry (his, los).
            let bucket = repairBucket (e_key entry) bucketCount;
                contribution = entryContribution entry
            in (his[bucket := his ! bucket XOR hi contribution],
                los[bucket := los ! bucket XOR lo contribution]))
          (js_values (pt_entries p)) (replicate bucketCount 0, replicate bucketCount 0)
      in map (\<lambda>b. \<lparr>hi = his ! b, lo = los ! b\<rparr>) [0..<bucketCount])"

record KeyVersion =
  kv_key :: jsstr
  kv_timestamp :: HybridTime

definition pt_keyVersions :: "nat set \<Rightarrow> nat \<Rightarrow> Partition \<Rightarrow> KeyVersion list" where
  "pt_keyVersions buckets bucketCount p =
     map (\<lambda>e. \<lparr>kv_key = e_key e, kv_timestamp = e_timestamp e\<rparr>)
       (filter (\<lambda>e. repairBucket (e_key e) bucketCount \<in> buckets) (js_values (pt_entries p)))"

text \<open>The keys are a set that iterates in insertion order, so a list.\<close>

definition pt_entriesFor :: "jsstr list \<Rightarrow> Partition \<Rightarrow> Entry list" where
  "pt_entriesFor keys p = List.map_filter (\<lambda>key. js_get (pt_entries p) key) keys"

section \<open>The digest stays in step\<close>

definition pt_keyed :: "(jsstr, Entry) jsmap \<Rightarrow> bool" where
  "pt_keyed m \<longleftrightarrow> js_ok m \<and> (\<forall>(k, e) \<in> set m. e_key e = k)"

definition digest_of :: "Entry list \<Rightarrow> DigestLanes" where
  "digest_of es =
     \<lparr>hi = xor_all (map (\<lambda>e. hi (entryContribution e)) es), lo = xor_all (map (\<lambda>e. lo (entryContribution e)) es)\<rparr>"

definition pt_inv :: "Partition \<Rightarrow> bool" where
  "pt_inv p \<longleftrightarrow> pt_keyed (pt_entries p) \<and> pt_digest p = digest_of (js_values (pt_entries p))"

lemma pt_inv_new [simp]: "pt_inv pt_new"
  by (simp add: pt_inv_def pt_new_def pt_keyed_def pt_digest_def digest_of_def)

lemma pt_keyed_set: "pt_keyed m \<Longrightarrow> pt_keyed (js_set (e_key e) e m)"
  unfolding pt_keyed_def using js_set_subset [of "e_key e" e m] by fastforce

lemma pt_keyed_delete: "pt_keyed m \<Longrightarrow> pt_keyed (js_delete k m)"
  by (auto simp: pt_keyed_def) (auto simp: js_delete_filter)

lemma pt_keyed_get: "pt_keyed m \<Longrightarrow> js_get m k = Some e \<Longrightarrow> e_key e = k"
  by (auto simp: pt_keyed_def dest: map_of_SomeD)

lemma pt_toggle_entries [simp]: "pt_entries (pt_toggle e p) = pt_entries p"
  by (simp add: pt_toggle_def Let_def)

lemma pt_digest_toggle:
  "pt_digest (pt_toggle e p) =
     \<lparr>hi = hi (pt_digest p) XOR hi (entryContribution e), lo = lo (pt_digest p) XOR lo (entryContribution e)\<rparr>"
  by (simp add: pt_toggle_def pt_digest_def Let_def)

lemma pt_digest_entries [simp]: "pt_digest (p\<lparr>pt_entries := m\<rparr>) = pt_digest p"
  by (simp add: pt_digest_def)

lemma digest_of_set:
  "digest_of (js_values (js_set k e m)) =
     (let d = digest_of (js_values m);
          old = (case js_get m k of None \<Rightarrow> \<lparr>hi = 0, lo = 0\<rparr> | Some old \<Rightarrow> entryContribution old)
      in \<lparr>hi = hi d XOR hi old XOR hi (entryContribution e), lo = lo d XOR lo old XOR lo (entryContribution e)\<rparr>)"
  using xor_all_set [of "\<lambda>e. hi (entryContribution e)" k e m] xor_all_set [of "\<lambda>e. lo (entryContribution e)" k e m]
  by (simp add: digest_of_def Let_def del: map_map split: option.splits)

lemma digest_of_delete:
  "js_ok m \<Longrightarrow> js_get m k = Some e \<Longrightarrow>
     digest_of (js_values (js_delete k m)) =
       \<lparr>hi = hi (digest_of (js_values m)) XOR hi (entryContribution e),
        lo = lo (digest_of (js_values m)) XOR lo (entryContribution e)\<rparr>"
  using xor_all_delete [of m k e "\<lambda>e. hi (entryContribution e)"] xor_all_delete [of m k e "\<lambda>e. lo (entryContribution e)"]
  by (simp add: digest_of_def del: map_map)

lemma pt_apply_inv: "pt_inv p \<Longrightarrow> pt_inv (snd (pt_apply e p))"
  by (auto simp: pt_inv_def pt_apply_def pt_digest_toggle digest_of_set pt_keyed_set xor.assoc Let_def
      split: option.splits)

lemma pt_apply_peek:
  "pt_peek k (snd (pt_apply e p)) =
     (if k = e_key e \<and> (\<forall>old. pt_peek k p = Some old \<longrightarrow> supersedes e old) then Some e else pt_peek k p)"
  by (auto simp: pt_apply_def pt_peek_def Let_def split: option.splits)

lemma pt_apply_changed:
  "fst (pt_apply e p) \<longleftrightarrow> (\<forall>old. pt_peek (e_key e) p = Some old \<longrightarrow> supersedes e old)"
  by (auto simp: pt_apply_def pt_peek_def Let_def split: option.splits)

lemma pt_reap_fold:
  assumes "pt_inv q" "distinct (map e_key es)" "\<forall>e \<in> set es. js_get (pt_entries q) (e_key e) = Some e"
  shows "\<exists>q'. fold (\<lambda>entry (reaped, q).
         if pt_reapable nowMs entry
         then (reaped + 1, pt_toggle entry (q\<lparr>pt_entries := js_delete (e_key entry) (pt_entries q)\<rparr>))
         else (reaped, q)) es (n, q) = (n + length (filter (pt_reapable nowMs) es), q')
       \<and> pt_inv q' \<and> pt_entries q' =
         filter (\<lambda>p. fst p \<notin> e_key ` {e \<in> set es. pt_reapable nowMs e}) (pt_entries q)"
  using assms
proof (induction es arbitrary: n q)
  case (Cons e es)
  show ?case
  proof (cases "pt_reapable nowMs e")
    case True
    let ?q = "pt_toggle e (q\<lparr>pt_entries := js_delete (e_key e) (pt_entries q)\<rparr>)"
    have inv: "pt_inv ?q"
      using Cons.prems digest_of_delete [of "pt_entries q" "e_key e" e]
      by (simp add: pt_inv_def pt_digest_toggle pt_keyed_delete) (simp add: pt_keyed_def)
    have got: "\<forall>e' \<in> set es. js_get (pt_entries ?q) (e_key e') = Some e'"
    proof
      fix e' assume e': "e' \<in> set es"
      then have "e_key e' \<in> e_key ` set es" by (rule imageI)
      then have "e_key e' \<noteq> e_key e" using Cons.prems(2) by auto
      moreover have "js_get (pt_entries q) (e_key e') = Some e'" using Cons.prems(3) e' by simp
      ultimately show "js_get (pt_entries ?q) (e_key e') = Some e'" by simp
    qed
    have dist: "distinct (map e_key es)" using Cons.prems(2) by simp
    obtain q' where q': "pt_inv q'" "fold (\<lambda>entry (reaped, q).
         if pt_reapable nowMs entry
         then (reaped + 1, pt_toggle entry (q\<lparr>pt_entries := js_delete (e_key entry) (pt_entries q)\<rparr>))
         else (reaped, q)) es (n + 1, ?q) = (n + 1 + length (filter (pt_reapable nowMs) es), q')"
      "pt_entries q' = filter (\<lambda>p. fst p \<notin> e_key ` {e \<in> set es. pt_reapable nowMs e}) (pt_entries ?q)"
      using Cons.IH [OF inv dist got, of "n + 1"] by blast
    have "pt_entries q' = filter (\<lambda>p. fst p \<notin> e_key ` {e' \<in> set (e # es). pt_reapable nowMs e'}) (pt_entries q)"
      unfolding q'(3) using True by (auto simp: js_delete_filter intro!: filter_cong)
    then show ?thesis using q'(1,2) True by simp
  next
    case False
    then have "{x. (x = e \<or> x \<in> set es) \<and> pt_reapable nowMs x} = {x \<in> set es. pt_reapable nowMs x}" by auto
    then show ?thesis using Cons.IH [of q n] Cons.prems False by simp
  qed
qed simp

lemma pt_values_keys: "pt_keyed m \<Longrightarrow> map e_key (js_values m) = js_keys m"
  by (induction m) (auto simp: pt_keyed_def js_ok_Cons)

lemma pt_value_get: "pt_keyed m \<Longrightarrow> e \<in> set (js_values m) \<Longrightarrow> js_get m (e_key e) = Some e"
  by (auto simp: pt_keyed_def js_get_iff)

lemma pt_reap_result:
  assumes inv: "pt_inv p" and r: "pt_reap nowMs p = (n, p')"
  shows "pt_inv p'" and "pt_entries p' = filter (\<lambda>(k, e). \<not> pt_reapable nowMs e) (pt_entries p)"
    and "n = length (filter (pt_reapable nowMs) (js_values (pt_entries p)))"
proof -
  have k: "pt_keyed (pt_entries p)" using inv by (simp add: pt_inv_def)
  then have dist: "distinct (map e_key (js_values (pt_entries p)))"
    by (simp only: pt_values_keys) (simp add: pt_keyed_def js_ok_def)
  have got: "\<forall>e \<in> set (js_values (pt_entries p)). js_get (pt_entries p) (e_key e) = Some e"
    using pt_value_get [OF k] by blast
  have f: "n = length (filter (pt_reapable nowMs) (js_values (pt_entries p)))" "pt_inv p'"
    "pt_entries p' = filter (\<lambda>q. fst q \<notin> e_key ` {e \<in> set (js_values (pt_entries p)). pt_reapable nowMs e}) (pt_entries p)"
    using pt_reap_fold [OF inv dist got, of nowMs 0] r by (auto simp: pt_reap_def)
  then show "pt_inv p'" "n = length (filter (pt_reapable nowMs) (js_values (pt_entries p)))" by auto
  have "fst q \<notin> e_key ` {e \<in> set (js_values (pt_entries p)). pt_reapable nowMs e} \<longleftrightarrow> \<not> pt_reapable nowMs (snd q)"
    if "q \<in> set (pt_entries p)" for q
  proof -
    have q: "js_get (pt_entries p) (fst q) = Some (snd q)"
      using that k by (simp add: pt_keyed_def js_get_iff)
    have "pt_reapable nowMs (snd q)" if "e \<in> set (js_values (pt_entries p))" "fst q = e_key e" "pt_reapable nowMs e" for e
      using pt_value_get [OF k that(1)] q that(2,3) by simp
    moreover have "fst q = e_key (snd q)" "snd q \<in> set (js_values (pt_entries p))"
      using pt_keyed_get [OF k q] that by auto
    ultimately show ?thesis unfolding image_iff by blast
  qed
  then show "pt_entries p' = filter (\<lambda>(k, e). \<not> pt_reapable nowMs e) (pt_entries p)"
    unfolding f(3) case_prod_beta by (intro filter_cong refl)
qed

lemma pt_reap_peek:
  assumes "pt_inv p"
  shows "pt_peek k (snd (pt_reap nowMs p)) =
     (case pt_peek k p of None \<Rightarrow> None | Some e \<Rightarrow> if pt_reapable nowMs e then None else Some e)"
proof -
  obtain n p' where r: "pt_reap nowMs p = (n, p')" by fastforce
  have ok: "js_ok (pt_entries p)" using assms by (simp add: pt_inv_def pt_keyed_def)
  have "js_ok (filter P (pt_entries p))" for P
    using ok by (induction "pt_entries p") (auto simp: js_ok_def distinct_map_filter)
  then have iff: "pt_peek k p' = Some e \<longleftrightarrow> pt_peek k p = Some e \<and> \<not> pt_reapable nowMs e" for e
    using pt_reap_result(2) [OF assms r] ok by (simp add: pt_peek_def js_get_iff)
  show ?thesis
  proof (cases "pt_peek k p")
    case None
    then show ?thesis using iff r by (metis not_Some_eq option.simps(4) snd_conv)
  next
    case (Some d)
    then show ?thesis using iff [of d] iff [of "the (pt_peek k p')"] r
      by (cases "pt_peek k p'") auto
  qed
qed

section \<open>Last write wins as a commuting, idempotent merge\<close>

definition lww_put :: "Entry \<Rightarrow> (jsstr \<Rightarrow> Entry option) \<Rightarrow> (jsstr \<Rightarrow> Entry option)" where
  "lww_put e m =
     (case m (e_key e) of
        None \<Rightarrow> m(e_key e \<mapsto> e)
      | Some d \<Rightarrow> if e_timestamp d < e_timestamp e then m(e_key e \<mapsto> e) else m)"

definition one_write_per_stamp :: "Entry set \<Rightarrow> bool" where
  "one_write_per_stamp S \<longleftrightarrow>
     (\<forall>a \<in> S. \<forall>b \<in> S. e_key a = e_key b \<and> e_timestamp a = e_timestamp b \<longrightarrow> a = b)"

definition pt_lookup :: "Partition \<Rightarrow> jsstr \<Rightarrow> Entry option" where
  "pt_lookup p = (\<lambda>k. pt_peek k p)"

definition pt_merge :: "Entry list \<Rightarrow> Partition \<Rightarrow> Partition" where
  "pt_merge es p = fold (\<lambda>e p. snd (pt_apply e p)) es p"

lemma pt_apply_lww: "pt_lookup (snd (pt_apply e p)) = lww_put e (pt_lookup p)"
  by (auto simp: fun_eq_iff pt_lookup_def pt_apply_peek lww_put_def supersedes_iff split: option.splits)

lemma pt_merge_lww: "pt_lookup (pt_merge es p) = fold lww_put es (pt_lookup p)"
  by (induction es arbitrary: p) (simp_all add: pt_merge_def pt_apply_lww)

lemma pt_merge_inv: "pt_inv p \<Longrightarrow> pt_inv (pt_merge es p)"
  by (induction es arbitrary: p) (simp_all add: pt_merge_def pt_apply_inv)

lemma lww_commute:
  assumes "e_key a = e_key b \<Longrightarrow> e_timestamp a = e_timestamp b \<Longrightarrow> a = b"
  shows "lww_put a (lww_put b m) = lww_put b (lww_put a m)"
proof (cases "e_key a = e_key b")
  case False
  then show ?thesis by (auto simp: lww_put_def fun_eq_iff split: option.splits)
next
  case True
  have "a = b \<or> e_timestamp a < e_timestamp b \<or> e_timestamp b < e_timestamp a"
    using assms True by (metis neqE)
  then show ?thesis
    using True by (auto simp: lww_put_def fun_eq_iff split: option.splits)
qed

lemma lww_idem: "one_write_per_stamp S \<Longrightarrow> comp_fun_idem_on S lww_put"
proof
  fix a b assume "one_write_per_stamp S" "a \<in> S" "b \<in> S"
  then show "lww_put b \<circ> lww_put a = lww_put a \<circ> lww_put b"
    by (auto simp: one_write_per_stamp_def fun_eq_iff intro: lww_commute [THEN fun_cong])
next
  fix a show "lww_put a \<circ> lww_put a = lww_put a"
    by (auto simp: lww_put_def fun_eq_iff split: option.splits)
qed

lemma lww_fold_set:
  assumes "one_write_per_stamp (set es)" "set es = set es'"
  shows "fold lww_put es m = fold lww_put es' m"
proof -
  note idem = lww_idem [OF assms(1)]
  show ?thesis
    using comp_fun_idem_on.fold_set_fold [OF idem, of es m] comp_fun_idem_on.fold_set_fold [OF idem, of es' m]
      assms(2) by simp
qed

section \<open>Repair buckets\<close>

definition bucket_of :: "nat \<Rightarrow> nat \<Rightarrow> Entry list \<Rightarrow> Entry list" where
  "bucket_of n b es = filter (\<lambda>e. repairBucket (e_key e) n = b) es"

lemma repairBucket_less: "0 < n \<Longrightarrow> repairBucket k n < n"
  by (simp add: repairBucket_def)

lemma bucket_fold:
  assumes "0 < n" "length his = n" "length los = n"
    and "fold (\<lambda>entry (his, los).
            let bucket = repairBucket (e_key entry) n; contribution = entryContribution entry
            in (his[bucket := his ! bucket XOR hi contribution],
                los[bucket := los ! bucket XOR lo contribution])) es (his, los) = (his', los')"
    and "b < n"
  shows "his' ! b = his ! b XOR hi (digest_of (bucket_of n b es))
    \<and> los' ! b = los ! b XOR lo (digest_of (bucket_of n b es))"
  using assms
proof (induction es arbitrary: his los)
  case (Cons e es)
  let ?k = "repairBucket (e_key e) n" and ?c = "entryContribution e"
  have "his' ! b = his[?k := his ! ?k XOR hi ?c] ! b XOR hi (digest_of (bucket_of n b es))
      \<and> los' ! b = los[?k := los ! ?k XOR lo ?c] ! b XOR lo (digest_of (bucket_of n b es))"
    using Cons.prems by (intro Cons.IH) (simp_all add: Let_def)
  then show ?case
    using Cons.prems(2,3,5) by (auto simp: bucket_of_def digest_of_def nth_list_update ac_simps)
qed (simp add: bucket_of_def digest_of_def)

lemma length_bucketDigests [simp]: "length (pt_bucketDigests n p) = n"
  by (simp add: pt_bucketDigests_def case_prod_beta)

lemma bucketDigests_nth:
  assumes "b < n"
  shows "pt_bucketDigests n p ! b = digest_of (bucket_of n b (js_values (pt_entries p)))"
proof -
  define f where "f = fold (\<lambda>entry (his, los).
            let bucket = repairBucket (e_key entry) n; contribution = entryContribution entry
            in (his[bucket := his ! bucket XOR hi contribution],
                los[bucket := los ! bucket XOR lo contribution]))
      (js_values (pt_entries p)) (replicate n 0, replicate n 0)"
  have "fst f ! b = replicate n 0 ! b XOR hi (digest_of (bucket_of n b (js_values (pt_entries p))))
      \<and> snd f ! b = replicate n 0 ! b XOR lo (digest_of (bucket_of n b (js_values (pt_entries p))))"
    using assms by (intro bucket_fold [where es = "js_values (pt_entries p)"]) (auto simp: f_def)
  then show ?thesis
    using assms by (simp add: pt_bucketDigests_def f_def [symmetric] case_prod_beta)
qed

lemma digest_of_perm: "mset es = mset es' \<Longrightarrow> digest_of es = digest_of es'"
  by (simp add: digest_of_def) (metis mset_map xor_all_perm)

lemma same_lookup_digests:
  assumes "pt_inv p" "pt_inv q" "pt_lookup p = pt_lookup q"
  shows "mset (js_values (pt_entries p)) = mset (js_values (pt_entries q))"
    and "pt_digest p = pt_digest q" and "pt_bucketDigests n p = pt_bucketDigests n q"
proof -
  have "map_of (pt_entries p) = map_of (pt_entries q)"
    using assms(3) by (simp add: pt_lookup_def pt_peek_def fun_eq_iff)
  then have "mset (pt_entries p) = mset (pt_entries q)"
    using assms(1,2) by (intro js_same_pairs) (auto simp: pt_inv_def pt_keyed_def)
  then show m: "mset (js_values (pt_entries p)) = mset (js_values (pt_entries q))" by (metis mset_map)
  then show "pt_digest p = pt_digest q"
    using assms(1,2) digest_of_perm by (simp add: pt_inv_def)
  have "digest_of (bucket_of n b (js_values (pt_entries p))) = digest_of (bucket_of n b (js_values (pt_entries q)))" for b
    using m by (intro digest_of_perm) (simp add: bucket_of_def mset_filter del: mset_map)
  then show "pt_bucketDigests n p = pt_bucketDigests n q"
    by (intro nth_equalityI) (simp_all add: bucketDigests_nth)
qed

section \<open>Properties\<close>

text \<open>Every state a fragment reaches by merging and reaping.\<close>

datatype pt_call = Merge Entry | Reap int

fun pt_step :: "pt_call \<Rightarrow> Partition \<Rightarrow> Partition" where
  "pt_step (Merge e) p = snd (pt_apply e p)"
| "pt_step (Reap nowMs) p = snd (pt_reap nowMs p)"

lemma pt_step_inv: "pt_inv p \<Longrightarrow> pt_inv (pt_step c p)"
  using pt_reap_result(1) by (cases c) (auto simp: pt_apply_inv, metis prod.collapse)

lemma pt_steps_inv: "pt_inv p \<Longrightarrow> pt_inv (fold pt_step cs p)"
  by (induction cs arbitrary: p) (simp_all add: pt_step_inv)

text \<open>
  C2. The rolling digest is never out of step: after any sequence of merges and
  reaps it is the exclusive-or of the contributions of the entries stored, and
  the per-bucket digests are the same sums restricted to the bucket's keys.
\<close>

theorem partition_digest_in_step:
  "pt_digest (fold pt_step cs pt_new) = digest_of (js_values (pt_entries (fold pt_step cs pt_new)))
   \<and> pt_bucketDigests n (fold pt_step cs pt_new)
       = map (\<lambda>b. digest_of (bucket_of n b (js_values (pt_entries (fold pt_step cs pt_new))))) [0..<n]"
proof -
  have "pt_inv (fold pt_step cs pt_new)" by (simp add: pt_steps_inv)
  then show ?thesis
    by (auto simp: pt_inv_def bucketDigests_nth intro!: nth_equalityI)
qed

text \<open>
  C7. Replicas converge: two fragments that hold the same entries and then merge
  the same writes, in any order and with any repetition, hold the same entries
  and the same digests, provided no two different writes to a key share a
  timestamp.
\<close>

theorem partition_converges:
  assumes "pt_inv p" and "pt_inv q" and "pt_lookup p = pt_lookup q"
    and "one_write_per_stamp (set es)" and "set es = set es'"
  shows "pt_lookup (pt_merge es p) = pt_lookup (pt_merge es' q)
    \<and> pt_digest (pt_merge es p) = pt_digest (pt_merge es' q)
    \<and> pt_bucketDigests n (pt_merge es p) = pt_bucketDigests n (pt_merge es' q)"
proof -
  have "pt_lookup (pt_merge es p) = pt_lookup (pt_merge es' q)"
    using lww_fold_set [OF assms(4,5)] assms(3) by (simp add: pt_merge_lww)
  then show ?thesis
    using same_lookup_digests(2,3) [OF pt_merge_inv [OF assms(1)] pt_merge_inv [OF assms(2)]] by blast
qed

theorem partition_converges_witness:
  "\<exists>a b. e_timestamp a \<noteq> e_timestamp b \<and> e_key a = e_key b
     \<and> pt_lookup (pt_merge [a, b, a] pt_new) = pt_lookup (pt_merge [b, a] pt_new)
     \<and> pt_digest (pt_merge [a, b, a] pt_new) = pt_digest (pt_merge [b, a] pt_new)"
proof -
  let ?e = "\<lambda>t. \<lparr>e_key = js ''k'', e_value = Some [], e_timestamp = HybridTime t 0 (js ''n''),
                e_sequence = 0, e_expiresAt = None, e_deleted = False\<rparr>"
  have "one_write_per_stamp (set [?e 1, ?e 2, ?e 1])" by (auto simp: one_write_per_stamp_def)
  then have "pt_lookup (pt_merge [?e 1, ?e 2, ?e 1] pt_new) = pt_lookup (pt_merge [?e 2, ?e 1] pt_new)
    \<and> pt_digest (pt_merge [?e 1, ?e 2, ?e 1] pt_new) = pt_digest (pt_merge [?e 2, ?e 1] pt_new)"
    using partition_converges [OF pt_inv_new pt_inv_new refl, of "[?e 1, ?e 2, ?e 1]" "[?e 2, ?e 1]"] by force
  then show ?thesis by (intro exI [of _ "?e 1"] exI [of _ "?e 2"]) simp
qed

lemma bucket_without:
  assumes "pt_keyed m" "b \<noteq> repairBucket k n"
  shows "bucket_of n b (js_values (js_delete k m)) = bucket_of n b (js_values m)"
  using assms by (induction m) (auto simp: bucket_of_def pt_keyed_def js_ok_Cons)

text \<open>
  The repair buckets isolate a difference: when two fragments agree on every
  key but one, their digests agree in every bucket but that key's.
\<close>

lemma bucket_isolates_difference:
  assumes "pt_inv p" and "pt_inv q" and "\<forall>k'. k' \<noteq> k \<longrightarrow> pt_peek k' p = pt_peek k' q"
    and "b < n" and "b \<noteq> repairBucket k n"
  shows "pt_bucketDigests n p ! b = pt_bucketDigests n q ! b"
proof -
  let ?p = "js_delete k (pt_entries p)" and ?q = "js_delete k (pt_entries q)"
  have kp: "pt_keyed (pt_entries p)" "pt_keyed (pt_entries q)" using assms(1,2) by (auto simp: pt_inv_def)
  then have ok: "js_ok ?p" "js_ok ?q" using pt_keyed_delete by (auto simp: pt_keyed_def)
  have "map_of ?p = map_of ?q"
    using assms(3) by (auto simp: fun_eq_iff pt_peek_def)
  then have "mset ?p = mset ?q" using ok by (intro js_same_pairs)
  then have "mset (js_values ?p) = mset (js_values ?q)" by (metis mset_map)
  then have "digest_of (bucket_of n b (js_values ?p)) = digest_of (bucket_of n b (js_values ?q))"
    by (intro digest_of_perm) (simp add: bucket_of_def mset_filter del: mset_map)
  then show ?thesis
    using bucket_without [OF kp(1) assms(5)] bucket_without [OF kp(2) assms(5)] assms(4)
    by (simp add: bucketDigests_nth)
qed

lemma reap_invisible_at:
  assumes "pt_inv p" and "nowMs \<le> t"
  shows "pt_get k t (snd (pt_reap nowMs p)) = pt_get k t p"
  using assms(2) pt_reap_peek [OF assms(1), of k nowMs]
  by (auto simp: pt_get_def pt_peek_def pt_reapable_def isReapableTombstone_def isLiveValue_def isExpired_def
      split: option.splits if_splits)

text \<open>
  Reaping is invisible to readers: at the time of the sweep and at every later
  time a read returns what it would have returned without it.
\<close>

lemma reap_invisible:
  assumes "pt_inv p" and "nowMs \<le> t"
  shows "pt_get k t (snd (pt_reap nowMs p)) = pt_get k t p"
  by (rule reap_invisible_at [OF assms])

text \<open>
  Tombstones are kept for a retention time so that an older write arriving late
  cannot bring a key back; an expired entry is removed by the first pass that meets
  it.
\<close>

definition stamped_value :: "jsstr \<Rightarrow> int \<Rightarrow> int option \<Rightarrow> Entry" where
  "stamped_value k t expiresAt = \<lparr>e_key = k, e_value = Some [], e_timestamp = HybridTime t 0 (js ''n''),
     e_sequence = t, e_expiresAt = expiresAt, e_deleted = False\<rparr>"

text \<open>
  C39. A pass forgets an expired write at once: a late replica of an older write of
  the key, one without expiry, is hidden while the expired entry is stored and
  becomes visible when a pass has removed it.
\<close>

theorem reaped_expiry_lets_older_write_back:
  "pt_get k 30 (pt_merge [stamped_value k 10 (Some 20), stamped_value k 5 None] pt_new) = None
   \<and> pt_get k 30 (pt_merge [stamped_value k 5 None] (snd (pt_reap 30 (pt_merge [stamped_value k 10 (Some 20)] pt_new))))
       = Some (stamped_value k 5 None)"
proof -
  let ?old = "stamped_value k 5 None" and ?new = "stamped_value k 10 (Some 20)"
  let ?p = "pt_merge [?new] pt_new"
  have inv: "pt_inv ?p" by (simp add: pt_merge_inv)
  have "pt_peek k pt_new = None" by (simp add: pt_peek_def pt_new_def)
  then have p: "pt_peek k ?p = Some ?new" by (simp add: pt_merge_def pt_apply_peek stamped_value_def)
  have "pt_peek k (snd (pt_reap 30 ?p)) = None"
    using pt_reap_peek [OF inv, of k 30] p by (simp add: pt_reapable_def isExpired_def stamped_value_def)
  then have "pt_peek k (pt_merge [?old] (snd (pt_reap 30 ?p))) = Some ?old"
    by (simp add: pt_merge_def pt_apply_peek stamped_value_def)
  moreover have "pt_peek k (pt_merge [?old] ?p) = Some ?new"
    using p by (simp add: pt_merge_def pt_apply_peek supersedes_iff less_HybridTime_iff stamped_value_def)
  moreover have "pt_merge [?new, ?old] pt_new = pt_merge [?old] ?p" by (simp add: pt_merge_def)
  ultimately show ?thesis
    by (simp add: pt_get_def pt_peek_def [symmetric] isLiveValue_def isExpired_def stamped_value_def)
qed

end
