(* ===== verification/Store.thy ===== *)
theory Store
  imports Partition
begin

text \<open>
  The node-local store, \<open>src/kv/store.ts\<close>: the partitions a node holds, keyed by
  partition id, with the janitor's round-robin sweep.  The theory shows that the
  store is one last-write-wins map over all keys, that sweeping never changes what
  a reader sees, and that successive sweeps visit every partition held.
\<close>

section \<open>State and operations\<close>

definition JANITOR_PARTITIONS_PER_SWEEP :: nat where
  "JANITOR_PARTITIONS_PER_SWEEP = 64"

record Store =
  sr_partitionCount :: int
  sr_partitions :: "(nat, Partition) jsmap"
  sr_sweepCursor :: nat

definition sr_new :: "int \<Rightarrow> RangeError + Store" where
  "sr_new partitionCount =
     (if \<not> isSafeInteger partitionCount \<or> partitionCount \<le> 0 then Inl RangeError
      else Inr \<lparr>sr_partitionCount = partitionCount, sr_partitions = [], sr_sweepCursor = 0\<rparr>)"

definition sr_partitionsHeld :: "Store \<Rightarrow> nat" where
  "sr_partitionsHeld s = length (sr_partitions s)"

definition sr_heldPartitions :: "Store \<Rightarrow> nat list" where
  "sr_heldPartitions s = js_keys (sr_partitions s)"

text \<open>
  The constructor has vetted the count, so the call to \<open>partitionId\<close> never throws;
  \<^term>\<open>projr\<close> reads its result.
\<close>

definition sr_partitionFor :: "jsstr \<Rightarrow> Store \<Rightarrow> nat" where
  "sr_partitionFor key s = projr (partitionId key (sr_partitionCount s))"

definition sr_get :: "jsstr \<Rightarrow> int \<Rightarrow> Store \<Rightarrow> Entry option" where
  "sr_get key nowMs s =
     (case js_get (sr_partitions s) (sr_partitionFor key s) of
        None \<Rightarrow> None | Some p \<Rightarrow> pt_get key nowMs p)"

definition sr_peek :: "jsstr \<Rightarrow> Store \<Rightarrow> Entry option" where
  "sr_peek key s =
     (case js_get (sr_partitions s) (sr_partitionFor key s) of
        None \<Rightarrow> None | Some p \<Rightarrow> pt_peek key p)"

definition sr_snapshot :: "nat \<Rightarrow> Store \<Rightarrow> Entry list" where
  "sr_snapshot pid s =
     (case js_get (sr_partitions s) pid of None \<Rightarrow> [] | Some p \<Rightarrow> js_values (pt_entries p))"

definition sr_ensure :: "nat \<Rightarrow> Store \<Rightarrow> Partition \<times> Store" where
  "sr_ensure pid s =
     (case js_get (sr_partitions s) pid of
        Some existing \<Rightarrow> (existing, s)
      | None \<Rightarrow> (pt_new, s\<lparr>sr_partitions := js_set pid pt_new (sr_partitions s)\<rparr>))"

definition sr_apply :: "Entry \<Rightarrow> Store \<Rightarrow> bool \<times> Store" where
  "sr_apply entry s =
     (let pid = sr_partitionFor (e_key entry) s;
          (p, s1) = sr_ensure pid s;
          (changed, p') = pt_apply entry p
      in (changed, s1\<lparr>sr_partitions := js_set pid p' (sr_partitions s1)\<rparr>))"

definition sr_drop :: "nat \<Rightarrow> Store \<Rightarrow> Store" where
  "sr_drop pid s = s\<lparr>sr_partitions := js_delete pid (sr_partitions s)\<rparr>"

definition sr_digest :: "nat \<Rightarrow> Store \<Rightarrow> DigestLanes option" where
  "sr_digest pid s = map_option pt_digest (js_get (sr_partitions s) pid)"

definition sr_bucketDigests :: "nat \<Rightarrow> nat \<Rightarrow> Store \<Rightarrow> DigestLanes list" where
  "sr_bucketDigests pid bucketCount s =
     (case js_get (sr_partitions s) pid of
        Some p \<Rightarrow> pt_bucketDigests bucketCount p
      | None \<Rightarrow> replicate bucketCount \<lparr>hi = 0, lo = 0\<rparr>)"

definition sr_keyVersions :: "nat \<Rightarrow> nat set \<Rightarrow> nat \<Rightarrow> Store \<Rightarrow> KeyVersion list" where
  "sr_keyVersions pid buckets bucketCount s =
     (case js_get (sr_partitions s) pid of
        None \<Rightarrow> [] | Some p \<Rightarrow> pt_keyVersions buckets bucketCount p)"

definition sr_entriesFor :: "nat \<Rightarrow> jsstr list \<Rightarrow> Store \<Rightarrow> Entry list" where
  "sr_entriesFor pid keys s =
     (case js_get (sr_partitions s) pid of None \<Rightarrow> [] | Some p \<Rightarrow> pt_entriesFor keys p)"

text \<open>
  One step of the sweep reaps the partition at an index of the list of partitions
  held, which the sweep itself does not change.
\<close>

definition sr_sweepStep :: "int \<Rightarrow> nat \<Rightarrow> nat \<times> Store \<Rightarrow> nat \<times> Store" where
  "sr_sweepStep nowMs index = (\<lambda>(reaped, s).
     let (pid, p) = sr_partitions s ! index; (n, p') = pt_reap nowMs p
     in (reaped + n, s\<lparr>sr_partitions := (sr_partitions s)[index := (pid, p')]\<rparr>))"

definition sr_sweep :: "int \<Rightarrow> Store \<Rightarrow> nat \<times> Store" where
  "sr_sweep nowMs s =
     (let held = length (sr_partitions s) in
      if held = 0 then (0, s)
      else
        let count = min held JANITOR_PARTITIONS_PER_SWEEP;
            (reaped, s') = fold (\<lambda>step. sr_sweepStep nowMs ((sr_sweepCursor s + step) mod held))
                             [0..<count] (0, s)
        in (reaped, s'\<lparr>sr_sweepCursor := (sr_sweepCursor s + count) mod held\<rparr>))"

text \<open>The batches of \<open>iterate\<close>, for a partition that does not change meanwhile.\<close>

fun sr_batches :: "nat \<Rightarrow> Entry list \<Rightarrow> Entry list \<Rightarrow> Entry list list" where
  "sr_batches limit batch [] = (if batch = [] then [] else [batch])"
| "sr_batches limit batch (e # es) =
     (let batch = batch @ [e] in
      if limit \<le> length batch then batch # sr_batches limit [] es else sr_batches limit batch es)"

definition sr_iterate :: "nat \<Rightarrow> nat \<Rightarrow> Store \<Rightarrow> Entry list list" where
  "sr_iterate pid batchSize s =
     (case js_get (sr_partitions s) pid of
        None \<Rightarrow> [] | Some p \<Rightarrow> sr_batches (max 1 batchSize) [] (js_values (pt_entries p)))"

section \<open>Invariant\<close>

definition sr_inv :: "Store \<Rightarrow> bool" where
  "sr_inv s \<longleftrightarrow> isSafeInteger (sr_partitionCount s) \<and> 0 < sr_partitionCount s \<and> js_ok (sr_partitions s)
     \<and> (\<forall>(pid, p) \<in> set (sr_partitions s). pt_inv p \<and> (\<forall>k e. pt_peek k p = Some e \<longrightarrow> sr_partitionFor k s = pid))"

definition sr_lookup :: "Store \<Rightarrow> jsstr \<Rightarrow> Entry option" where
  "sr_lookup s = (\<lambda>k. sr_peek k s)"

lemma sr_new_inv: "sr_new n = Inr s \<Longrightarrow> sr_inv s \<and> sr_lookup s = Map.empty"
  by (auto simp: sr_new_def sr_inv_def sr_lookup_def sr_peek_def split: if_splits)

lemma sr_inv_get: "sr_inv s \<Longrightarrow> js_get (sr_partitions s) pid = Some p \<Longrightarrow>
    pt_inv p \<and> (\<forall>k e. pt_peek k p = Some e \<longrightarrow> sr_partitionFor k s = pid)"
  by (auto simp: sr_inv_def dest!: map_of_SomeD)

lemma sr_partitionFor_update [simp]:
  "sr_partitionFor k (s\<lparr>sr_partitions := m\<rparr>) = sr_partitionFor k s"
  "sr_partitionFor k (s\<lparr>sr_sweepCursor := c\<rparr>) = sr_partitionFor k s"
  by (simp_all add: sr_partitionFor_def)

lemma sr_inv_setI:
  assumes "sr_inv s" "pt_inv p" "\<And>k e. pt_peek k p = Some e \<Longrightarrow> sr_partitionFor k s = pid"
  shows "sr_inv (s\<lparr>sr_partitions := js_set pid p (sr_partitions s)\<rparr>)"
  using assms js_set_subset [of pid p "sr_partitions s"] by (fastforce simp: sr_inv_def)

lemma sr_apply_set:
  "sr_apply e s =
     (let pid = sr_partitionFor (e_key e) s;
          p = (case js_get (sr_partitions s) pid of None \<Rightarrow> pt_new | Some p \<Rightarrow> p)
      in (fst (pt_apply e p), s\<lparr>sr_partitions := js_set pid (snd (pt_apply e p)) (sr_partitions s)\<rparr>))"
  by (auto simp: sr_apply_def sr_ensure_def Let_def split: option.splits prod.splits)

lemma pt_new_peek [simp]: "pt_peek k pt_new = None"
  by (simp add: pt_peek_def pt_new_def)

lemma sr_apply_inv: "sr_inv s \<Longrightarrow> sr_inv (snd (sr_apply e s))"
proof -
  assume inv: "sr_inv s"
  let ?pid = "sr_partitionFor (e_key e) s"
  let ?p = "case js_get (sr_partitions s) ?pid of None \<Rightarrow> pt_new | Some p \<Rightarrow> p"
  have p: "pt_inv ?p" "\<And>k d. pt_peek k ?p = Some d \<Longrightarrow> sr_partitionFor k s = ?pid"
    using sr_inv_get [OF inv, of ?pid] by (auto split: option.splits)
  show ?thesis
    unfolding sr_apply_set Let_def snd_conv
    using inv p by (intro sr_inv_setI pt_apply_inv) (auto simp: pt_apply_peek split: if_splits)
qed

lemma sr_apply_lww:
  assumes "sr_inv s"
  shows "sr_lookup (snd (sr_apply e s)) = lww_put e (sr_lookup s)"
proof
  fix k
  show "sr_lookup (snd (sr_apply e s)) k = lww_put e (sr_lookup s) k"
    by (cases "sr_partitionFor k s = sr_partitionFor (e_key e) s")
      (auto simp: sr_apply_set Let_def sr_lookup_def sr_peek_def lww_put_def pt_apply_peek supersedes_iff
        split: option.splits)
qed

lemma sr_drop_inv: "sr_inv s \<Longrightarrow> sr_inv (sr_drop pid s)"
  by (auto simp: sr_inv_def sr_drop_def js_delete_filter js_ok_def distinct_map_filter)

section \<open>The sweep\<close>

definition at_index :: "int \<Rightarrow> nat \<Rightarrow> (nat, Partition) jsmap \<Rightarrow> (nat, Partition) jsmap" where
  "at_index nowMs i m = m[i := (fst (m ! i), snd (pt_reap nowMs (snd (m ! i))))]"

lemma sr_sweepStep_at:
  "sr_partitions (snd (sr_sweepStep nowMs i x)) = at_index nowMs i (sr_partitions (snd x))"
  "sr_partitionCount (snd (sr_sweepStep nowMs i x)) = sr_partitionCount (snd x)"
  by (auto simp: sr_sweepStep_def at_index_def split: prod.splits)

lemma sr_sweepStep_fold:
  "sr_partitions (snd (fold (\<lambda>st. sr_sweepStep nowMs (f st)) is x))
     = fold (\<lambda>st. at_index nowMs (f st)) is (sr_partitions (snd x))
   \<and> sr_partitionCount (snd (fold (\<lambda>st. sr_sweepStep nowMs (f st)) is x)) = sr_partitionCount (snd x)"
  by (induction "is" arbitrary: x) (simp_all add: sr_sweepStep_at)

text \<open>The partitions at some indices reaped, the others untouched.\<close>

definition reap_at :: "int \<Rightarrow> nat set \<Rightarrow> (nat, Partition) jsmap \<Rightarrow> (nat, Partition) jsmap" where
  "reap_at nowMs I m =
     map (\<lambda>i. if i \<in> I then (fst (m ! i), snd (pt_reap nowMs (snd (m ! i)))) else m ! i) [0..<length m]"

lemma reap_at_empty: "reap_at nowMs {} m = m"
  by (simp add: reap_at_def map_nth)

lemma at_index_reap_at:
  "i \<notin> I \<Longrightarrow> i < length m \<Longrightarrow> at_index nowMs i (reap_at nowMs I m) = reap_at nowMs (insert i I) m"
  by (rule nth_equalityI) (auto simp: at_index_def reap_at_def nth_list_update)

lemma fold_at_index:
  "distinct (map f is) \<Longrightarrow> (\<forall>i \<in> set is. f i < length m \<and> f i \<notin> I) \<Longrightarrow>
     fold (\<lambda>st. at_index nowMs (f st)) is (reap_at nowMs I m) = reap_at nowMs (I \<union> f ` set is) m"
proof (induction "is" arbitrary: I)
  case (Cons i "is")
  have "fold (\<lambda>st. at_index nowMs (f st)) is (reap_at nowMs (insert (f i) I) m)
      = reap_at nowMs (insert (f i) I \<union> f ` set is) m"
    using Cons.prems by (intro Cons.IH) (auto, metis imageI)
  then show ?case using Cons.prems by (simp add: at_index_reap_at)
qed simp

lemma sweep_indices_distinct:
  "n \<le> m \<Longrightarrow> distinct (map (\<lambda>st. (c + st) mod m) [0..<n])"
  by (auto simp: distinct_map intro!: inj_onI) (metis mod_ring_distinct)

definition visited :: "nat \<Rightarrow> nat \<Rightarrow> nat \<Rightarrow> nat set" where
  "visited c n m = (\<lambda>st. (c + st) mod m) ` {..<n}"

lemma sr_sweep_result:
  assumes "0 < length (sr_partitions s)"
  defines "m \<equiv> length (sr_partitions s)"
  shows "sr_partitions (snd (sr_sweep nowMs s))
      = reap_at nowMs (visited (sr_sweepCursor s) (min m JANITOR_PARTITIONS_PER_SWEEP) m) (sr_partitions s)"
    and "sr_sweepCursor (snd (sr_sweep nowMs s)) = (sr_sweepCursor s + min m JANITOR_PARTITIONS_PER_SWEEP) mod m"
    and "sr_partitionCount (snd (sr_sweep nowMs s)) = sr_partitionCount s"
proof -
  let ?n = "min m JANITOR_PARTITIONS_PER_SWEEP" and ?f = "\<lambda>st. (sr_sweepCursor s + st) mod m"
  have "fold (\<lambda>st. at_index nowMs (?f st)) [0..<?n] (reap_at nowMs {} (sr_partitions s))
      = reap_at nowMs ({} \<union> ?f ` set [0..<?n]) (sr_partitions s)"
    using assms by (intro fold_at_index sweep_indices_distinct) auto
  then show "sr_partitions (snd (sr_sweep nowMs s)) = reap_at nowMs (visited (sr_sweepCursor s) ?n m) (sr_partitions s)"
    using assms(1) sr_sweepStep_fold [of nowMs ?f "[0..<?n]" "(0, s)"]
    by (simp add: sr_sweep_def m_def reap_at_empty visited_def atLeast0LessThan Let_def case_prod_beta)
  show "sr_sweepCursor (snd (sr_sweep nowMs s)) = (sr_sweepCursor s + ?n) mod m"
    "sr_partitionCount (snd (sr_sweep nowMs s)) = sr_partitionCount s"
    using assms(1) sr_sweepStep_fold [of nowMs ?f "[0..<?n]" "(0, s)"]
    by (simp_all add: sr_sweep_def m_def Let_def case_prod_beta)
qed

lemma js_keys_reap_at [simp]: "js_keys (reap_at nowMs I m) = js_keys m"
  by (rule nth_equalityI) (auto simp: reap_at_def)

lemma length_reap_at [simp]: "length (reap_at nowMs I m) = length m"
  by (simp add: reap_at_def)

lemma js_ok_reap_at [simp]: "js_ok (reap_at nowMs I m) = js_ok m"
  by (simp add: js_ok_def)

lemma js_get_reap_at:
  assumes "js_ok m" "js_get m k = Some p"
  shows "\<exists>i < length m. m ! i = (k, p)
    \<and> js_get (reap_at nowMs I m) k = Some (if i \<in> I then snd (pt_reap nowMs p) else p)"
proof -
  obtain i where i: "i < length m" "m ! i = (k, p)"
    using assms by (metis in_set_conv_nth js_get_iff)
  then have "(k, if i \<in> I then snd (pt_reap nowMs p) else p) \<in> set (reap_at nowMs I m)"
    by (auto simp: reap_at_def intro!: image_eqI [of _ _ i])
  then show ?thesis using i assms(1) by (auto simp: js_get_iff)
qed

lemma js_get_reap_at_None: "js_get m k = None \<Longrightarrow> js_get (reap_at nowMs I m) k = None"
  by (metis js_keys_reap_at list.set_map map_of_eq_None_iff)

lemma pt_reap_inv: "pt_inv p \<Longrightarrow> pt_inv (snd (pt_reap nowMs p))"
  using pt_reap_result(1) by (metis prod.collapse)

lemma sr_sweep_inv:
  assumes "sr_inv s"
  shows "sr_inv (snd (sr_sweep nowMs s))"
proof (cases "sr_partitions s = []")
  case False
  let ?s = "snd (sr_sweep nowMs s)"
  have ne: "0 < length (sr_partitions s)" using False by simp
  obtain I where m: "sr_partitions ?s = reap_at nowMs I (sr_partitions s)"
    using sr_sweep_result(1) [OF ne] by blast
  have cnt: "sr_partitionCount ?s = sr_partitionCount s" using sr_sweep_result(3) [OF ne] by blast
  have "pt_inv p \<and> (\<forall>k e. pt_peek k p = Some e \<longrightarrow> sr_partitionFor k ?s = pid)"
    if pp: "(pid, p) \<in> set (sr_partitions ?s)" for pid p
  proof -
    obtain i where i: "i < length (sr_partitions s)" "(pid, p) = reap_at nowMs I (sr_partitions s) ! i"
      using pp m by (metis in_set_conv_nth length_reap_at)
    then have old: "sr_partitions s ! i \<in> set (sr_partitions s)" by simp
    have "p = snd (sr_partitions s ! i) \<or> p = snd (pt_reap nowMs (snd (sr_partitions s ! i)))"
      "pid = fst (sr_partitions s ! i)"
      using i by (auto simp: reap_at_def prod_eq_iff split: if_splits)
    moreover have "pt_inv (snd (sr_partitions s ! i))"
      "\<forall>k e. pt_peek k (snd (sr_partitions s ! i)) = Some e \<longrightarrow> sr_partitionFor k s = fst (sr_partitions s ! i)"
      using assms old by (auto simp: sr_inv_def case_prod_beta)
    ultimately show ?thesis
      using cnt by (auto simp: pt_reap_inv pt_reap_peek sr_partitionFor_def split: option.splits if_splits)
  qed
  then show ?thesis using assms m cnt by (auto simp: sr_inv_def)
qed (use assms in \<open>simp add: sr_sweep_def\<close>)

lemma sr_sweep_get:
  assumes "sr_inv s" "nowMs \<le> t"
  shows "sr_get k t (snd (sr_sweep nowMs s)) = sr_get k t s"
proof (cases "sr_partitions s = []")
  case False
  then have ne: "0 < length (sr_partitions s)" by simp
  let ?s = "snd (sr_sweep nowMs s)"
  obtain I where m: "sr_partitions ?s = reap_at nowMs I (sr_partitions s)"
    using sr_sweep_result(1) [OF ne] by blast
  have "sr_partitionFor k ?s = sr_partitionFor k s"
    using sr_sweep_result(3) [OF ne] by (simp add: sr_partitionFor_def)
  moreover have "js_ok (sr_partitions s)" using assms(1) by (simp add: sr_inv_def)
  ultimately show ?thesis
    using js_get_reap_at_None js_get_reap_at [of "sr_partitions s" "sr_partitionFor k s" _ nowMs I]
      reap_invisible_at [OF _ assms(2), of _ k] sr_inv_get [OF assms(1), of "sr_partitionFor k s"]
    by (cases "js_get (sr_partitions s) (sr_partitionFor k s)") (auto simp: sr_get_def m split: if_splits)
qed (simp add: sr_sweep_def)

lemma sr_sweep_lookup:
  assumes "sr_inv s" "sr_lookup (snd (sr_sweep nowMs s)) k = Some e"
  shows "sr_lookup s k = Some e"
proof (cases "sr_partitions s = []")
  case False
  then have ne: "0 < length (sr_partitions s)" by simp
  let ?s = "snd (sr_sweep nowMs s)"
  obtain I where m: "sr_partitions ?s = reap_at nowMs I (sr_partitions s)"
    using sr_sweep_result(1) [OF ne] by blast
  have k: "sr_partitionFor k ?s = sr_partitionFor k s"
    using sr_sweep_result(3) [OF ne] by (simp add: sr_partitionFor_def)
  have ok: "js_ok (sr_partitions s)" using assms(1) by (simp add: sr_inv_def)
  show ?thesis
  proof (cases "js_get (sr_partitions s) (sr_partitionFor k s)")
    case None
    have "js_get (sr_partitions ?s) (sr_partitionFor k ?s) = None" unfolding m k by (rule js_get_reap_at_None [OF None])
    then have False using assms(2) unfolding sr_lookup_def sr_peek_def by simp
    then show ?thesis ..
  next
    case (Some p)
    obtain p' where p': "js_get (sr_partitions ?s) (sr_partitionFor k ?s) = Some p'" "p' = p \<or> p' = snd (pt_reap nowMs p)"
      using js_get_reap_at [OF ok Some, of nowMs I] unfolding m k by (metis (full_types))
    have e: "pt_peek k p' = Some e" using assms(2) p'(1) unfolding sr_lookup_def sr_peek_def by simp
    have "pt_inv p" using sr_inv_get [OF assms(1) Some] by simp
    then have "pt_peek k p = Some e"
      using p'(2) e pt_reap_peek [of p k nowMs] by (auto split: option.splits if_splits)
    then show ?thesis using Some unfolding sr_lookup_def sr_peek_def by simp
  qed
qed (use assms in \<open>simp add: sr_sweep_def\<close>)

lemma sr_drop_lookup: "sr_lookup (sr_drop pid s) k = Some e \<Longrightarrow> sr_lookup s k = Some e"
  by (auto simp: sr_lookup_def sr_peek_def sr_drop_def split: option.splits if_splits)

section \<open>Successive sweeps\<close>

definition clean :: "int \<Rightarrow> Partition \<Rightarrow> bool" where
  "clean t p \<longleftrightarrow> (\<forall>k e. pt_peek k p = Some e \<longrightarrow> \<not> pt_reapable t e)"

lemma pt_reapable_mono: "pt_reapable t e \<Longrightarrow> t \<le> u \<Longrightarrow> pt_reapable u e"
  by (auto simp: pt_reapable_def isReapableTombstone_def isExpired_def split: option.splits)

lemma reap_clean: "pt_inv p \<Longrightarrow> t \<le> u \<Longrightarrow> clean t (snd (pt_reap u p))"
  using pt_reapable_mono by (auto simp: clean_def pt_reap_peek split: option.splits if_splits)

lemma clean_reap: "pt_inv p \<Longrightarrow> clean t p \<Longrightarrow> clean t (snd (pt_reap u p))"
  by (auto simp: clean_def pt_reap_peek split: option.splits if_splits)

lemma visited_append:
  "0 < m \<Longrightarrow> visited c (a + b) m = visited c a m \<union> visited ((c + a) mod m) b m"
proof -
  have "{..<a + b} = {..<a} \<union> (+) a ` {..<b}"
    unfolding lessThan_atLeast0 image_add_atLeastLessThan by auto
  then show ?thesis by (simp add: visited_def image_Un image_image mod_add_left_eq add.assoc)
qed

lemma visited_all: "m \<le> n \<Longrightarrow> i < m \<Longrightarrow> i \<in> visited c n m"
  using mod_ring_reach [of i m c] by (force simp: visited_def)

definition cleaned :: "int \<Rightarrow> nat set \<Rightarrow> Store \<Rightarrow> bool" where
  "cleaned t I s \<longleftrightarrow> (\<forall>i \<in> I. i < length (sr_partitions s) \<longrightarrow> clean t (snd (sr_partitions s ! i)))"

lemma sr_sweep_cleaned:
  assumes "sr_inv s" "cleaned t I s" "t \<le> u" and ne: "0 < length (sr_partitions s)"
  defines "m \<equiv> length (sr_partitions s)"
  shows "cleaned t (I \<union> visited (sr_sweepCursor s) (min m JANITOR_PARTITIONS_PER_SWEEP) m) (snd (sr_sweep u s))"
proof -
  have inv: "pt_inv (snd (sr_partitions s ! i))" if "i < m" for i
    using assms(1) that nth_mem [of i "sr_partitions s"] by (auto simp: sr_inv_def m_def case_prod_beta)
  show ?thesis
    unfolding cleaned_def m_def sr_sweep_result(1) [OF ne]
    using assms(2,3) inv reap_clean clean_reap
    by (auto simp: reap_at_def cleaned_def m_def)
qed

definition sr_sweeps :: "int list \<Rightarrow> Store \<Rightarrow> Store" where
  "sr_sweeps ts s = fold (\<lambda>t s. snd (sr_sweep t s)) ts s"

lemma sr_sweeps_cleaned:
  assumes "sr_inv s" "cleaned t I s" "\<forall>u \<in> set ts. t \<le> u" and "m = length (sr_partitions s)" "0 < m"
  shows "sr_inv (sr_sweeps ts s)
    \<and> cleaned t (I \<union> visited (sr_sweepCursor s) (length ts * min m JANITOR_PARTITIONS_PER_SWEEP) m) (sr_sweeps ts s)
    \<and> length (sr_partitions (sr_sweeps ts s)) = m"
  using assms
proof (induction ts arbitrary: s I)
  case Nil
  then show ?case by (simp add: sr_sweeps_def visited_def)
next
  case (Cons u us)
  let ?n = "min m JANITOR_PARTITIONS_PER_SWEEP" and ?s = "snd (sr_sweep u s)"
  have st: "sr_inv ?s" "cleaned t (I \<union> visited (sr_sweepCursor s) ?n m) ?s" "m = length (sr_partitions ?s)"
    "sr_sweepCursor ?s = (sr_sweepCursor s + ?n) mod m"
    using Cons.prems sr_sweep_inv sr_sweep_cleaned [of s t I u] sr_sweep_result(1,2) [of s u] by auto
  have sweeps: "sr_sweeps (u # us) s = sr_sweeps us ?s" by (simp add: sr_sweeps_def)
  have "visited (sr_sweepCursor s) (length (u # us) * ?n) m
      = visited (sr_sweepCursor s) ?n m \<union> visited (sr_sweepCursor ?s) (length us * ?n) m"
    using visited_append [OF Cons.prems(5), of "sr_sweepCursor s" ?n "length us * ?n"] st(4) by (simp add: add.commute)
  then show ?case
    unfolding sweeps using Cons.IH [OF st(1,2) _ st(3) Cons.prems(5)] Cons.prems(3) by (simp add: Un_assoc)
qed

section \<open>Properties\<close>

datatype sr_call = Put Entry | Drop nat | Sweep int

fun sr_step :: "sr_call \<Rightarrow> Store \<Rightarrow> Store" where
  "sr_step (Put e) s = snd (sr_apply e s)"
| "sr_step (Drop pid) s = sr_drop pid s"
| "sr_step (Sweep nowMs) s = snd (sr_sweep nowMs s)"

lemma sr_steps_inv: "sr_inv s \<Longrightarrow> sr_inv (fold sr_step cs s)"
proof (induction cs arbitrary: s)
  case (Cons c cs)
  then show ?case by (cases c) (simp_all add: sr_apply_inv sr_drop_inv sr_sweep_inv)
qed simp

text \<open>
  C4. Splitting keys over partitions is invisible: a store is one last-write-wins
  map over all keys.  A write reaches exactly its own key in any store that
  writes, drops and sweeps can produce, and it answers whether it changed it.
\<close>

theorem store_is_lww_map:
  assumes "sr_new n = Inr s0" and "s = fold sr_step cs s0"
  shows "sr_lookup (snd (sr_apply e s)) = lww_put e (sr_lookup s)
    \<and> (fst (sr_apply e s) \<longleftrightarrow> sr_lookup (snd (sr_apply e s)) \<noteq> sr_lookup s)"
proof -
  have inv: "sr_inv s" using sr_steps_inv sr_new_inv assms by blast
  have "fst (sr_apply e s) \<longleftrightarrow> (\<forall>old. sr_lookup s (e_key e) = Some old \<longrightarrow> e_timestamp old < e_timestamp e)"
    by (auto simp: sr_apply_set Let_def pt_apply_changed supersedes_iff sr_lookup_def sr_peek_def split: option.splits)
  moreover have "lww_put e m \<noteq> m \<longleftrightarrow> (\<forall>old. m (e_key e) = Some old \<longrightarrow> e_timestamp old < e_timestamp e)" for m
    by (auto simp: lww_put_def fun_eq_iff split: option.splits if_splits)
  ultimately show ?thesis using sr_apply_lww [OF inv] by simp
qed

theorem store_is_lww_map_witness:
  "\<exists>s0 e. sr_new 512 = Inr s0 \<and> sr_lookup (snd (sr_apply e s0)) = lww_put e (sr_lookup s0)
     \<and> fst (sr_apply e s0)"
proof -
  let ?s = "\<lparr>sr_partitionCount = 512, sr_partitions = [], sr_sweepCursor = 0\<rparr>"
  let ?e = "\<lparr>e_key = js ''k'', e_value = Some [], e_timestamp = HybridTime 1 0 (js ''n''),
             e_sequence = 0, e_expiresAt = None, e_deleted = False\<rparr>"
  have new: "sr_new 512 = Inr ?s" by (simp add: sr_new_def isSafeInteger_def)
  have "fst (sr_apply ?e ?s)" by (simp add: sr_apply_set pt_apply_changed)
  then show ?thesis using store_is_lww_map [OF new, of ?s "[]" ?e] new by auto
qed

text \<open>
  Sweeping never changes what a reader sees, and it does reclaim: after enough
  successive sweeps, sampling at most 64 partitions each, every entry that was
  reapable when they began is gone from the store.
\<close>

lemma sweeps_reclaim:
  assumes "sr_inv s" and "\<forall>u \<in> set ts. t \<le> u"
    and "length (sr_partitions s) \<le> JANITOR_PARTITIONS_PER_SWEEP * length ts" and "\<forall>u \<in> set ts. u \<le> r"
  shows "sr_get k r (sr_sweeps ts s) = sr_get k r s
    \<and> (\<forall>e. sr_peek k (sr_sweeps ts s) = Some e \<longrightarrow> \<not> pt_reapable t e)"
proof
  show "sr_get k r (sr_sweeps ts s) = sr_get k r s"
    using assms(1,4)
    by (induction ts arbitrary: s) (simp_all add: sr_sweeps_def sr_sweep_inv sr_sweep_get)
  show "\<forall>e. sr_peek k (sr_sweeps ts s) = Some e \<longrightarrow> \<not> pt_reapable t e"
  proof (cases "sr_partitions s = []")
    case True
    then have "sr_sweeps ts s = s" by (induction ts) (simp_all add: sr_sweeps_def sr_sweep_def)
    then show ?thesis using True by (simp add: sr_peek_def)
  next
    case False
    let ?m = "length (sr_partitions s)" and ?s = "sr_sweeps ts s"
    have m: "0 < ?m" using False by simp
    have "cleaned t {} s" by (simp add: cleaned_def)
    then have c: "cleaned t (visited (sr_sweepCursor s) (length ts * min ?m JANITOR_PARTITIONS_PER_SWEEP) ?m) ?s"
      "length (sr_partitions ?s) = ?m"
      using sr_sweeps_cleaned [OF assms(1) _ assms(2) refl m, of "{}"] by auto
    have "?m \<le> length ts * min ?m JANITOR_PARTITIONS_PER_SWEEP"
      using assms(3) m by (cases ts) (auto simp: min_def mult.commute)
    then have all: "clean t (snd (sr_partitions ?s ! i))" if "i < ?m" for i
      using c(1) that visited_all c(2) by (simp add: cleaned_def)
    show ?thesis
    proof (intro allI impI)
      fix e assume "sr_peek k ?s = Some e"
      then obtain p where p: "js_get (sr_partitions ?s) (sr_partitionFor k ?s) = Some p" "pt_peek k p = Some e"
        by (auto simp: sr_peek_def split: option.splits)
      then obtain i where "i < ?m" "sr_partitions ?s ! i = (sr_partitionFor k ?s, p)"
        using c(2) by (metis in_set_conv_nth map_of_SomeD)
      then show "\<not> pt_reapable t e" using all p(2) by (force simp: clean_def)
    qed
  qed
qed

end
