(* ===== verification/Engine.thy ===== *)
theory Engine
  imports Store
begin

text \<open>
  The node-local operation server, \<open>src/kv/engine.ts\<close>: one serialized pipeline per
  partition in front of the store and the hybrid clock.  A write is queued on its
  partition's pipeline and runs when the tasks before it have settled; the theory
  has one definition for each of the two moments, so that merges, drops and sweeps
  may come between.  The physical source is read twice by a task, once for expiry
  and once by the clock; both readings are arguments.

  The theory shows that an engine fed by its own writes is an ordinary map with
  expiry under put, delete, increment and compare-and-set, that counters wrap at 64
  bits, and what a merged entry from a faster clock does to a later local write.
\<close>

section \<open>Operations and results\<close>

datatype PutCondition = NoCondition | IfAbsent | IfPresent

datatype WriteOp =
    PutOp jsstr bytes PutCondition "int option"
  | DeleteOp jsstr
  | IncrementOp jsstr int
  | CompareAndSetOp jsstr bytes bytes

fun op_key :: "WriteOp \<Rightarrow> jsstr" where
  "op_key (PutOp k _ _ _) = k"
| "op_key (DeleteOp k) = k"
| "op_key (IncrementOp k _) = k"
| "op_key (CompareAndSetOp k _ _) = k"

datatype ConditionFailure = Nx | Xx | Cas

datatype WriteResult = WriteApplied Entry | WriteRejected ConditionFailure

datatype EngineError = TypeError | ClockRangeError

definition readCounter :: "bytes option \<Rightarrow> EngineError + int" where
  "readCounter value =
     (case value of
        None \<Rightarrow> Inl TypeError
      | Some bs \<Rightarrow> if length bs \<noteq> 8 then Inl TypeError else Inr (getBigInt64 bs))"

definition encodeCounter :: "int \<Rightarrow> bytes" where
  "encodeCounter value = setBigInt64 value"

fun bytesEqual_from :: "nat \<Rightarrow> bytes \<Rightarrow> bytes \<Rightarrow> nat \<Rightarrow> bool" where
  "bytesEqual_from 0 left right index = True"
| "bytesEqual_from (Suc n) left right index =
     (if left ! index \<noteq> right ! index then False else bytesEqual_from n left right (index + 1))"

definition bytesEqual :: "bytes \<Rightarrow> bytes \<Rightarrow> bool" where
  "bytesEqual left right \<longleftrightarrow> length left = length right \<and> bytesEqual_from (length left) left right 0"

section \<open>Pipelines\<close>

record PartitionPipeline =
  pp_tail :: "WriteOp list"
  pp_sequence :: int

definition pp_new :: PartitionPipeline where
  "pp_new = \<lparr>pp_tail = [], pp_sequence = 0\<rparr>"

definition pp_run :: "WriteOp \<Rightarrow> PartitionPipeline \<Rightarrow> PartitionPipeline" where
  "pp_run task pl = pl\<lparr>pp_tail := pp_tail pl @ [task]\<rparr>"

definition pp_nextSequence :: "PartitionPipeline \<Rightarrow> int \<times> PartitionPipeline" where
  "pp_nextSequence pl = (pp_sequence pl + 1, pl\<lparr>pp_sequence := pp_sequence pl + 1\<rparr>)"

section \<open>The engine\<close>

record Engine =
  en_store :: Store
  en_clock :: HybridClock
  en_pipelines :: "(nat, PartitionPipeline) jsmap"

definition en_new :: "jsstr \<Rightarrow> int \<Rightarrow> RangeError + Engine" where
  "en_new nd partitionCount =
     (case sr_new partitionCount of
        Inl e \<Rightarrow> Inl e
      | Inr s \<Rightarrow>
          (case hc_new nd of
             Inl e \<Rightarrow> Inl e
           | Inr c \<Rightarrow> Inr \<lparr>en_store = s, en_clock = c, en_pipelines = []\<rparr>))"

definition en_read :: "jsstr \<Rightarrow> int \<Rightarrow> Engine \<Rightarrow> Entry option" where
  "en_read key nowMs en = sr_get key nowMs (en_store en)"

definition en_partitionFor :: "jsstr \<Rightarrow> Engine \<Rightarrow> nat" where
  "en_partitionFor key en = sr_partitionFor key (en_store en)"

definition en_heldPartitions :: "Engine \<Rightarrow> nat list" where
  "en_heldPartitions en = sr_heldPartitions (en_store en)"

definition en_sweep :: "int \<Rightarrow> Engine \<Rightarrow> nat \<times> Engine" where
  "en_sweep nowMs en = (let (n, s) = sr_sweep nowMs (en_store en) in (n, en\<lparr>en_store := s\<rparr>))"

definition en_peek :: "jsstr \<Rightarrow> Engine \<Rightarrow> Entry option" where
  "en_peek key en = sr_peek key (en_store en)"

definition en_snapshot :: "nat \<Rightarrow> Engine \<Rightarrow> Entry list" where
  "en_snapshot pid en = sr_snapshot pid (en_store en)"

definition en_partitionDigest :: "nat \<Rightarrow> Engine \<Rightarrow> DigestLanes" where
  "en_partitionDigest pid en =
     (case sr_digest pid (en_store en) of None \<Rightarrow> \<lparr>hi = 0, lo = 0\<rparr> | Some d \<Rightarrow> d)"

definition REPAIR_BUCKETS :: nat where "REPAIR_BUCKETS = 64"

definition en_bucketDigests :: "nat \<Rightarrow> Engine \<Rightarrow> DigestLanes list" where
  "en_bucketDigests pid en = sr_bucketDigests pid REPAIR_BUCKETS (en_store en)"

definition en_keyVersions :: "nat \<Rightarrow> nat set \<Rightarrow> Engine \<Rightarrow> KeyVersion list" where
  "en_keyVersions pid buckets en = sr_keyVersions pid buckets REPAIR_BUCKETS (en_store en)"

definition en_entriesFor :: "nat \<Rightarrow> jsstr list \<Rightarrow> Engine \<Rightarrow> Entry list" where
  "en_entriesFor pid keys en = sr_entriesFor pid keys (en_store en)"

definition en_merge :: "Entry \<Rightarrow> Engine \<Rightarrow> Engine" where
  "en_merge entry en = en\<lparr>en_store := snd (sr_apply entry (en_store en))\<rparr>"

definition en_drop :: "nat \<Rightarrow> Engine \<Rightarrow> Engine" where
  "en_drop pid en = en\<lparr>en_store := sr_drop pid (en_store en)\<rparr>"

definition en_pipelineFor :: "nat \<Rightarrow> Engine \<Rightarrow> PartitionPipeline \<times> Engine" where
  "en_pipelineFor pid en =
     (case js_get (en_pipelines en) pid of
        Some existing \<Rightarrow> (existing, en)
      | None \<Rightarrow> (pp_new, en\<lparr>en_pipelines := js_set pid pp_new (en_pipelines en)\<rparr>))"

text \<open>
  \<open>write\<close> queues the operation; the task that runs it later names its pipeline by
  the partition id under which the engine keeps it.
\<close>

definition en_write :: "WriteOp \<Rightarrow> Engine \<Rightarrow> Engine" where
  "en_write opn en =
     (let pid = en_partitionFor (op_key opn) en;
          (pl, en1) = en_pipelineFor pid en
      in en1\<lparr>en_pipelines := js_set pid (pp_run opn pl) (en_pipelines en1)\<rparr>)"

definition en_commit ::
  "jsstr \<Rightarrow> bytes option \<Rightarrow> int option \<Rightarrow> nat \<Rightarrow> int option \<Rightarrow> Engine \<Rightarrow> (EngineError + WriteResult) \<times> Engine" where
  "en_commit key value expiresAt pid reading en =
     (case hc_now reading (en_clock en) of
        (Inl _, c) \<Rightarrow> (Inl ClockRangeError, en\<lparr>en_clock := c\<rparr>)
      | (Inr timestamp, c) \<Rightarrow>
          let (sequence, pl) = pp_nextSequence (fst (en_pipelineFor pid en));
              entry = \<lparr>e_key = key, e_value = value, e_timestamp = timestamp, e_sequence = sequence,
                       e_expiresAt = expiresAt, e_deleted = (value = None)\<rparr>
          in (Inr (WriteApplied entry),
              en\<lparr>en_clock := c, en_pipelines := js_set pid pl (en_pipelines en),
                 en_store := snd (sr_apply entry (en_store en))\<rparr>))"

definition en_liveValue :: "jsstr \<Rightarrow> int \<Rightarrow> Engine \<Rightarrow> Entry option" where
  "en_liveValue key nowMs en =
     (case sr_peek key (en_store en) of
        None \<Rightarrow> None
      | Some existing \<Rightarrow> if isLiveValue existing nowMs then Some existing else None)"

definition en_applyPut ::
  "jsstr \<Rightarrow> bytes \<Rightarrow> PutCondition \<Rightarrow> int option \<Rightarrow> Entry option \<Rightarrow> int \<Rightarrow> nat \<Rightarrow> int option \<Rightarrow> Engine
     \<Rightarrow> (EngineError + WriteResult) \<times> Engine" where
  "en_applyPut key value condition ttlMs current nowMs pid reading en =
     (if condition = IfAbsent \<and> current \<noteq> None then (Inr (WriteRejected Nx), en)
      else if condition = IfPresent \<and> current = None then (Inr (WriteRejected Xx), en)
      else en_commit key (Some value) (map_option (\<lambda>ttl. nowMs + ttl) ttlMs) pid reading en)"

definition en_applyIncrement ::
  "jsstr \<Rightarrow> int \<Rightarrow> Entry option \<Rightarrow> nat \<Rightarrow> int option \<Rightarrow> Engine \<Rightarrow> (EngineError + WriteResult) \<times> Engine" where
  "en_applyIncrement key delta current pid reading en =
     (case (case current of None \<Rightarrow> Inr 0 | Some e \<Rightarrow> readCounter (e_value e)) of
        Inl err \<Rightarrow> (Inl err, en)
      | Inr base \<Rightarrow>
          en_commit key (Some (encodeCounter (asIntN64 (base + delta))))
            (case current of None \<Rightarrow> None | Some e \<Rightarrow> e_expiresAt e) pid reading en)"

definition en_applyCompareAndSet ::
  "jsstr \<Rightarrow> bytes \<Rightarrow> bytes \<Rightarrow> Entry option \<Rightarrow> nat \<Rightarrow> int option \<Rightarrow> Engine \<Rightarrow> (EngineError + WriteResult) \<times> Engine" where
  "en_applyCompareAndSet key expected value current pid reading en =
     (case current of
        None \<Rightarrow> (Inr (WriteRejected Cas), en)
      | Some e \<Rightarrow>
          (case e_value e of
             None \<Rightarrow> (Inl TypeError, en)
           | Some bs \<Rightarrow>
               if \<not> bytesEqual bs expected then (Inr (WriteRejected Cas), en)
               else en_commit key (Some value) (e_expiresAt e) pid reading en))"

definition en_apply ::
  "WriteOp \<Rightarrow> nat \<Rightarrow> int \<Rightarrow> int option \<Rightarrow> Engine \<Rightarrow> (EngineError + WriteResult) \<times> Engine" where
  "en_apply opn pid nowMs reading en =
     (let current = en_liveValue (op_key opn) nowMs en in
      case opn of
        PutOp key value condition ttlMs \<Rightarrow> en_applyPut key value condition ttlMs current nowMs pid reading en
      | DeleteOp key \<Rightarrow> en_commit key None None pid reading en
      | IncrementOp key delta \<Rightarrow> en_applyIncrement key delta current pid reading en
      | CompareAndSetOp key expected value \<Rightarrow>
          en_applyCompareAndSet key expected value current pid reading en)"

text \<open>The moment the head of a pipeline's chain runs: its result, when it had a task.\<close>

definition en_task ::
  "nat \<Rightarrow> int \<Rightarrow> int option \<Rightarrow> Engine \<Rightarrow> (EngineError + WriteResult) option \<times> Engine" where
  "en_task pid nowMs reading en =
     (let pl = fst (en_pipelineFor pid en) in
      case pp_tail pl of
        [] \<Rightarrow> (None, en)
      | opn # rest \<Rightarrow>
          let (r, en') = en_apply opn pid nowMs reading
                (en\<lparr>en_pipelines := js_set pid (pl\<lparr>pp_tail := rest\<rparr>) (en_pipelines en)\<rparr>)
          in (Some r, en'))"

section \<open>Payload equality and counters\<close>

lemma bytesEqual_from_iff: "bytesEqual_from n l r i \<longleftrightarrow> (\<forall>j<n. l ! (i + j) = r ! (i + j))"
proof (induction n arbitrary: i)
  case (Suc n)
  show ?case
    using Suc [of "i + 1"] by (auto simp: less_Suc_eq_0_disj)
qed simp

lemma bytesEqual_iff [simp]: "bytesEqual l r \<longleftrightarrow> l = r"
  by (auto simp: bytesEqual_def bytesEqual_from_iff list_eq_iff_nth_eq)

lemma readCounter_encode [simp]: "readCounter (Some (encodeCounter v)) = Inr (asIntN64 v)"
  by (simp add: readCounter_def encodeCounter_def)

section \<open>The specification: a map with expiry\<close>

type_synonym kv = "jsstr \<Rightarrow> (bytes \<times> int option) option"

definition kv_live :: "int \<Rightarrow> kv \<Rightarrow> kv" where
  "kv_live nowMs m = (\<lambda>k. case m k of
     Some (v, Some t) \<Rightarrow> if t \<le> nowMs then None else Some (v, Some t) | x \<Rightarrow> x)"

fun kv_write :: "WriteOp \<Rightarrow> int \<Rightarrow> kv \<Rightarrow> kv option" where
  "kv_write (PutOp k v c ttl) nowMs m =
     (if c = IfAbsent \<and> m k \<noteq> None \<or> c = IfPresent \<and> m k = None then None
      else Some (m(k \<mapsto> (v, map_option (\<lambda>d. nowMs + d) ttl))))"
| "kv_write (DeleteOp k) nowMs m = Some (m(k := None))"
| "kv_write (IncrementOp k d) nowMs m =
     (case m k of
        None \<Rightarrow> Some (m(k \<mapsto> (setBigInt64 (asIntN64 d), None)))
      | Some (v, t) \<Rightarrow>
          if length v = 8 then Some (m(k \<mapsto> (setBigInt64 (asIntN64 (getBigInt64 v + d)), t))) else None)"
| "kv_write (CompareAndSetOp k old v) nowMs m =
     (case m k of
        None \<Rightarrow> None
      | Some (w, t) \<Rightarrow> if w = old then Some (m(k \<mapsto> (v, t))) else None)"

text \<open>What a store holds at a time: the payload and the expiry of its live entries.\<close>

definition sr_abs :: "int \<Rightarrow> Store \<Rightarrow> kv" where
  "sr_abs nowMs s = (\<lambda>k. case sr_lookup s k of
     None \<Rightarrow> None | Some e \<Rightarrow> if isLiveValue e nowMs then Some (the (e_value e), e_expiresAt e) else None)"

definition en_abs :: "int \<Rightarrow> Engine \<Rightarrow> kv" where
  "en_abs nowMs en = sr_abs nowMs (en_store en)"

section \<open>Invariant\<close>

definition en_ahead :: "Engine \<Rightarrow> bool" where
  "en_ahead en \<longleftrightarrow> sr_inv (en_store en) \<and> (\<forall>k e. sr_lookup (en_store en) k = Some e \<longrightarrow>
     e_timestamp e \<le> hc_stamp (en_clock en) \<and> (e_deleted e \<longleftrightarrow> e_value e = None))"

lemma en_new_ahead: "en_new nd n = Inr en \<Longrightarrow> en_ahead en"
  using sr_new_inv [of n] by (auto simp: en_new_def en_ahead_def split: sum.splits)

lemma hc_now_step: "\<exists>c'. hc_now (Some t) c = (Inr (hc_stamp c'), c') \<and> hc_stamp c < hc_stamp c'"
  by (auto simp: hc_now_def hc_readPhysical_def Let_def hc_stamp_def less_HybridTime_iff)

lemma en_commit_result:
  assumes "en_ahead en"
  shows "\<exists>e en'. en_commit key value expiresAt pid (Some t) en = (Inr (WriteApplied e), en') \<and> en_ahead en'
    \<and> e_key e = key \<and> e_value e = value \<and> e_expiresAt e = expiresAt \<and> e_deleted e = (value = None)
    \<and> sr_lookup (en_store en') = (sr_lookup (en_store en))(key \<mapsto> e)"
proof -
  obtain c where c: "hc_now (Some t) (en_clock en) = (Inr (hc_stamp c), c)" "hc_stamp (en_clock en) < hc_stamp c"
    using hc_now_step by blast
  let ?e = "\<lparr>e_key = key, e_value = value, e_timestamp = hc_stamp c,
    e_sequence = pp_sequence (fst (en_pipelineFor pid en)) + 1, e_expiresAt = expiresAt, e_deleted = (value = None)\<rparr>"
  have above: "e_timestamp d < hc_stamp c" if "sr_lookup (en_store en) k = Some d" for k d
    using assms that c(2) unfolding en_ahead_def by (blast intro: le_less_trans)
  have put: "sr_lookup (snd (sr_apply ?e (en_store en))) = (sr_lookup (en_store en))(key \<mapsto> ?e)"
    using assms above by (auto simp: en_ahead_def sr_apply_lww lww_put_def fun_eq_iff split: option.splits)
  have "en_commit key value expiresAt pid (Some t) en = (Inr (WriteApplied ?e),
      en\<lparr>en_clock := c, en_pipelines := js_set pid (snd (pp_nextSequence (fst (en_pipelineFor pid en)))) (en_pipelines en),
         en_store := snd (sr_apply ?e (en_store en))\<rparr>)" (is "_ = (_, ?en')")
    by (simp add: en_commit_def c(1) pp_nextSequence_def Let_def)
  moreover have "en_ahead ?en'"
    using assms above put sr_apply_inv [of "en_store en"] by (auto simp: en_ahead_def less_imp_le split: if_splits)
  ultimately show ?thesis using put by (intro exI [of _ ?e] exI [of _ ?en']) simp
qed

lemma en_commit_refines:
  assumes "en_ahead en"
  obtains e en' where "en_commit key value expiresAt pid (Some t) en = (Inr (WriteApplied e), en')" "en_ahead en'"
    "\<And>nowMs. en_abs nowMs en' = kv_live nowMs ((en_abs nowMs en)(key := map_option (\<lambda>v. (v, expiresAt)) value))"
proof -
  obtain e en' where r: "en_commit key value expiresAt pid (Some t) en = (Inr (WriteApplied e), en')" "en_ahead en'"
    "e_value e = value" "e_expiresAt e = expiresAt" "e_deleted e = (value = None)"
    "sr_lookup (en_store en') = (sr_lookup (en_store en))(key \<mapsto> e)"
    using en_commit_result [OF assms] by blast
  have "en_abs nowMs en' = kv_live nowMs ((en_abs nowMs en)(key := map_option (\<lambda>v. (v, expiresAt)) value))" for nowMs
    unfolding en_abs_def sr_abs_def r(6)
    by (auto simp: fun_eq_iff kv_live_def isLiveValue_def isExpired_def r(3-5) split: option.splits)
  then show thesis using that r(1,2) by blast
qed

lemma en_liveValue_abs:
  "en_abs nowMs en k = map_option (\<lambda>e. (the (e_value e), e_expiresAt e)) (en_liveValue k nowMs en)"
  by (simp add: en_abs_def sr_abs_def en_liveValue_def sr_lookup_def split: option.splits)

lemma en_liveValue_Some:
  "en_ahead en \<Longrightarrow> en_liveValue k nowMs en = Some e \<Longrightarrow>
     \<exists>v. e_value e = Some v \<and> en_abs nowMs en k = Some (v, e_expiresAt e)"
  by (auto simp: en_abs_def sr_abs_def en_liveValue_def sr_lookup_def en_ahead_def isLiveValue_def
      split: option.splits if_splits)

lemma en_apply_refines:
  assumes ahead: "en_ahead en" and run: "en_apply opn pid nowMs (Some t) en = (r, en')"
  shows "en_ahead en' \<and> (case kv_write opn nowMs (en_abs nowMs en) of
     None \<Rightarrow> en' = en \<and> (\<nexists>e. r = Inr (WriteApplied e))
   | Some m \<Rightarrow> en_abs nowMs en' = kv_live nowMs m \<and> (\<exists>e. r = Inr (WriteApplied e)))"
proof (cases opn)
  case (PutOp key v condition ttlMs)
  obtain e en2 where c: "en_commit key (Some v) (map_option (\<lambda>ttl. nowMs + ttl) ttlMs) pid (Some t) en
      = (Inr (WriteApplied e), en2)" "en_ahead en2"
    "en_abs nowMs en2 = kv_live nowMs ((en_abs nowMs en)(key := map_option (\<lambda>x. (x, map_option (\<lambda>ttl. nowMs + ttl) ttlMs)) (Some v)))"
    using en_commit_refines [OF ahead] by metis
  show ?thesis
    using run c ahead en_liveValue_abs [of nowMs en key]
    by (cases "en_liveValue key nowMs en") (auto simp: PutOp en_apply_def en_applyPut_def Let_def split: if_splits)
next
  case (DeleteOp key)
  obtain e en2 where c: "en_commit key None None pid (Some t) en = (Inr (WriteApplied e), en2)" "en_ahead en2"
    "en_abs nowMs en2 = kv_live nowMs ((en_abs nowMs en)(key := map_option (\<lambda>x. (x, None)) None))"
    using en_commit_refines [OF ahead] by metis
  show ?thesis using run c by (auto simp: DeleteOp en_apply_def)
next
  case (IncrementOp key delta)
  show ?thesis
  proof (cases "en_liveValue key nowMs en")
    case None
    obtain e en2 where c: "en_commit key (Some (encodeCounter (asIntN64 delta))) None pid (Some t) en
        = (Inr (WriteApplied e), en2)" "en_ahead en2"
      "en_abs nowMs en2 = kv_live nowMs ((en_abs nowMs en)(key := map_option (\<lambda>x. (x, None)) (Some (encodeCounter (asIntN64 delta)))))"
      using en_commit_refines [OF ahead] by metis
    show ?thesis
      using run c None en_liveValue_abs [of nowMs en key]
      by (simp add: IncrementOp en_apply_def en_applyIncrement_def encodeCounter_def)
  next
    case (Some e)
    then obtain v where v: "e_value e = Some v" "en_abs nowMs en key = Some (v, e_expiresAt e)"
      using en_liveValue_Some [OF ahead] by blast
    obtain e2 en2 where c: "en_commit key (Some (encodeCounter (asIntN64 (getBigInt64 v + delta)))) (e_expiresAt e) pid (Some t) en
        = (Inr (WriteApplied e2), en2)" "en_ahead en2"
      "en_abs nowMs en2 = kv_live nowMs ((en_abs nowMs en)(key :=
         map_option (\<lambda>x. (x, e_expiresAt e)) (Some (encodeCounter (asIntN64 (getBigInt64 v + delta))))))"
      using en_commit_refines [OF ahead] by metis
    show ?thesis
      using run c Some v ahead
      by (auto simp: IncrementOp en_apply_def en_applyIncrement_def encodeCounter_def readCounter_def Let_def split: if_splits)
  qed
next
  case (CompareAndSetOp key expected new)
  show ?thesis
  proof (cases "en_liveValue key nowMs en")
    case None
    then show ?thesis
      using run ahead en_liveValue_abs [of nowMs en key]
      by (auto simp: CompareAndSetOp en_apply_def en_applyCompareAndSet_def)
  next
    case (Some e)
    then obtain v where v: "e_value e = Some v" "en_abs nowMs en key = Some (v, e_expiresAt e)"
      using en_liveValue_Some [OF ahead] by blast
    obtain e2 en2 where c: "en_commit key (Some new) (e_expiresAt e) pid (Some t) en
        = (Inr (WriteApplied e2), en2)" "en_ahead en2"
      "en_abs nowMs en2 = kv_live nowMs ((en_abs nowMs en)(key := map_option (\<lambda>x. (x, e_expiresAt e)) (Some new)))"
      using en_commit_refines [OF ahead] by metis
    show ?thesis
      using run c Some v ahead
      by (auto simp: CompareAndSetOp en_apply_def en_applyCompareAndSet_def split: if_splits)
  qed
qed

section \<open>Runs of an engine\<close>

datatype en_event = Write WriteOp | Task nat int "int option" | Merge Entry | Discard nat | Sweeping int

fun en_step :: "en_event \<Rightarrow> Engine \<Rightarrow> Engine" where
  "en_step (Write opn) en = en_write opn en"
| "en_step (Task pid nowMs reading) en = snd (en_task pid nowMs reading en)"
| "en_step (Merge entry) en = en_merge entry en"
| "en_step (Discard pid) en = en_drop pid en"
| "en_step (Sweeping nowMs) en = snd (en_sweep nowMs en)"

fun is_merge :: "en_event \<Rightarrow> bool" where
  "is_merge (Merge _) = True"
| "is_merge _ = False"

lemma en_ahead_pipelines [simp]: "en_ahead (en\<lparr>en_pipelines := m\<rparr>) = en_ahead en"
  "en_abs nowMs (en\<lparr>en_pipelines := m\<rparr>) = en_abs nowMs en"
  by (simp_all add: en_ahead_def en_abs_def)

lemma en_write_ahead: "en_ahead en \<Longrightarrow> en_ahead (en_write opn en)"
  by (auto simp: en_write_def en_pipelineFor_def Let_def split: option.splits)

lemma en_commit_fails: "en_commit key v x pid None en = (Inl ClockRangeError, en)"
  by (simp add: en_commit_def hc_now_def hc_readPhysical_def)

lemma en_apply_no_clock: "snd (en_apply opn pid nowMs None en) = en"
  by (auto simp: en_apply_def en_applyPut_def en_applyIncrement_def en_applyCompareAndSet_def en_commit_fails Let_def
      split: WriteOp.splits option.splits sum.splits)

lemma en_apply_ahead: "en_ahead en \<Longrightarrow> en_ahead (snd (en_apply opn pid nowMs reading en))"
  using en_apply_refines [of en opn pid nowMs "the reading"] en_apply_no_clock
  by (cases reading) (auto simp: prod_eq_iff)

lemma en_task_ahead: "en_ahead en \<Longrightarrow> en_ahead (snd (en_task pid nowMs reading en))"
  by (auto simp: en_task_def Let_def case_prod_beta en_apply_ahead split: list.splits)

lemma en_drop_ahead: "en_ahead en \<Longrightarrow> en_ahead (en_drop pid en)"
  by (auto simp: en_ahead_def en_drop_def sr_drop_inv dest!: sr_drop_lookup)

lemma en_sweep_ahead: "en_ahead en \<Longrightarrow> en_ahead (snd (en_sweep nowMs en))"
  by (auto simp: en_ahead_def en_sweep_def sr_sweep_inv case_prod_beta dest: sr_sweep_lookup)

lemma en_run_ahead:
  "en_ahead en \<Longrightarrow> \<not> list_ex is_merge es \<Longrightarrow> en_ahead (fold en_step es en)"
proof (induction es arbitrary: en)
  case (Cons ev es)
  then have "en_ahead (en_step ev en)"
    by (cases ev) (auto simp: en_write_ahead en_task_ahead en_drop_ahead en_sweep_ahead)
  then show ?case using Cons by simp
qed simp

section \<open>Properties\<close>

text \<open>
  C5. A node fed by its own writes is an ordinary map with expiry: whatever writes,
  task runs, drops and sweeps came before, running the task at the head of a
  pipeline changes the live state exactly as the operation's specification says,
  and reports it applied exactly when the specification accepts it.
\<close>

theorem engine_refines_map:
  assumes "en_new nd n = Inr en0" and "\<not> list_ex is_merge es" and "en = fold en_step es en0"
    and "pp_tail (fst (en_pipelineFor pid en)) = opn # rest"
    and "en_task pid nowMs (Some t) en = (Some r, en')"
  shows "case kv_write opn nowMs (en_abs nowMs en) of
      None \<Rightarrow> en_abs nowMs en' = en_abs nowMs en \<and> (\<nexists>e. r = Inr (WriteApplied e))
    | Some m \<Rightarrow> en_abs nowMs en' = kv_live nowMs m \<and> (\<exists>e. r = Inr (WriteApplied e))"
proof -
  let ?pl = "fst (en_pipelineFor pid en)"
  let ?en = "en\<lparr>en_pipelines := js_set pid (?pl\<lparr>pp_tail := rest\<rparr>) (en_pipelines en)\<rparr>"
  have ahead: "en_ahead ?en" using en_run_ahead en_new_ahead assms(1-3) by simp
  have run: "en_apply opn pid nowMs (Some t) ?en = (r, en')"
    using assms(4,5) by (auto simp: en_task_def Let_def split: prod.splits)
  from en_apply_refines [OF ahead run] show ?thesis by (auto split: option.splits)
qed

theorem engine_refines_map_witness:
  "\<exists>en0 r en'. en_new (js ''a'') 7 = Inr en0
     \<and> en_task (en_partitionFor (js ''k'') en0) 10 (Some 10) (en_write (IncrementOp (js ''k'') 5) en0) = (Some r, en')
     \<and> en_abs 10 en' (js ''k'') = Some (setBigInt64 5, None)"
proof -
  obtain en0 where en0: "en_new (js ''a'') 7 = Inr en0"
    by (simp add: en_new_def sr_new_def hc_new_def isSafeInteger_def js_def)
  let ?op = "IncrementOp (js ''k'') 5"
  let ?en = "fold en_step [Write ?op] en0" and ?pid = "en_partitionFor (js ''k'') en0"
  have p: "en_pipelines en0 = []" "sr_lookup (en_store en0) = Map.empty"
    using en0 sr_new_inv [of 7] by (auto simp: en_new_def split: sum.splits)
  have tl: "pp_tail (fst (en_pipelineFor ?pid ?en)) = [?op]"
    by (simp add: en_write_def en_pipelineFor_def p pp_run_def pp_new_def)
  then obtain r en' where r: "en_task ?pid 10 (Some 10) ?en = (Some r, en')"
    by (cases "en_task ?pid 10 (Some 10) ?en") (auto simp: en_task_def Let_def case_prod_beta)
  have "en_abs 10 ?en = Map.empty"
    by (simp add: en_abs_def sr_abs_def fun_eq_iff en_write_def en_pipelineFor_def p)
  then have "en_abs 10 en' = kv_live 10 [js ''k'' \<mapsto> (setBigInt64 5, None)]"
    using engine_refines_map [OF en0 _ refl tl r] by (simp add: asIntN64_def)
  then have "en_abs 10 en' (js ''k'') = Some (setBigInt64 5, None)" by (simp add: kv_live_def)
  then show ?thesis using en0 r by auto
qed

text \<open>
  The engine keeps its clock apart from what it merges: \<open>merge\<close> stores a replicated
  entry without showing its timestamp to the clock, and \<open>commit\<close> reports its entry
  applied whatever the store answers.  So a write on a node whose physical clock is
  behind the one that stamped the stored entry is reported applied and is lost.
\<close>

definition lagging_put :: "Entry \<Rightarrow> Engine \<Rightarrow> (EngineError + WriteResult) option \<times> Engine" where
  "lagging_put old en =
     en_task (en_partitionFor (e_key old) en) 50 (Some 50)
       (en_write (PutOp (e_key old) [2] NoCondition None) (en_merge old en))"

lemma lagging_put_lost:
  assumes "en_new (js ''a'') n = Inr en0"
    and "old = \<lparr>e_key = k, e_value = Some [1], e_timestamp = HybridTime 100 0 (js ''b''), e_sequence = 1,
                e_expiresAt = None, e_deleted = False\<rparr>"
  shows "\<exists>e en'. lagging_put old en0 = (Some (Inr (WriteApplied e)), en') \<and> e_value e = Some [2]
    \<and> en_read k 50 en' = Some old"
proof -
  let ?s = "snd (sr_apply old (en_store en0))"
  have p: "en_pipelines en0 = []" "sr_lookup (en_store en0) = Map.empty" "sr_inv (en_store en0)"
    and c: "en_clock en0 = \<lparr>hc_node = js ''a'', hc_wallMs = 0, hc_logical = 0\<rparr>"
    using assms(1) sr_new_inv [of n] by (auto simp: en_new_def hc_new_def split: sum.splits if_splits)
  have s: "sr_inv ?s" "sr_lookup ?s = [k \<mapsto> old]"
    using p(2,3) by (simp_all add: sr_apply_inv sr_apply_lww lww_put_def assms(2))
  let ?e = "\<lparr>e_key = k, e_value = Some [2], e_timestamp = HybridTime 50 0 (js ''a''), e_sequence = 1,
              e_expiresAt = None, e_deleted = False\<rparr>"
  have lost: "sr_lookup (snd (sr_apply ?e ?s)) = [k \<mapsto> old]"
    using s by (simp add: sr_apply_lww lww_put_def assms(2) less_HybridTime_iff)
  have key: "e_key old = k" by (simp add: assms(2))
  have "sr_partitionCount ?s = sr_partitionCount (en_store en0)" by (simp add: sr_apply_set Let_def)
  then have pid: "sr_partitionFor k ?s = sr_partitionFor k (en_store en0)" by (simp add: sr_partitionFor_def)
  have now: "hc_now (Some 50) (en_clock en0) = (Inr (HybridTime 50 0 (js ''a'')), \<lparr>hc_node = js ''a'', hc_wallMs = 50, hc_logical = 0\<rparr>)"
    by (simp add: c hc_now_def hc_readPhysical_def hc_stamp_def)
  obtain en' where run: "lagging_put old en0 = (Some (Inr (WriteApplied ?e)), en')"
    "en_store en' = snd (sr_apply ?e ?s)"
    by (simp add: lagging_put_def key en_task_def en_write_def en_merge_def en_partitionFor_def en_pipelineFor_def p pp_new_def
        pp_run_def en_apply_def en_applyPut_def en_commit_def now pid pp_nextSequence_def Let_def)
  have "sr_peek k (en_store en') = Some old" using lost by (simp add: run(2) sr_lookup_def fun_eq_iff)
  moreover have "isLiveValue old 50" by (simp add: assms(2) isLiveValue_def isExpired_def)
  ultimately have "en_read k 50 en' = Some old"
    by (auto simp: en_read_def sr_get_def sr_peek_def pt_get_def pt_peek_def split: option.splits)
  then show ?thesis using run(1) by auto
qed

text \<open>
  C38. An applied write can be lost: on a node that merged an entry stamped by a
  faster clock, a later put is reported applied, and a read right after it still
  returns the merged entry.
\<close>

theorem lagging_clock_loses_applied_write:
  "\<exists>en0 old e en'. en_new (js ''a'') 7 = Inr en0 \<and> lagging_put old en0 = (Some (Inr (WriteApplied e)), en')
     \<and> e_value e = Some [2] \<and> e_value old = Some [1] \<and> en_read (e_key old) 50 en' = Some old"
proof -
  obtain en0 where "en_new (js ''a'') 7 = Inr en0"
    by (simp add: en_new_def sr_new_def hc_new_def isSafeInteger_def js_def)
  then show ?thesis
    using lagging_put_lost [OF _ refl, of 7 en0 "js ''k''"] by fastforce
qed

end
