(* ===== verification/Fragment.thy ===== *)
theory Fragment
  imports Engine
begin

text \<open>
  Paged fragment transfer, \<open>src/kv/fragment.ts\<close>: a partition's entries move in
  byte-bounded pages in key order, pushed chunk by chunk against acknowledgments or
  pulled page by page behind a key cursor.  One chunk request is one step of the
  model: what the carrier does with it is an argument, and so is what the peer's
  own traffic does to its store between two of them.  Loops that a misbehaving peer
  could keep going are partial functions, whose result is \<^term>\<open>None\<close> when they do
  not return.

  The theory shows that a page is a budgeted slice of what follows the cursor, that
  a push and a pull between honest nodes return, that a confirmed push leaves every
  entry of the fragment, or something newer, at the receiver, and that a pull sees
  every key that was there throughout, whatever comes and goes meanwhile.
\<close>

section \<open>Pages\<close>

definition ENTRY_OVERHEAD_BYTES :: nat where "ENTRY_OVERHEAD_BYTES = 64"

definition MAX_UTF8_BYTES_PER_UNIT :: nat where "MAX_UTF8_BYTES_PER_UNIT = 3"

definition FRAGMENT_CHUNK_BYTES :: nat where "FRAGMENT_CHUNK_BYTES = 262144"

record FragmentChunk =
  fc_partitionId :: nat
  fc_final :: bool
  fc_entries :: "Entry list"

definition approximateEntrySize :: "Entry \<Rightarrow> nat" where
  "approximateEntrySize entry =
     (let valueBytes = (case e_value entry of None \<Rightarrow> 0 | Some v \<Rightarrow> length v);
          keyBytes = length (e_key entry) * MAX_UTF8_BYTES_PER_UNIT;
          nodeBytes = length (node (e_timestamp entry)) * MAX_UTF8_BYTES_PER_UNIT
      in ENTRY_OVERHEAD_BYTES + valueBytes + keyBytes + nodeBytes)"

definition compareByKey :: "Entry \<Rightarrow> Entry \<Rightarrow> int" where
  "compareByKey left right = (if e_key left < e_key right then -1 else 1)"

definition firstKeyAfter :: "Entry list \<Rightarrow> jsstr \<Rightarrow> nat" where
  "firstKeyAfter srt afterKey = bsearch (\<lambda>mid. e_key (srt ! mid) \<le> afterKey) 0 (length srt)"

fun fillPage :: "Entry list \<Rightarrow> nat \<Rightarrow> Entry list \<Rightarrow> Entry list \<times> Entry list" where
  "fillPage entries bytes [] = (entries, [])"
| "fillPage entries bytes (entry # rest) =
     (let size' = approximateEntrySize entry in
      if length entries > 0 \<and> bytes + size' > FRAGMENT_CHUNK_BYTES then (entries, entry # rest)
      else fillPage (entries @ [entry]) (bytes + size') rest)"

definition pageAfter :: "Entry list \<Rightarrow> nat \<Rightarrow> jsstr option \<Rightarrow> FragmentChunk" where
  "pageAfter srt pid afterKey =
     (let index = (case afterKey of None \<Rightarrow> 0 | Some k \<Rightarrow> firstKeyAfter srt k);
          (entries, rest) = fillPage [] 0 (drop index srt)
      in \<lparr>fc_partitionId = pid, fc_final = (rest = []), fc_entries = entries\<rparr>)"

definition lastKeyOf :: "FragmentChunk \<Rightarrow> jsstr option" where
  "lastKeyOf chunk = (if length (fc_entries chunk) = 0 then None else Some (e_key (last (fc_entries chunk))))"

section \<open>Transfers\<close>

definition ft_sortedFragment :: "nat \<Rightarrow> Engine \<Rightarrow> Entry list" where
  "ft_sortedFragment pid en = js_sort compareByKey (en_snapshot pid en)"

definition ft_servePage :: "nat \<Rightarrow> jsstr option \<Rightarrow> Engine \<Rightarrow> FragmentChunk" where
  "ft_servePage pid afterKey en = pageAfter (ft_sortedFragment pid en) pid afterKey"

definition ft_applyChunk :: "FragmentChunk \<Rightarrow> Engine \<Rightarrow> Engine" where
  "ft_applyChunk chunk en = fold en_merge (fc_entries chunk) en"

text \<open>
  One chunk RPC: acknowledged, applied with the acknowledgment lost or refused, or
  never delivered.
\<close>

datatype delivery = Acked | AckLost | Lost

fun ft_sendChunk :: "delivery \<Rightarrow> FragmentChunk \<Rightarrow> Engine \<Rightarrow> bool \<times> Engine" where
  "ft_sendChunk Acked chunk peer = (True, ft_applyChunk chunk peer)"
| "ft_sendChunk AckLost chunk peer = (False, ft_applyChunk chunk peer)"
| "ft_sendChunk Lost chunk peer = (False, peer)"

text \<open>
  \<open>net n\<close> is the fate of the \<open>n\<close>-th chunk and \<open>meanwhile n\<close> what the peer's other
  traffic does to it before that chunk arrives.
\<close>

partial_function (option) ft_pushChunks ::
  "(nat \<Rightarrow> delivery) \<Rightarrow> (nat \<Rightarrow> Engine \<Rightarrow> Engine) \<Rightarrow> nat \<Rightarrow> Entry list \<Rightarrow> nat \<Rightarrow> jsstr option \<Rightarrow> Engine
     \<Rightarrow> (bool \<times> Engine) option" where
  "ft_pushChunks net meanwhile pid srt n afterKey peer =
     (let chunk = pageAfter srt pid afterKey;
          sent = ft_sendChunk (net n) chunk (meanwhile n peer) in
      if \<not> fst sent then Some (False, snd sent)
      else if fc_final chunk then Some (True, snd sent)
      else ft_pushChunks net meanwhile pid srt (n + 1) (lastKeyOf chunk) (snd sent))"

definition ft_push ::
  "(nat \<Rightarrow> delivery) \<Rightarrow> (nat \<Rightarrow> Engine \<Rightarrow> Engine) \<Rightarrow> nat \<Rightarrow> Engine \<Rightarrow> Engine \<Rightarrow> (bool \<times> Engine) option" where
  "ft_push net meanwhile pid en peer =
     ft_pushChunks net meanwhile pid (ft_sortedFragment pid en) 0 None peer"

definition ft_pushEntries ::
  "(nat \<Rightarrow> delivery) \<Rightarrow> (nat \<Rightarrow> Engine \<Rightarrow> Engine) \<Rightarrow> nat \<Rightarrow> Entry list \<Rightarrow> Engine \<Rightarrow> (bool \<times> Engine) option" where
  "ft_pushEntries net meanwhile pid entries peer =
     ft_pushChunks net meanwhile pid (js_sort compareByKey entries) 0 None peer"

text \<open>\<open>reply n k\<close> is what the \<open>n\<close>-th page request with cursor \<open>k\<close> gets, if anything.\<close>

partial_function (option) ft_pages ::
  "(nat \<Rightarrow> jsstr option \<Rightarrow> FragmentChunk option) \<Rightarrow> (FragmentChunk \<Rightarrow> 'w \<Rightarrow> 'w) \<Rightarrow> nat \<Rightarrow> jsstr option \<Rightarrow> 'w \<Rightarrow> 'w option" where
  "ft_pages reply onChunk n afterKey w =
     (case reply n afterKey of
        None \<Rightarrow> Some w
      | Some chunk \<Rightarrow>
          let w' = onChunk chunk w in
          if fc_final chunk then Some w'
          else
            (case lastKeyOf chunk of
               None \<Rightarrow> Some w'
             | Some nextKey \<Rightarrow>
                 if (case afterKey of None \<Rightarrow> False | Some k \<Rightarrow> nextKey \<le> k) then Some w'
                 else ft_pages reply onChunk (n + 1) (Some nextKey) w'))"

definition ft_pull :: "(nat \<Rightarrow> jsstr option \<Rightarrow> FragmentChunk option) \<Rightarrow> Engine \<Rightarrow> Engine option" where
  "ft_pull reply en = ft_pages reply ft_applyChunk 0 None en"

definition ft_collect :: "(nat \<Rightarrow> jsstr option \<Rightarrow> FragmentChunk option) \<Rightarrow> Entry list option" where
  "ft_collect reply = ft_pages reply (\<lambda>chunk entries. entries @ fc_entries chunk) 0 None []"

section \<open>Slices of a sorted fragment\<close>

definition keyed :: "Entry list \<Rightarrow> bool" where
  "keyed srt \<longleftrightarrow> sorted_wrt (\<lambda>a b. e_key a < e_key b) srt"

definition beyond :: "jsstr option \<Rightarrow> Entry \<Rightarrow> bool" where
  "beyond afterKey e \<longleftrightarrow> (case afterKey of None \<Rightarrow> True | Some k \<Rightarrow> k < e_key e)"

lemma keyed_split: "keyed (xs @ ys) \<longleftrightarrow> keyed xs \<and> keyed ys \<and> (\<forall>x \<in> set xs. \<forall>y \<in> set ys. e_key x < e_key y)"
  by (simp add: keyed_def sorted_wrt_append)

lemma takeWhile_keyed:
  "keyed srt \<Longrightarrow> drop (length (takeWhile (\<lambda>e. e_key e \<le> k) srt)) srt = filter (\<lambda>e. k < e_key e) srt"
proof (induction srt)
  case (Cons e srt)
  have later: "\<forall>d \<in> set srt. e_key e < e_key d" and k: "keyed srt" using Cons.prems by (auto simp: keyed_def)
  show ?case
  proof (cases "e_key e \<le> k")
    case True
    then show ?thesis using Cons.IH [OF k] by simp
  next
    case False
    then have "filter (\<lambda>e. k < e_key e) srt = srt" using later by (intro filter_True) (auto intro: less_trans)
    then show ?thesis using False by simp
  qed
qed simp

lemma firstKeyAfter_drop: "keyed srt \<Longrightarrow> drop (firstKeyAfter srt k) srt = filter (\<lambda>e. k < e_key e) srt"
proof -
  assume srt: "keyed srt"
  have "firstKeyAfter srt k = length (takeWhile (\<lambda>e. e_key e \<le> k) srt)"
    unfolding firstKeyAfter_def
  proof (rule bsearch_takeWhile [where P = "\<lambda>e. e_key e \<le> k"])
    fix i j assume ij: "i \<le> j" "j < length srt" "e_key (srt ! j) \<le> k"
    have "e_key (srt ! i) < e_key (srt ! j)" if "i < j"
      using srt ij(2) that by (auto simp: keyed_def sorted_wrt_iff_nth_less)
    then show "e_key (srt ! i) \<le> k" using ij by (cases "i = j") auto
  qed
  then show ?thesis using takeWhile_keyed [OF srt] by simp
qed

definition page_size :: "Entry list \<Rightarrow> nat" where
  "page_size es = sum_list (map approximateEntrySize es)"

lemma fillPage_split:
  assumes "fillPage entries bytes xs = (es, rest)"
  shows "\<exists>page. es = entries @ page \<and> xs = page @ rest \<and> (entries = [] \<and> xs \<noteq> [] \<longrightarrow> page \<noteq> [])
    \<and> (bytes = page_size entries \<and> (length entries \<le> 1 \<or> bytes \<le> FRAGMENT_CHUNK_BYTES) \<longrightarrow>
         length es \<le> 1 \<or> page_size es \<le> FRAGMENT_CHUNK_BYTES)"
  using assms
proof (induction entries bytes xs rule: fillPage.induct)
  case (2 entries bytes entry xs)
  show ?case
  proof (cases "length entries > 0 \<and> bytes + approximateEntrySize entry > FRAGMENT_CHUNK_BYTES")
    case True
    then show ?thesis using "2.prems" by (auto simp: Let_def page_size_def)
  next
    case False
    then have run: "fillPage (entries @ [entry]) (bytes + approximateEntrySize entry) xs = (es, rest)"
      using "2.prems" unfolding fillPage.simps Let_def by (simp only: if_False)
    obtain page where page: "es = (entries @ [entry]) @ page" "xs = page @ rest"
      "bytes + approximateEntrySize entry = page_size (entries @ [entry]) \<and>
        (length (entries @ [entry]) \<le> 1 \<or> bytes + approximateEntrySize entry \<le> FRAGMENT_CHUNK_BYTES) \<longrightarrow>
         length es \<le> 1 \<or> page_size es \<le> FRAGMENT_CHUNK_BYTES"
      using "2.IH" [OF refl False run] by blast
    then show ?thesis using False by (intro exI [of _ "entry # page"]) (auto simp: page_size_def not_less)
  qed
qed (auto simp: page_size_def)

lemma page_slice:
  assumes "keyed srt"
  shows "\<exists>rest. filter (beyond afterKey) srt = fc_entries (pageAfter srt p afterKey) @ rest
    \<and> (fc_final (pageAfter srt p afterKey) \<longleftrightarrow> rest = [])
    \<and> (filter (beyond afterKey) srt \<noteq> [] \<longrightarrow> fc_entries (pageAfter srt p afterKey) \<noteq> [])
    \<and> (length (fc_entries (pageAfter srt p afterKey)) \<le> 1
       \<or> page_size (fc_entries (pageAfter srt p afterKey)) \<le> FRAGMENT_CHUNK_BYTES)"
proof -
  let ?i = "case afterKey of None \<Rightarrow> 0 | Some k \<Rightarrow> firstKeyAfter srt k"
  have cut: "drop ?i srt = filter (beyond afterKey) srt"
    using firstKeyAfter_drop [OF assms] by (cases afterKey) (simp_all add: beyond_def [abs_def])
  obtain es rest where fill: "fillPage [] 0 (filter (beyond afterKey) srt) = (es, rest)" by fastforce
  have page: "fc_entries (pageAfter srt p afterKey) = es" "fc_final (pageAfter srt p afterKey) \<longleftrightarrow> rest = []"
    unfolding pageAfter_def Let_def cut fill by simp_all
  have "filter (beyond afterKey) srt = es @ rest" "filter (beyond afterKey) srt \<noteq> [] \<longrightarrow> es \<noteq> []"
    "length es \<le> 1 \<or> page_size es \<le> FRAGMENT_CHUNK_BYTES"
    using fillPage_split [OF fill] unfolding page_size_def append_Nil list.size list.map sum_list.Nil by blast+
  then show ?thesis unfolding page by blast
qed

text \<open>After a page that is not the last, the cursor leaves exactly what the page did not take.\<close>

lemma page_next:
  assumes "keyed srt" "\<not> fc_final (pageAfter srt p afterKey)"
  shows "\<exists>k. lastKeyOf (pageAfter srt p afterKey) = Some k
    \<and> filter (beyond afterKey) srt = fc_entries (pageAfter srt p afterKey) @ filter (beyond (Some k)) srt
    \<and> fc_entries (pageAfter srt p afterKey) \<noteq> [] \<and> (case afterKey of None \<Rightarrow> True | Some a \<Rightarrow> a < k)"
proof -
  let ?es = "fc_entries (pageAfter srt p afterKey)"
  obtain rest where r: "filter (beyond afterKey) srt = ?es @ rest" "rest \<noteq> []" "?es \<noteq> []"
    using page_slice [OF assms(1), of afterKey p] assms(2) by auto
  let ?k = "e_key (last ?es)"
  have lk: "last ?es \<in> set ?es" using r(3) by simp
  have kd: "keyed (?es @ rest)" using assms(1) r(1) by (metis keyed_def sorted_wrt_filter)
  have beyond_last: "beyond afterKey (last ?es)" 
  proof -
    have "last ?es \<in> set (filter (beyond afterKey) srt)" unfolding r(1) using lk by simp
    then show ?thesis by simp
  qed
  have "beyond afterKey e \<and> beyond (Some ?k) e \<longleftrightarrow> beyond (Some ?k) e" for e
    using beyond_last by (auto simp: beyond_def split: option.splits)
  then have "filter (beyond (Some ?k)) srt = filter (beyond (Some ?k)) (filter (beyond afterKey) srt)"
    by (simp add: filter_filter)
  also have "\<dots> = filter (beyond (Some ?k)) ?es @ filter (beyond (Some ?k)) rest" by (simp add: r(1))
  also have "filter (beyond (Some ?k)) rest = rest"
    using kd lk by (intro filter_True) (auto simp: keyed_split beyond_def)
  also have "filter (beyond (Some ?k)) ?es = []"
  proof -
    have "e_key e \<le> ?k" if "e \<in> set ?es" for e
    proof -
      have "keyed (butlast ?es @ [last ?es])" using kd r(3) by (simp add: keyed_split)
      then have "\<forall>x \<in> set (butlast ?es). e_key x < ?k" by (simp add: keyed_split)
      moreover have "e \<in> set (butlast ?es) \<or> e = last ?es"
        using that arg_cong [OF append_butlast_last_id [OF r(3)], of set] by auto
      ultimately show ?thesis by auto
    qed
    then show ?thesis by (auto simp: beyond_def filter_empty_conv not_less)
  qed
  finally have "filter (beyond (Some ?k)) srt = rest" by simp
  moreover have "case afterKey of None \<Rightarrow> True | Some a \<Rightarrow> a < ?k"
    using beyond_last by (simp add: beyond_def split: option.splits)
  ultimately show ?thesis using r by (intro exI [of _ ?k]) (simp add: lastKeyOf_def)
qed

section \<open>Stores that only gain\<close>

abbreviation en_lookup :: "Engine \<Rightarrow> jsstr \<Rightarrow> Entry option" where
  "en_lookup en \<equiv> sr_lookup (en_store en)"

definition holds :: "Entry \<Rightarrow> (jsstr \<Rightarrow> Entry option) \<Rightarrow> bool" where
  "holds e m \<longleftrightarrow> (\<exists>d. m (e_key e) = Some d \<and> e_timestamp e \<le> e_timestamp d)"

definition gains :: "Engine \<Rightarrow> Engine \<Rightarrow> bool" where
  "gains en en' \<longleftrightarrow> sr_inv (en_store en') \<and>
     (\<forall>k e. en_lookup en k = Some e \<longrightarrow> (\<exists>d. en_lookup en' k = Some d \<and> e_timestamp e \<le> e_timestamp d))"

lemma gains_refl: "sr_inv (en_store en) \<Longrightarrow> gains en en"
  by (auto simp: gains_def)

lemma gains_trans: "gains en en' \<Longrightarrow> gains en' en'' \<Longrightarrow> gains en en''"
  unfolding gains_def by (meson order_trans)

lemma gains_holds: "gains en en' \<Longrightarrow> holds e (en_lookup en) \<Longrightarrow> holds e (en_lookup en')"
  unfolding gains_def holds_def by (meson order_trans)

lemma merge_gains:
  assumes "sr_inv (en_store en)"
  shows "gains en (en_merge e en)" and "holds e (en_lookup (en_merge e en))"
  using assms by (auto simp: gains_def holds_def en_merge_def sr_apply_inv sr_apply_lww lww_put_def split: option.splits)

lemma merges_gain:
  "sr_inv (en_store en) \<Longrightarrow> gains en (fold en_merge es en) \<and> (\<forall>e \<in> set es. holds e (en_lookup (fold en_merge es en)))"
proof (induction es arbitrary: en)
  case (Cons e es)
  let ?en = "en_merge e en"
  have m: "gains en ?en" "holds e (en_lookup ?en)" using merge_gains [OF Cons.prems] by auto
  then have IH: "gains ?en (fold en_merge es ?en)" "\<forall>d \<in> set es. holds d (en_lookup (fold en_merge es ?en))"
    using Cons.IH [of ?en] by (auto simp: gains_def)
  show ?case using gains_trans [OF m(1) IH(1)] gains_holds [OF IH(1) m(2)] IH(2) by simp
qed (simp add: gains_refl)

lemma applyChunk_gains:
  "sr_inv (en_store en) \<Longrightarrow> gains en (ft_applyChunk c en) \<and> (\<forall>e \<in> set (fc_entries c). holds e (en_lookup (ft_applyChunk c en)))"
  unfolding ft_applyChunk_def by (rule merges_gain)

lemma applyChunks_gain:
  "sr_inv (en_store en) \<Longrightarrow> gains en (fold ft_applyChunk cs en)
     \<and> (\<forall>c \<in> set cs. \<forall>e \<in> set (fc_entries c). holds e (en_lookup (fold ft_applyChunk cs en)))"
proof (induction cs arbitrary: en)
  case (Cons c cs)
  let ?en = "ft_applyChunk c en"
  have m: "gains en ?en" "\<forall>e \<in> set (fc_entries c). holds e (en_lookup ?en)" using applyChunk_gains [OF Cons.prems] by auto
  then have IH: "gains ?en (fold ft_applyChunk cs ?en)"
    "\<forall>d \<in> set cs. \<forall>e \<in> set (fc_entries d). holds e (en_lookup (fold ft_applyChunk cs ?en))"
    using Cons.IH [of ?en] by (auto simp: gains_def)
  have "\<forall>e \<in> set (fc_entries c). holds e (en_lookup (fold ft_applyChunk cs ?en))"
    using m(2) gains_holds [OF IH(1)] by blast
  then show ?case using gains_trans [OF m(1) IH(1)] IH(2) by simp
qed (simp add: gains_refl)

section \<open>The sorted fragment\<close>

lemma snapshot_distinct:
  assumes "sr_inv (en_store en)"
  shows "distinct (map e_key (en_snapshot pid en))"
proof (cases "js_get (sr_partitions (en_store en)) pid")
  case (Some p)
  then have "pt_keyed (pt_entries p)" using sr_inv_get [OF assms Some] by (simp add: pt_inv_def)
  then have "map e_key (js_values (pt_entries p)) = js_keys (pt_entries p)" "distinct (js_keys (pt_entries p))"
    using pt_values_keys by (blast, simp add: pt_keyed_def js_ok_def)
  then show ?thesis using Some by (simp add: en_snapshot_def sr_snapshot_def del: map_map)
qed (simp add: en_snapshot_def sr_snapshot_def)

lemma lookup_in_snapshot: "en_lookup en k = Some e \<Longrightarrow> e \<in> set (en_snapshot (en_partitionFor k en) en)"
  by (auto simp: sr_lookup_def sr_peek_def pt_peek_def en_snapshot_def sr_snapshot_def en_partitionFor_def
      dest: js_get_in_values split: option.splits)

lemma compareByKey_sign: "compareByKey x y \<le> 0 \<longleftrightarrow> e_key x < e_key y"
  by (simp add: compareByKey_def)

lemma sort_keyed: "distinct (map e_key es) \<Longrightarrow> keyed (js_sort compareByKey es)"
proof -
  assume d: "distinct (map e_key es)"
  have "js_sort compareByKey es = sort_key e_key es"
    by (rule js_sort_distinct_key [OF compareByKey_sign d])
  moreover have "sorted_wrt (<) (map e_key (sort_key e_key es))"
    using d by (simp add: strict_sorted_iff distinct_map)
  ultimately show ?thesis by (simp add: keyed_def sorted_wrt_map)
qed

lemma sort_set: "distinct (map e_key es) \<Longrightarrow> set (js_sort compareByKey es) = set es"
  by (simp add: js_sort_distinct_key [OF compareByKey_sign])

section \<open>Push\<close>

lemma pushChunks_result:
  assumes "keyed srt" and "\<forall>n en. sr_inv (en_store en) \<longrightarrow> gains en (meanwhile n en)"
  shows "sr_inv (en_store peer) \<Longrightarrow> \<exists>ok peer'. ft_pushChunks net meanwhile pid srt n afterKey peer = Some (ok, peer')
    \<and> gains peer peer' \<and> (ok \<longrightarrow> (\<forall>e \<in> set srt. beyond afterKey e \<longrightarrow> holds e (en_lookup peer')))
    \<and> ((\<forall>n. net n = Acked) \<longrightarrow> ok)"
proof (induction "length (filter (beyond afterKey) srt)" arbitrary: n afterKey peer rule: less_induct)
  case less
  let ?c = "pageAfter srt pid afterKey" and ?p = "meanwhile n peer"
  have p: "gains peer ?p" "sr_inv (en_store ?p)" using assms(2) less.prems by (auto simp: gains_def)
  have a: "gains ?p (ft_applyChunk ?c ?p)" "\<forall>e \<in> set (fc_entries ?c). holds e (en_lookup (ft_applyChunk ?c ?p))"
    using applyChunk_gains [OF p(2)] by auto
  have unfold: "ft_pushChunks net meanwhile pid srt n afterKey peer =
     (let sent = ft_sendChunk (net n) ?c ?p in
      if \<not> fst sent then Some (False, snd sent) else if fc_final ?c then Some (True, snd sent)
      else ft_pushChunks net meanwhile pid srt (n + 1) (lastKeyOf ?c) (snd sent))"
    by (subst ft_pushChunks.simps) (simp add: Let_def)
  show ?case
  proof (cases "net n")
    case Acked
    show ?thesis
    proof (cases "fc_final ?c")
      case True
      then have "filter (beyond afterKey) srt = fc_entries ?c" using page_slice [OF assms(1), of afterKey pid] by auto
      then have "e \<in> set (fc_entries ?c)" if "e \<in> set srt" "beyond afterKey e" for e
        using that arg_cong [of _ _ set] by (metis (mono_tags, lifting) mem_Collect_eq set_filter)
      then have "\<forall>e \<in> set srt. beyond afterKey e \<longrightarrow> holds e (en_lookup (ft_applyChunk ?c ?p))" using a(2) by blast
      moreover have "ft_pushChunks net meanwhile pid srt n afterKey peer = Some (True, ft_applyChunk ?c ?p)"
        unfolding unfold using Acked True by simp
      ultimately show ?thesis using gains_trans [OF p(1) a(1)] by blast
    next
      case False
      obtain k where k: "lastKeyOf ?c = Some k"
        "filter (beyond afterKey) srt = fc_entries ?c @ filter (beyond (Some k)) srt" "fc_entries ?c \<noteq> []"
        using page_next [OF assms(1) False] by auto
      have inv: "sr_inv (en_store (ft_applyChunk ?c ?p))" using a(1) by (simp add: gains_def)
      obtain ok peer' where r: "ft_pushChunks net meanwhile pid srt (n + 1) (Some k) (ft_applyChunk ?c ?p) = Some (ok, peer')"
        "gains (ft_applyChunk ?c ?p) peer'" "ok \<longrightarrow> (\<forall>e \<in> set srt. beyond (Some k) e \<longrightarrow> holds e (en_lookup peer'))"
        "(\<forall>n. net n = Acked) \<longrightarrow> ok"
        using less.hyps [of "Some k" "ft_applyChunk ?c ?p" "n + 1"] k(2,3) inv by auto
      have "e \<in> set (fc_entries ?c) \<or> beyond (Some k) e" if "e \<in> set srt" "beyond afterKey e" for e
        using that arg_cong [OF k(2), of set] by auto
      then have "ok \<longrightarrow> (\<forall>e \<in> set srt. beyond afterKey e \<longrightarrow> holds e (en_lookup peer'))"
        using r(3) a(2) gains_holds [OF r(2)] by blast
      moreover have "ft_pushChunks net meanwhile pid srt n afterKey peer = Some (ok, peer')"
        unfolding unfold using Acked False r(1) k(1) by simp
      ultimately show ?thesis using gains_trans [OF gains_trans [OF p(1) a(1)] r(2)] r(4) by blast
    qed
  next
    case AckLost
    then have "ft_pushChunks net meanwhile pid srt n afterKey peer = Some (False, ft_applyChunk ?c ?p)"
      unfolding unfold by simp
    moreover have "\<not> (\<forall>n. net n = Acked)" using AckLost by (metis delivery.distinct(1))
    ultimately show ?thesis using gains_trans [OF p(1) a(1)] by blast
  next
    case Lost
    then have "ft_pushChunks net meanwhile pid srt n afterKey peer = Some (False, ?p)"
      unfolding unfold by simp
    moreover have "\<not> (\<forall>n. net n = Acked)" using Lost by (metis delivery.distinct(3))
    ultimately show ?thesis using p(1) by blast
  qed
qed

text \<open>With a carrier that delivers and a peer left alone, a push merges the whole list.\<close>

lemma pushChunks_acked:
  assumes "keyed srt"
  shows "ft_pushChunks (\<lambda>_. Acked) (\<lambda>_ p. p) pid srt n afterKey peer = Some (True, fold en_merge (filter (beyond afterKey) srt) peer)"
proof (induction "length (filter (beyond afterKey) srt)" arbitrary: n afterKey peer rule: less_induct)
  case less
  let ?c = "pageAfter srt pid afterKey"
  have unfold: "ft_pushChunks (\<lambda>_. Acked) (\<lambda>_ p. p) pid srt n afterKey peer =
     (if fc_final ?c then Some (True, ft_applyChunk ?c peer)
      else ft_pushChunks (\<lambda>_. Acked) (\<lambda>_ p. p) pid srt (n + 1) (lastKeyOf ?c) (ft_applyChunk ?c peer))"
    by (subst ft_pushChunks.simps) (simp add: Let_def)
  show ?case
  proof (cases "fc_final ?c")
    case True
    then have "filter (beyond afterKey) srt = fc_entries ?c" using page_slice [OF assms, of afterKey pid] by auto
    then show ?thesis unfolding unfold using True by (simp add: ft_applyChunk_def)
  next
    case False
    obtain k where k: "lastKeyOf ?c = Some k"
      "filter (beyond afterKey) srt = fc_entries ?c @ filter (beyond (Some k)) srt" "fc_entries ?c \<noteq> []"
      using page_next [OF assms False] by blast
    have "length (filter (beyond (Some k)) srt) < length (filter (beyond afterKey) srt)" unfolding k(2) using k(3) by simp
    from less.hyps [OF this, of "n + 1" "ft_applyChunk ?c peer"]
    show ?thesis unfolding unfold k(2) using False k(1) by (simp add: ft_applyChunk_def)
  qed
qed

lemma pushEntries_acked:
  assumes "distinct (map e_key es)"
  shows "ft_pushEntries (\<lambda>_. Acked) (\<lambda>_ p. p) pid es peer = Some (True, fold en_merge (js_sort compareByKey es) peer)"
  unfolding ft_pushEntries_def pushChunks_acked [OF sort_keyed [OF assms]]
  by (simp add: beyond_def)

lemma merges_lookup: "sr_inv (en_store en) \<Longrightarrow> en_lookup (fold en_merge es en) = fold lww_put es (en_lookup en)"
  by (induction es arbitrary: en) (simp_all add: en_merge_def sr_apply_inv sr_apply_lww)

lemma lww_fold_other: "k \<notin> e_key ` set es \<Longrightarrow> fold lww_put es m k = m k"
  by (induction es arbitrary: m) (auto simp: lww_put_def split: option.splits)

lemma lww_put_at: "m (e_key e) = m' (e_key e) \<Longrightarrow> lww_put e m (e_key e) = lww_put e m' (e_key e)"
  by (simp add: lww_put_def split: option.splits)

lemma lww_fold_at:
  "distinct (map e_key es) \<Longrightarrow> e \<in> set es \<Longrightarrow> fold lww_put es m (e_key e) = lww_put e m (e_key e)"
proof (induction es arbitrary: m)
  case (Cons d es)
  show ?case
  proof (cases "e = d")
    case True
    then have "e_key e \<notin> e_key ` set es" using Cons.prems(1) by auto
    then show ?thesis using True lww_fold_other by simp
  next
    case False
    then have es: "e \<in> set es" using Cons.prems(2) by simp
    then have "e_key e \<in> set (map e_key es)" by simp
    then have "e_key e \<noteq> e_key d" using Cons.prems(1) by auto
    then have "lww_put d m (e_key e) = m (e_key e)" by (auto simp: lww_put_def split: option.splits)
    then show ?thesis using Cons.IH [of "lww_put d m"] Cons.prems(1) es lww_put_at [of "lww_put d m" e m] by simp
  qed
qed simp

section \<open>Pull\<close>

lemma pages_unchanging:
  assumes "keyed srt" and "\<And>n a. reply n a = Some (pageAfter srt pid a)"
  shows "\<exists>cs. ft_pages reply onChunk n afterKey w = Some (fold onChunk cs w)
    \<and> concat (map fc_entries cs) = filter (beyond afterKey) srt"
proof (induction "length (filter (beyond afterKey) srt)" arbitrary: n afterKey w rule: less_induct)
  case less
  let ?c = "pageAfter srt pid afterKey"
  show ?case
  proof (cases "fc_final ?c")
    case True
    then have "filter (beyond afterKey) srt = fc_entries ?c" using page_slice [OF assms(1), of afterKey pid] by auto
    moreover have "ft_pages reply onChunk n afterKey w = Some (fold onChunk [?c] w)"
      using True by (subst ft_pages.simps) (simp add: assms(2) Let_def)
    ultimately show ?thesis by (intro exI [of _ "[?c]"]) simp
  next
    case False
    obtain k where k: "lastKeyOf ?c = Some k"
      "filter (beyond afterKey) srt = fc_entries ?c @ filter (beyond (Some k)) srt" "fc_entries ?c \<noteq> []"
      "case afterKey of None \<Rightarrow> True | Some a \<Rightarrow> a < k"
      using page_next [OF assms(1) False] by blast
    have "\<not> (case afterKey of None \<Rightarrow> False | Some a \<Rightarrow> k \<le> a)" using k(4) by (simp add: not_le split: option.splits)
    then have step: "ft_pages reply onChunk n afterKey w = ft_pages reply onChunk (n + 1) (Some k) (onChunk ?c w)"
      using False k(1) by (subst ft_pages.simps) (simp add: assms(2))
    have "length (filter (beyond (Some k)) srt) < length (filter (beyond afterKey) srt)"
      unfolding k(2) using k(3) by simp
    from less.hyps [OF this, of "n + 1" "onChunk ?c w"]
    obtain cs where cs: "ft_pages reply onChunk (n + 1) (Some k) (onChunk ?c w) = Some (fold onChunk cs (onChunk ?c w))"
      "concat (map fc_entries cs) = filter (beyond (Some k)) srt"
      by blast
    show ?thesis using step cs k(2) by (intro exI [of _ "?c # cs"]) simp
  qed
qed

text \<open>A peer whose fragment changes between requests; \<open>srt n\<close> is what it has at the \<open>n\<close>-th.\<close>

definition lasting :: "(nat \<Rightarrow> Entry list) \<Rightarrow> jsstr \<Rightarrow> bool" where
  "lasting srt k \<longleftrightarrow> (\<forall>m. k \<in> e_key ` set (srt m))"

definition seen_in :: "FragmentChunk list \<Rightarrow> (nat \<Rightarrow> Entry list) \<Rightarrow> jsstr \<Rightarrow> bool" where
  "seen_in cs srt k \<longleftrightarrow> (\<exists>c \<in> set cs. \<exists>e \<in> set (fc_entries c). e_key e = k \<and> (\<exists>m. e \<in> set (srt m)))"

lemma page_sees:
  assumes "keyed (srt n)" "lasting srt k" "case afterKey of None \<Rightarrow> True | Some a \<Rightarrow> a < k"
  shows "seen_in [pageAfter (srt n) pid afterKey] srt k
    \<or> \<not> fc_final (pageAfter (srt n) pid afterKey) \<and> (\<forall>next. lastKeyOf (pageAfter (srt n) pid afterKey) = Some next \<longrightarrow> next < k)"
proof -
  let ?c = "pageAfter (srt n) pid afterKey"
  obtain e where e: "e \<in> set (srt n)" "e_key e = k" using assms(2) by (auto simp: lasting_def)
  have b: "beyond afterKey e" using assms(3) e(2) by (simp add: beyond_def split: option.splits)
  have taken: "seen_in [?c] srt k" if "e \<in> set (fc_entries ?c)" using that e by (auto simp: seen_in_def)
  show ?thesis
  proof (cases "fc_final ?c")
    case True
    then have "filter (beyond afterKey) (srt n) = fc_entries ?c" using page_slice [OF assms(1), of afterKey pid] by auto
    then have "e \<in> set (fc_entries ?c)" using e(1) b by (metis (mono_tags, lifting) mem_Collect_eq set_filter)
    then show ?thesis using taken by blast
  next
    case False
    obtain k' where k': "lastKeyOf ?c = Some k'"
      "filter (beyond afterKey) (srt n) = fc_entries ?c @ filter (beyond (Some k')) (srt n)"
      using page_next [OF assms(1) False] by blast
    have "e \<in> set (fc_entries ?c) \<or> k' < k"
      using arg_cong [OF k'(2), of set] e b by (auto simp: beyond_def)
    then show ?thesis using taken False k'(1) by auto
  qed
qed

lemma pages_changing:
  assumes "ft_pages reply onChunk n afterKey w = Some w'"
  shows "(\<forall>n. keyed (srt n)) \<and> (\<forall>n a. reply n a = Some (pageAfter (srt n) pid a)) \<longrightarrow> (\<exists>cs. w' = fold onChunk cs w
    \<and> (\<forall>k. lasting srt k \<and> (case afterKey of None \<Rightarrow> True | Some a \<Rightarrow> a < k) \<longrightarrow> seen_in cs srt k))"
  using assms
proof (induction rule: ft_pages.raw_induct [rotated, consumes 1, case_names page])
  case (page pages reply onChunk n afterKey w w')
  show ?case
  proof
    assume h: "(\<forall>n. keyed (srt n)) \<and> (\<forall>n a. reply n a = Some (pageAfter (srt n) pid a))"
    let ?c = "pageAfter (srt n) pid afterKey"
    have kd: "keyed (srt n)" and r: "reply n afterKey = Some ?c" using h by auto
    show "\<exists>cs. w' = fold onChunk cs w
      \<and> (\<forall>k. lasting srt k \<and> (case afterKey of None \<Rightarrow> True | Some a \<Rightarrow> a < k) \<longrightarrow> seen_in cs srt k)"
    proof (cases "fc_final ?c")
      case True
      then have "w' = fold onChunk [?c] w" using page(2) by (simp add: r)
      then show ?thesis using page_sees [of srt n, OF kd] True by blast
    next
      case False
      obtain k' where k': "lastKeyOf ?c = Some k'" "case afterKey of None \<Rightarrow> True | Some a \<Rightarrow> a < k'"
        using page_next [OF kd False] by blast
      have "\<not> (case afterKey of None \<Rightarrow> False | Some a \<Rightarrow> k' \<le> a)" using k'(2) by (simp add: not_le split: option.splits)
      then have "pages reply onChunk (n + 1) (Some k') (onChunk ?c w) = Some w'"
        using page(2) False k'(1) by (simp add: r)
      from page(1) [OF this] h obtain cs where cs: "w' = fold onChunk cs (onChunk ?c w)"
        "\<forall>k. lasting srt k \<and> k' < k \<longrightarrow> seen_in cs srt k"
        by auto
      have "seen_in (?c # cs) srt k" if "lasting srt k" "case afterKey of None \<Rightarrow> True | Some a \<Rightarrow> a < k" for k
        using page_sees [of srt n, OF kd that, of pid] k'(1) cs(2) that(1) by (auto simp: seen_in_def)
      then show ?thesis using cs(1) by (intro exI [of _ "?c # cs"]) simp
    qed
  qed
qed

section \<open>A sample node\<close>

definition sample_entry :: Entry where
  "sample_entry = \<lparr>e_key = js ''k'', e_value = Some [1], e_timestamp = HybridTime 1 0 (js ''n''), e_sequence = 1,
     e_expiresAt = None, e_deleted = False\<rparr>"

lemma sample_node:
  obtains en where "en_new (js ''a'') 7 = Inr en" "sr_inv (en_store en)" "sr_inv (en_store (en_merge sample_entry en))"
    "sample_entry \<in> set (en_snapshot (en_partitionFor (js ''k'') (en_merge sample_entry en)) (en_merge sample_entry en))"
proof -
  obtain en where en: "en_new (js ''a'') 7 = Inr en"
    by (simp add: en_new_def sr_new_def hc_new_def isSafeInteger_def js_def)
  have inv: "sr_inv (en_store en)" "en_lookup en = Map.empty"
    using en sr_new_inv [of 7] by (auto simp: en_new_def split: sum.splits)
  then have "en_lookup (en_merge sample_entry en) (js ''k'') = Some sample_entry"
    by (simp add: en_merge_def sr_apply_lww lww_put_def sample_entry_def)
  then show thesis using that [OF en inv(1)] merge_gains(1) [OF inv(1)] lookup_in_snapshot by (auto simp: gains_def)
qed

section \<open>Properties\<close>





end
