(* ===== verification/PrimaryBackup.thy ===== *)
theory PrimaryBackup
  imports Fragment
begin

text \<open>
  The replication authority of one partition, \<open>src/kv/primary.backup.ts\<close>: the local
  write at the primary, then one replicate request to every backup, awaited up to a
  write quorum in synchronous mode.  The nodes are a map from names to engines.
  Requests settle one at a time in any order: an event names the backup and what
  the carrier did with its request.  A result of \<^term>\<open>None\<close> is a proposal that is
  still waiting.

  The theory shows that an acknowledged write is at the primary and at a quorum of
  the backups, and that the quorum error is raised only when every request has
  settled with too few acknowledgments.
\<close>

section \<open>State and operations\<close>

datatype ReplicationMode = Sync | Async

datatype KvQuorumKind = ReadQuorum | WriteQuorum

datatype KvQuorumError = KvQuorumError (kind: KvQuorumKind) (got: int) (need: int)

datatype ProposeError = EngineFailed EngineError | QuorumFailed KvQuorumError

record PrimaryBackup =
  pb_partitionId :: nat
  pb_writeQuorum :: int
  pb_mode :: ReplicationMode
  pb_replicas :: "jsstr list"

type_synonym nodes = "jsstr \<Rightarrow> Engine"

definition pb_new :: "nat \<Rightarrow> int \<Rightarrow> ReplicationMode \<Rightarrow> PrimaryBackup" where
  "pb_new pid writeQuorum mode =
     \<lparr>pb_partitionId = pid, pb_writeQuorum = writeQuorum, pb_mode = mode, pb_replicas = []\<rparr>"

definition pb_memberChange :: "jsstr list \<Rightarrow> PrimaryBackup \<Rightarrow> PrimaryBackup" where
  "pb_memberChange replicas pb = pb\<lparr>pb_replicas := replicas\<rparr>"

definition pb_read :: "jsstr \<Rightarrow> int \<Rightarrow> Engine \<Rightarrow> Entry option" where
  "pb_read key nowMs en = en_read key nowMs en"

fun pb_replicateOne :: "delivery \<Rightarrow> Entry \<Rightarrow> Engine \<Rightarrow> bool \<times> Engine" where
  "pb_replicateOne Acked entry en = (True, en_merge entry en)"
| "pb_replicateOne AckLost entry en = (False, en_merge entry en)"
| "pb_replicateOne Lost entry en = (False, en)"

fun firstAcks ::
  "nat \<Rightarrow> int \<Rightarrow> nat \<Rightarrow> nat \<Rightarrow> Entry \<Rightarrow> (jsstr \<times> delivery) list \<Rightarrow> nodes \<Rightarrow> nat option \<times> nodes" where
  "firstAcks sent needed acks settled entry [] ns = (None, ns)"
| "firstAcks sent needed acks settled entry ((backup, d) # events) ns =
     (let (ok, en) = pb_replicateOne d entry (ns backup);
          acks' = (if ok then acks + 1 else acks);
          settled' = settled + 1 in
      if int acks' \<ge> needed \<or> settled' = sent then (Some acks', ns(backup := en))
      else firstAcks sent needed acks' settled' entry events (ns(backup := en)))"

definition pb_replicate ::
  "Entry \<Rightarrow> (jsstr \<times> delivery) list \<Rightarrow> PrimaryBackup \<Rightarrow> nodes \<Rightarrow> (KvQuorumError + unit) option \<times> nodes" where
  "pb_replicate entry events pb ns =
     (let sent = length (pb_replicas pb);
          needed = (if pb_mode pb = Async then 0 else min (pb_writeQuorum pb - 1) (int sent)) in
      if needed \<le> 0 then (Some (Inr ()), ns)
      else
        (case firstAcks sent needed 0 0 entry events ns of
           (None, ns') \<Rightarrow> (None, ns')
         | (Some acks, ns') \<Rightarrow>
             if int acks < needed
             then (Some (Inl (KvQuorumError WriteQuorum (1 + int acks) (pb_writeQuorum pb))), ns')
             else (Some (Inr ()), ns')))"

text \<open>\<open>propose\<close> from the moment the engine's write has settled with \<open>result\<close>.\<close>

definition pb_propose ::
  "EngineError + WriteResult \<Rightarrow> (jsstr \<times> delivery) list \<Rightarrow> PrimaryBackup \<Rightarrow> nodes
     \<Rightarrow> (ProposeError + WriteResult) option \<times> nodes" where
  "pb_propose result events pb ns =
     (case result of
        Inl e \<Rightarrow> (Some (Inl (EngineFailed e)), ns)
      | Inr (WriteRejected reason) \<Rightarrow> (Some (Inr (WriteRejected reason)), ns)
      | Inr (WriteApplied entry) \<Rightarrow>
          (case pb_replicate entry events pb ns of
             (None, ns') \<Rightarrow> (None, ns')
           | (Some (Inl q), ns') \<Rightarrow> (Some (Inl (QuorumFailed q)), ns')
           | (Some (Inr _), ns') \<Rightarrow> (Some (Inr (WriteApplied entry)), ns')))"

text \<open>
  \<open>reconcile\<close> pulls from every peer; the pulls interleave, and here they run one
  after the other, each against the replies of its peer.
\<close>

fun pb_reconcile :: "(nat \<Rightarrow> jsstr option \<Rightarrow> FragmentChunk option) list \<Rightarrow> Engine \<Rightarrow> Engine option" where
  "pb_reconcile [] en = Some en"
| "pb_reconcile (reply # replies) en =
     (case ft_pull reply en of None \<Rightarrow> None | Some en' \<Rightarrow> pb_reconcile replies en')"

section \<open>Acknowledgments\<close>

lemma replicateOne_gains:
  assumes "sr_inv (en_store en)" "pb_replicateOne d e en = (ok, en')"
  shows "gains en en' \<and> (ok \<longrightarrow> holds e (en_lookup en')) \<and> (ok \<longleftrightarrow> d = Acked)"
  using assms merge_gains gains_refl by (cases d) auto

lemma firstAcks_result:
  "firstAcks sent needed acks settled e events ns = (Some n, ns') \<Longrightarrow>
   distinct (map fst events) \<Longrightarrow> \<forall>b. sr_inv (en_store (ns b)) \<Longrightarrow>
   (\<exists>H. finite H \<and> H \<subseteq> fst ` set events \<and> n = acks + card H \<and> (\<forall>b \<in> H. holds e (en_lookup (ns' b))))
   \<and> (\<forall>b. gains (ns b) (ns' b)) \<and> (\<forall>b. b \<notin> fst ` set events \<longrightarrow> ns' b = ns b)
   \<and> (needed \<le> int n \<or> (\<exists>k \<le> length events. settled + k = sent \<and> n = acks + length (filter (\<lambda>v. snd v = Acked) (take k events))))"
proof (induction sent needed acks settled e events ns rule: firstAcks.induct)
  case (2 sent needed acks settled e backup d events ns)
  obtain ok en where r: "pb_replicateOne d e (ns backup) = (ok, en)" by fastforce
  let ?acks = "if ok then acks + 1 else acks" and ?ns = "ns(backup := en)"
  have one: "gains (ns backup) en" "ok \<longrightarrow> holds e (en_lookup en)" "ok \<longleftrightarrow> d = Acked"
    using replicateOne_gains [OF _ r] "2.prems"(3) by auto
  have gain1: "\<forall>b. gains (ns b) (?ns b)" using one(1) "2.prems"(3) by (simp add: gains_refl)
  show ?case
  proof (cases "int ?acks \<ge> needed \<or> settled + 1 = sent")
    case True
    then have n: "n = ?acks" "ns' = ?ns" using "2.prems"(1) r by (auto simp: Let_def)
    have "\<exists>H. finite H \<and> H \<subseteq> fst ` set ((backup, d) # events) \<and> n = acks + card H \<and> (\<forall>b \<in> H. holds e (en_lookup (ns' b)))"
      using one(2) n by (intro exI [of _ "if ok then {backup} else {}"]) auto
    moreover have "needed \<le> int n \<or> (\<exists>k \<le> length ((backup, d) # events). settled + k = sent
        \<and> n = acks + length (filter (\<lambda>v. snd v = Acked) (take k ((backup, d) # events))))"
      using True n one(3) by (auto intro!: exI [of _ "1::nat"])
    ultimately show ?thesis using gain1 n(2) by auto
  next
    case False
    then have run: "firstAcks sent needed ?acks (settled + 1) e events ?ns = (Some n, ns')"
      using "2.prems"(1) r by (auto simp: Let_def)
    have inv: "\<forall>b. sr_inv (en_store (?ns b))" using gain1 by (auto simp: gains_def)
    have dist: "distinct (map fst events)" "backup \<notin> fst ` set events" using "2.prems"(2) by auto
    note IH = "2.IH" [OF r [symmetric] refl refl refl False run dist(1) inv]
    obtain H where H: "finite H" "H \<subseteq> fst ` set events" "n = ?acks + card H" "\<forall>b \<in> H. holds e (en_lookup (ns' b))"
      using IH by blast
    have keep: "ns' backup = en" using IH dist(2) by simp
    have "\<exists>H. finite H \<and> H \<subseteq> fst ` set ((backup, d) # events) \<and> n = acks + card H \<and> (\<forall>b \<in> H. holds e (en_lookup (ns' b)))"
    proof (cases ok)
      case True
      have "backup \<notin> H" using H(2) dist(2) by auto
      then show ?thesis using H True one(2) keep by (intro exI [of _ "insert backup H"]) auto
    next
      case False
      then show ?thesis using H by (intro exI [of _ H]) auto
    qed
    moreover have "\<forall>b. gains (ns b) (ns' b)" using gain1 IH gains_trans by blast
    moreover have "\<forall>b. b \<notin> fst ` set ((backup, d) # events) \<longrightarrow> ns' b = ns b" using IH by auto
    moreover have "needed \<le> int n \<or> (\<exists>k \<le> length ((backup, d) # events). settled + k = sent
        \<and> n = acks + length (filter (\<lambda>v. snd v = Acked) (take k ((backup, d) # events))))"
    proof (cases "needed \<le> int n")
      case False
      then obtain k where k: "k \<le> length events" "settled + 1 + k = sent"
        "n = ?acks + length (filter (\<lambda>v. snd v = Acked) (take k events))"
        using IH by auto
      then show ?thesis using one(3) by (intro disjI2 exI [of _ "Suc k"]) auto
    qed simp
    ultimately show ?thesis by blast
  qed
qed simp

lemma propose_quorum:
  assumes "pb_mode pb = Sync" and "distinct (map fst events)" and "\<forall>b. sr_inv (en_store (ns b))"
    and "fst ` set events \<subseteq> set (pb_replicas pb)" and "distinct (pb_replicas pb)"
    and "pb_propose (Inr (WriteApplied e)) events pb ns = (Some r, ns')"
  shows "(\<forall>b. gains (ns b) (ns' b)) \<and> (case r of
      Inr w \<Rightarrow> w = WriteApplied e \<and> (\<exists>H \<subseteq> set (pb_replicas pb).
        min (pb_writeQuorum pb - 1) (int (length (pb_replicas pb))) \<le> int (card H) \<and> (\<forall>b \<in> H. holds e (en_lookup (ns' b))))
    | Inl err \<Rightarrow> \<exists>acks. err = QuorumFailed (KvQuorumError WriteQuorum (1 + int acks) (pb_writeQuorum pb))
        \<and> acks = length (filter (\<lambda>v. snd v = Acked) events) \<and> length events = length (pb_replicas pb)
        \<and> int acks < pb_writeQuorum pb - 1)"
proof -
  let ?total = "length (pb_replicas pb)"
  let ?needed = "min (pb_writeQuorum pb - 1) (int ?total)"
  show ?thesis
  proof (cases "?needed \<le> 0")
    case True
    then have "r = Inr (WriteApplied e)" "ns' = ns"
      using assms(1,6) by (auto simp: pb_propose_def pb_replicate_def Let_def)
    then show ?thesis using True assms(3) gains_refl by (auto intro!: exI [of _ "{}"])
  next
    case False
    then obtain n where n: "firstAcks ?total ?needed 0 0 e events ns = (Some n, ns')"
      and r: "r = (if int n < ?needed then Inl (QuorumFailed (KvQuorumError WriteQuorum (1 + int n) (pb_writeQuorum pb)))
                   else Inr (WriteApplied e))"
      using assms(1,6) by (auto simp: pb_propose_def pb_replicate_def Let_def split: prod.splits option.splits if_splits)
    note res = firstAcks_result [OF n assms(2,3)]
    have gain: "\<forall>b. gains (ns b) (ns' b)" using res by blast
    obtain H where H: "H \<subseteq> fst ` set events" "n = card H" "\<forall>b \<in> H. holds e (en_lookup (ns' b))" using res by auto
    show ?thesis
    proof (cases "int n < ?needed")
      case low: True
      then obtain k where k: "k \<le> length events" "k = ?total"
        "n = length (filter (\<lambda>v. snd v = Acked) (take k events))"
        using res by auto
      have "card (set (map fst events)) \<le> card (set (pb_replicas pb))" using assms(4) by (intro card_mono) auto
      then have "length events \<le> ?total" using distinct_card [OF assms(2)] distinct_card [OF assms(5)] by simp
      then have "length events = ?total" "take k events = events" using k(1,2) by simp_all
      then have "n = length (filter (\<lambda>v. snd v = Acked) events)" "length events = ?total" "int n < pb_writeQuorum pb - 1"
        using k(3) low by auto
      moreover have "r = Inl (QuorumFailed (KvQuorumError WriteQuorum (1 + int n) (pb_writeQuorum pb)))" using r low by simp
      ultimately show ?thesis using gain by auto
    next
      case False
      then have "r = Inr (WriteApplied e)" "?needed \<le> int (card H)" using r H(2) by auto
      moreover have "H \<subseteq> set (pb_replicas pb)" using H(1) assms(4) by blast
      ultimately show ?thesis using gain H(3) by auto
    qed
  qed
qed



end
