(* ===== verification/Ring.thy ===== *)
theory Ring
  imports Complex_Main KvHash JsMap "HOL-Library.Product_Lexorder"
begin

text \<open>
  Partition ownership, \<open>src/kv/ring.ts\<close>: consistent hashing with bounded loads.
  Members occupy virtual points of a sorted ring; each partition goes to the
  first member clockwise from its own point that is below a load ceiling.
  The theory shows that the binary search finds the first point at or past a
  hash, that the assignment does not depend on the order of the members, that it
  is balanced, and that backups are distinct members other than the primary.
\<close>

section \<open>Points\<close>

record RingPoint =
  rp_point :: "32 word"
  rp_owner :: jsstr

definition RING_POINTS_PER_MEMBER :: nat where "RING_POINTS_PER_MEMBER = 20"

text \<open>
  Division and multiplication of numbers round; \<open>fl\<close> is the rounding of an exact
  result to the nearest representable number.
\<close>

definition LOAD_FACTOR :: rat where "LOAD_FACTOR = 5 / 4"

definition averageLoad :: "(rat \<Rightarrow> rat) \<Rightarrow> nat \<Rightarrow> nat \<Rightarrow> rat" where
  "averageLoad fl partitionCount memberCount =
     fl (fl (of_nat partitionCount / of_nat memberCount) * LOAD_FACTOR)"

definition be32 :: "32 word \<Rightarrow> 8 word list" where
  "be32 w = [ucast (drop_bit 24 w), ucast (drop_bit 16 w), ucast (drop_bit 8 w), ucast w]"

definition partitionPoint :: "nat \<Rightarrow> 32 word" where
  "partitionPoint p = mix32 (fnv1a32 (be32 (of_nat p)))"

definition startIndex :: "RingPoint list \<Rightarrow> 32 word \<Rightarrow> nat" where
  "startIndex points hash = bsearch (\<lambda>mid. rp_point (points ! mid) < hash) 0 (length points)"

definition compareRingPoints :: "RingPoint \<Rightarrow> RingPoint \<Rightarrow> int" where
  "compareRingPoints left right =
     (if rp_point left \<noteq> rp_point right then if rp_point left < rp_point right then -1 else 1
      else if rp_owner left = rp_owner right then 0
      else if rp_owner left < rp_owner right then -1 else 1)"

definition requirePositiveInteger :: "int \<Rightarrow> RangeError + unit" where
  "requirePositiveInteger value =
     (if \<not> isSafeInteger value \<or> value \<le> 0 then Inl RangeError else Inr ())"

definition requirePartitionId :: "int \<Rightarrow> nat \<Rightarrow> RangeError + unit" where
  "requirePartitionId p partitionCount =
     (if \<not> isSafeInteger p \<or> p < 0 \<or> int partitionCount \<le> p then Inl RangeError else Inr ())"

fun uniqueMembers_from :: "jsstr list \<Rightarrow> jsstr list \<Rightarrow> RangeError + jsstr list" where
  "uniqueMembers_from seen [] = Inr seen"
| "uniqueMembers_from seen (member # rest) =
     (if length member = 0 then Inl RangeError
      else if member \<in> set seen then Inl RangeError
      else uniqueMembers_from (seen @ [member]) rest)"

definition uniqueMembers :: "jsstr list \<Rightarrow> RangeError + jsstr list" where
  "uniqueMembers members = (if length members = 0 then Inl RangeError else uniqueMembers_from [] members)"

definition memberPoints :: "jsstr \<Rightarrow> RingPoint list" where
  "memberPoints owner =
     map (\<lambda>vnode. \<lparr>rp_point = hash32 (owner @ js ''#'' @ js_nat vnode), rp_owner = owner\<rparr>)
       [0..<RING_POINTS_PER_MEMBER]"

definition buildPoints :: "jsstr list \<Rightarrow> RingPoint list" where
  "buildPoints members = js_sort compareRingPoints (concat (map memberPoints members))"

section \<open>Assignment\<close>

definition owner_at :: "RingPoint list \<Rightarrow> nat \<Rightarrow> jsstr" where
  "owner_at points i = rp_owner (points ! (i mod length points))"

definition pickOwner :: "(jsstr \<Rightarrow> nat option) \<Rightarrow> rat \<Rightarrow> RingPoint list \<Rightarrow> nat \<Rightarrow> jsstr" where
  "pickOwner loads cap points start =
     (case find (\<lambda>step. of_nat (the (loads (owner_at points (start + step)))) < cap) [0..<length points] of
        Some step \<Rightarrow> owner_at points (start + step)
      | None \<Rightarrow> owner_at points start)"

definition assignStep ::
  "rat \<Rightarrow> RingPoint list \<Rightarrow> nat \<Rightarrow> (jsstr \<Rightarrow> nat option) \<times> jsstr list \<Rightarrow> (jsstr \<Rightarrow> nat option) \<times> jsstr list" where
  "assignStep cap points p = (\<lambda>(loads, primaries).
     let owner = pickOwner loads cap points (startIndex points (partitionPoint p))
     in (loads(owner \<mapsto> the (loads owner) + 1), primaries @ [owner]))"

definition assignPrimaries :: "(rat \<Rightarrow> rat) \<Rightarrow> jsstr list \<Rightarrow> RingPoint list \<Rightarrow> nat \<Rightarrow> jsstr list" where
  "assignPrimaries fl members points partitionCount =
     (let cap = averageLoad fl partitionCount (length members);
          loads = fold (\<lambda>member m. m(member \<mapsto> 0)) members Map.empty
      in snd (fold (assignStep cap points) [0..<partitionCount] (loads, [])))"

record PartitionRing =
  pr_members :: "jsstr list"
  pr_points :: "RingPoint list"
  pr_primaries :: "jsstr list"

definition pr_new :: "(rat \<Rightarrow> rat) \<Rightarrow> jsstr list \<Rightarrow> int \<Rightarrow> RangeError + PartitionRing" where
  "pr_new fl members partitionCount =
     (case requirePositiveInteger partitionCount of
        Inl e \<Rightarrow> Inl e
      | Inr _ \<Rightarrow>
          (case uniqueMembers members of
             Inl e \<Rightarrow> Inl e
           | Inr ms \<Rightarrow>
               let points = buildPoints ms
               in Inr \<lparr>pr_members = ms, pr_points = points,
                       pr_primaries = assignPrimaries fl ms points (nat partitionCount)\<rparr>))"

definition pr_partitionCount :: "PartitionRing \<Rightarrow> nat" where
  "pr_partitionCount r = length (pr_primaries r)"

definition pr_primary :: "PartitionRing \<Rightarrow> int \<Rightarrow> RangeError + jsstr" where
  "pr_primary r p =
     (case requirePartitionId p (length (pr_primaries r)) of
        Inl e \<Rightarrow> Inl e | Inr _ \<Rightarrow> Inr (pr_primaries r ! nat p))"

definition ring_primaries :: "PartitionRing \<Rightarrow> jsstr list" where
  "ring_primaries r = pr_primaries r"

definition ring_members :: "PartitionRing \<Rightarrow> jsstr list" where
  "ring_members r = pr_members r"

text \<open>The walk of \<open>backups\<close>; once enough are chosen the remaining steps do nothing.\<close>

definition backupStep ::
  "RingPoint list \<Rightarrow> nat \<Rightarrow> nat \<Rightarrow> nat \<Rightarrow> jsstr set \<times> jsstr list \<Rightarrow> jsstr set \<times> jsstr list" where
  "backupStep points start want step = (\<lambda>(seen, chosen).
     if length chosen < want
     then let candidate = owner_at points (start + step)
          in if candidate \<in> seen then (seen, chosen) else (insert candidate seen, chosen @ [candidate])
     else (seen, chosen))"

definition pr_backups :: "PartitionRing \<Rightarrow> int \<Rightarrow> int \<Rightarrow> RangeError + jsstr list" where
  "pr_backups r p replicaCount =
     (case requirePartitionId p (length (pr_primaries r)) of
        Inl e \<Rightarrow> Inl e
      | Inr _ \<Rightarrow>
          (case requirePositiveInteger replicaCount of
             Inl e \<Rightarrow> Inl e
           | Inr _ \<Rightarrow>
               let want = nat (replicaCount - 1) in
               if want = 0 \<or> length (pr_members r) = 1 then Inr []
               else
                 let primary = pr_primaries r ! nat p;
                     start = startIndex (pr_points r) (partitionPoint (nat p))
                 in Inr (snd (fold (backupStep (pr_points r) start want)
                                [0..<length (pr_points r)] ({primary}, [])))))"

section \<open>The binary search\<close>

lemma startIndex_takeWhile:
  assumes "sorted (map rp_point points)"
  shows "startIndex points hash = length (takeWhile (\<lambda>p. rp_point p < hash) points)"
  unfolding startIndex_def
proof (rule bsearch_takeWhile [where P = "\<lambda>p. rp_point p < hash"])
  fix i j assume "i \<le> j" "j < length points" "rp_point (points ! j) < hash"
  then show "rp_point (points ! i) < hash" using sorted_nth_mono [OF assms, of i j] by simp
qed

section \<open>The ring of points\<close>

definition point_key :: "RingPoint \<Rightarrow> 32 word \<times> jsstr" where
  "point_key p = (rp_point p, rp_owner p)"

lemma inj_point_key: "inj_on point_key A"
  by (auto simp: inj_on_def point_key_def intro: RingPoint.equality)

lemma compareRingPoints_key: "compareRingPoints p q \<le> 0 \<longleftrightarrow> point_key p \<le> point_key q"
  by (auto simp: compareRingPoints_def point_key_def)

lemma buildPoints_sort: "buildPoints ms = sort_key point_key (concat (map memberPoints ms))"
  unfolding buildPoints_def by (rule js_sort_key) (rule compareRingPoints_key)

lemma buildPoints_sorted: "sorted (map rp_point (buildPoints ms))"
proof -
  have "sorted (map point_key (buildPoints ms))" by (simp add: buildPoints_sort)
  then show ?thesis
    by (simp add: sorted_map) (auto elim!: sorted_wrt_mono_rel [rotated] simp: point_key_def)
qed

lemma buildPoints_perm: "mset ms = mset ms' \<Longrightarrow> buildPoints ms = buildPoints ms'"
proof -
  assume perm: "mset ms = mset ms'"
  have sum: "mset (concat (map memberPoints l)) = (\<Sum>m \<in># mset l. mset (memberPoints m))" for l
    by (induction l) simp_all
  then have "mset (concat (map memberPoints ms)) = mset (concat (map memberPoints ms'))"
    unfolding sum perm ..
  then show ?thesis
    unfolding buildPoints_sort by (intro sort_key_inj_key_eq inj_point_key) simp_all
qed

lemma owners_buildPoints: "rp_owner ` set (buildPoints ms) = set ms"
proof -
  have "rp_owner ` set (memberPoints m) = {m}" for m
    by (simp add: memberPoints_def image_image image_constant_conv RING_POINTS_PER_MEMBER_def)
  then show ?thesis by (simp add: buildPoints_sort image_UN)
qed

lemma owner_at_mem: "ms \<noteq> [] \<Longrightarrow> owner_at (buildPoints ms) i \<in> set ms"
proof -
  assume "ms \<noteq> []"
  then have "buildPoints ms \<noteq> []" using owners_buildPoints [of ms] by auto
  then have "buildPoints ms ! (i mod length (buildPoints ms)) \<in> set (buildPoints ms)" by simp
  then show ?thesis using owners_buildPoints [of ms] by (auto simp: owner_at_def)
qed

text \<open>A walk of the whole ring from any start meets every member.\<close>

lemma owner_at_all:
  assumes "m \<in> set ms"
  shows "\<exists>step < length (buildPoints ms). owner_at (buildPoints ms) (start + step) = m"
proof -
  let ?ps = "buildPoints ms" and ?L = "length (buildPoints ms)"
  obtain j where j: "j < ?L" "rp_owner (?ps ! j) = m"
    using assms owners_buildPoints [of ms] by (metis imageE in_set_conv_nth)
  then show ?thesis using mod_ring_reach [OF j(1), of start] by (auto simp: owner_at_def)
qed

section \<open>Members\<close>

lemma uniqueMembers_from_Inr:
  "uniqueMembers_from seen ms = Inr ms' \<Longrightarrow> distinct seen \<Longrightarrow> ms' = seen @ ms \<and> distinct ms' \<and> [] \<notin> set ms"
  by (induction seen ms rule: uniqueMembers_from.induct) (auto split: if_splits)

lemma uniqueMembers_from_ok:
  "distinct (seen @ ms) \<Longrightarrow> [] \<notin> set ms \<Longrightarrow> uniqueMembers_from seen ms = Inr (seen @ ms)"
  by (induction seen ms rule: uniqueMembers_from.induct) auto

lemma uniqueMembers_Inr:
  "uniqueMembers ms = Inr ms' \<longleftrightarrow> ms' = ms \<and> ms \<noteq> [] \<and> distinct ms \<and> [] \<notin> set ms"
  using uniqueMembers_from_Inr [of "[]" ms ms'] uniqueMembers_from_ok [of "[]" ms]
  by (auto simp: uniqueMembers_def)

lemma pr_new_Inr:
  "pr_new fl ms n = Inr r \<longleftrightarrow> isSafeInteger n \<and> 0 < n \<and> ms \<noteq> [] \<and> distinct ms \<and> [] \<notin> set ms
     \<and> r = \<lparr>pr_members = ms, pr_points = buildPoints ms, pr_primaries = assignPrimaries fl ms (buildPoints ms) (nat n)\<rparr>"
proof (cases "uniqueMembers ms")
  case (Inl e)
  then have "\<not> (ms \<noteq> [] \<and> distinct ms \<and> [] \<notin> set ms)" using uniqueMembers_Inr [of ms ms] by simp
  then show ?thesis using Inl by (simp add: pr_new_def requirePositiveInteger_def) blast
next
  case (Inr ms')
  then have "ms' = ms" "ms \<noteq> [] \<and> distinct ms \<and> [] \<notin> set ms" using uniqueMembers_Inr [of ms ms'] by simp_all
  then show ?thesis using Inr by (auto simp: pr_new_def requirePositiveInteger_def Let_def)
qed

section \<open>Balance\<close>

text \<open>What the proofs use of rounding to nearest: it is monotone and leaves a dyadic number alone.\<close>

definition rounding :: "(rat \<Rightarrow> rat) \<Rightarrow> bool" where
  "rounding fl \<longleftrightarrow> (\<forall>x y. x \<le> y \<longrightarrow> fl x \<le> fl y)
     \<and> (\<forall>n k. n \<le> 2 ^ 53 \<and> k \<le> 1000 \<longrightarrow> fl (of_nat n / 2 ^ k) = of_nat n / 2 ^ k)"

lemma rounding_id: "rounding (\<lambda>x. x)"
  by (simp add: rounding_def)

lemma averageLoad_above:
  assumes fl: "rounding fl" and P: "5 * P \<le> 2 ^ 53" and M: "0 < M" "M \<le> 2 ^ 53" and l: "l * M < P"
  shows "of_nat l < averageLoad fl P M"
proof -
  have mono: "\<And>x y. x \<le> y \<Longrightarrow> fl x \<le> fl y"
    and exact: "\<And>n k. n \<le> 2 ^ 53 \<Longrightarrow> k \<le> 1000 \<Longrightarrow> fl (of_nat n / 2 ^ k) = of_nat n / 2 ^ k"
    using fl by (auto simp: rounding_def)
  have PM: "of_nat l \<le> (of_nat P / of_nat M :: rat)"
  proof -
    have "of_nat (l * M) \<le> (of_nat P :: rat)" using l by (simp only: of_nat_le_iff)
    then show ?thesis using M(1) by (simp add: pos_le_divide_eq)
  qed
  show ?thesis
  proof (cases "l = 0")
    case True
    have "(1 :: rat) / 2 ^ 53 \<le> of_nat P / of_nat M"
    proof -
      have "(of_nat M :: rat) \<le> of_nat (2 ^ 53)" using M(2) by (simp only: of_nat_le_iff)
      then have "(1 :: rat) / 2 ^ 53 \<le> 1 / of_nat M" using M(1) by (intro divide_left_mono) auto
      also have "\<dots> \<le> of_nat P / of_nat M" using l by (intro divide_right_mono) auto
      finally show ?thesis .
    qed
    then have q: "(1 :: rat) / 2 ^ 53 \<le> fl (of_nat P / of_nat M)"
      using mono [of "1 / 2 ^ 53" "of_nat P / of_nat M"] exact [of 1 53] by simp
    then have "(1 :: rat) / 2 ^ 53 \<le> fl (of_nat P / of_nat M) * LOAD_FACTOR" by (simp add: LOAD_FACTOR_def)
    then have "(1 :: rat) / 2 ^ 53 \<le> averageLoad fl P M"
      using mono [of "1 / 2 ^ 53"] exact [of 1 53] by (fastforce simp: averageLoad_def)
    then show ?thesis using True by (simp add: order.strict_trans2)
  next
    case False
    have "l \<le> l * M" using M(1) by simp
    then have l53: "5 * l \<le> 2 ^ 53" using l P by linarith
    have "of_nat l \<le> fl (of_nat P / of_nat M)"
      using mono [OF PM] exact [of l 0] l53 by simp
    then have "of_nat (5 * l) / 2 ^ 2 \<le> fl (of_nat P / of_nat M) * LOAD_FACTOR"
      by (simp add: LOAD_FACTOR_def)
    then have "of_nat (5 * l) / 2 ^ 2 \<le> averageLoad fl P M"
      using mono [of "of_nat (5 * l) / 2 ^ 2"] exact [OF l53, of 2] by (fastforce simp: averageLoad_def)
    moreover have "(of_nat l :: rat) < of_nat (5 * l) / 2 ^ 2" using False by simp
    ultimately show ?thesis by (rule order.strict_trans2 [rotated])
  qed
qed

lemma pickOwner_below:
  assumes "m \<in> set ms" "of_nat (the (loads m)) < cap"
  shows "pickOwner loads cap (buildPoints ms) start \<in> set ms
    \<and> of_nat (the (loads (pickOwner loads cap (buildPoints ms) start))) < cap"
proof -
  let ?ps = "buildPoints ms" and ?P = "\<lambda>step. of_nat (the (loads (owner_at (buildPoints ms) (start + step)))) < cap"
  obtain step where "step < length ?ps" "?P step" using owner_at_all [OF assms(1), of start] assms(2) by auto
  then obtain st where st: "find ?P [0..<length ?ps] = Some st" "?P st"
    by (metis (no_types, lifting) atLeastLessThan_iff find_Some_iff2 find_None_iff2 not_Some_eq set_upt zero_le)
  moreover have "owner_at ?ps (start + st) \<in> set ms" using assms(1) by (intro owner_at_mem) auto
  ultimately show ?thesis by (simp add: pickOwner_def)
qed

definition assign_inv ::
  "jsstr list \<Rightarrow> rat \<Rightarrow> nat \<Rightarrow> (jsstr \<Rightarrow> nat option) \<times> jsstr list \<Rightarrow> bool" where
  "assign_inv ms cap k = (\<lambda>(loads, primaries).
     (\<forall>m \<in> set ms. loads m = Some (count_list primaries m)) \<and> length primaries = k \<and> set primaries \<subseteq> set ms
     \<and> (\<forall>m. of_nat (count_list primaries m) < cap + 1))"

lemma some_member_below:
  assumes "distinct ms" "length xs < P" "set xs \<subseteq> set ms" "ms \<noteq> []"
  shows "\<exists>m \<in> set ms. count_list xs m * length ms < P"
proof (rule ccontr)
  assume "\<not> ?thesis"
  then have "(\<Sum>m \<in> set ms. P) \<le> (\<Sum>m \<in> set ms. count_list xs m * length ms)"
    by (intro sum_mono) (simp add: not_less)
  also have "\<dots> = length xs * length ms"
    using sum_count_set [OF assms(3)] by (simp add: sum_distrib_right [symmetric])
  finally have "length ms * P \<le> length ms * length xs"
    using distinct_card [OF assms(1)] by (simp add: mult.commute)
  then show False using assms(2,4) by simp
qed

lemma assign_step:
  assumes fl: "rounding fl" "5 * P \<le> 2 ^ 53" "length ms \<le> 2 ^ 53" and ms: "distinct ms" "ms \<noteq> []"
    and inv: "assign_inv ms (averageLoad fl P (length ms)) k st" and "k < P"
  shows "assign_inv ms (averageLoad fl P (length ms)) (Suc k) (assignStep (averageLoad fl P (length ms)) (buildPoints ms) p st)"
proof -
  let ?cap = "averageLoad fl P (length ms)" and ?ps = "buildPoints ms"
  obtain loads prims where st: "st = (loads, prims)" by fastforce
  have loads: "\<And>m. m \<in> set ms \<Longrightarrow> loads m = Some (count_list prims m)" and len: "length prims = k"
    and sub: "set prims \<subseteq> set ms" and cnt: "\<And>m. of_nat (count_list prims m) < ?cap + 1"
    using inv st by (auto simp: assign_inv_def)
  obtain m where m: "m \<in> set ms" "count_list prims m * length ms < P"
    using some_member_below [OF ms(1) _ sub ms(2), of P] len assms(7) by auto
  have "of_nat (the (loads m)) < ?cap"
    using averageLoad_above [OF fl(1,2) _ fl(3) m(2)] loads [OF m(1)] ms(2) by simp
  then have o: "pickOwner loads ?cap ?ps (startIndex ?ps (partitionPoint p)) \<in> set ms"
    "of_nat (the (loads (pickOwner loads ?cap ?ps (startIndex ?ps (partitionPoint p))))) < ?cap"
    using pickOwner_below [OF m(1)] by blast+
  then show ?thesis
    using loads len sub cnt by (auto simp: assign_inv_def assignStep_def st Let_def)
qed

lemma initial_loads: "fold (\<lambda>member m. m(member \<mapsto> (0::nat))) ms f = (\<lambda>k. if k \<in> set ms then Some 0 else f k)"
  by (induction ms arbitrary: f) (auto simp: fun_eq_iff)

lemma assign_all:
  assumes fl: "rounding fl" "5 * P \<le> 2 ^ 53" "length ms \<le> 2 ^ 53" and ms: "distinct ms" "ms \<noteq> []"
  shows "k \<le> P \<Longrightarrow> assign_inv ms (averageLoad fl P (length ms)) k
      (fold (assignStep (averageLoad fl P (length ms)) (buildPoints ms)) [0..<k] ((\<lambda>m. if m \<in> set ms then Some 0 else None), []))"
proof (induction k)
  case 0
  show ?case
  proof (cases "P = 0")
    case True
    have "fl (of_nat 0 / 2 ^ 0) = of_nat 0 / 2 ^ 0" using fl(1) unfolding rounding_def by blast
    then have "fl 0 = 0" by simp
    then show ?thesis using True by (simp add: assign_inv_def averageLoad_def)
  next
    case False
    then have "0 < averageLoad fl P (length ms)"
      using averageLoad_above [OF fl(1,2) _ fl(3), of 0] ms(2) by simp
    then show ?thesis by (simp add: assign_inv_def)
  qed
next
  case (Suc k)
  then show ?case using assign_step [OF fl ms, of k] by simp
qed

section \<open>Backups\<close>

definition backup_inv :: "jsstr \<Rightarrow> jsstr list \<Rightarrow> nat \<Rightarrow> jsstr set \<Rightarrow> jsstr set \<times> jsstr list \<Rightarrow> bool" where
  "backup_inv primary ms want walked = (\<lambda>(seen, chosen).
     seen = insert primary (set chosen) \<and> distinct chosen \<and> primary \<notin> set chosen \<and> set chosen \<subseteq> set ms
     \<and> length chosen \<le> want \<and> (length chosen < want \<longrightarrow> walked \<subseteq> seen))"

lemma backup_walk:
  assumes "ms \<noteq> []"
  shows "backup_inv primary ms want ((\<lambda>step. owner_at (buildPoints ms) (start + step)) ` {..<n})
     (fold (backupStep (buildPoints ms) start want) [0..<n] ({primary}, []))"
proof (induction n)
  case (Suc n)
  then show ?case
    using owner_at_mem [OF assms, of "start + n"]
    by (auto simp: backup_inv_def backupStep_def lessThan_Suc Let_def split: prod.splits if_splits)
qed (simp add: backup_inv_def)

lemma backup_walk_result:
  assumes ms: "distinct ms" "primary \<in> set ms"
    and w: "fold (backupStep (buildPoints ms) start want) [0..<length (buildPoints ms)] ({primary}, []) = (seen, chosen)"
  shows "distinct chosen \<and> primary \<notin> set chosen \<and> set chosen \<subseteq> set ms \<and> length chosen = min want (length ms - 1)"
proof -
  let ?all = "(\<lambda>step. owner_at (buildPoints ms) (start + step)) ` {..<length (buildPoints ms)}"
  have ne: "ms \<noteq> []" using ms(2) by auto
  have all: "set ms \<subseteq> ?all" using owner_at_all [of _ ms start] by (force simp: image_iff)
  have inv: "seen = insert primary (set chosen)" "distinct chosen" "primary \<notin> set chosen" "set chosen \<subseteq> set ms"
    "length chosen \<le> want" "length chosen < want \<longrightarrow> ?all \<subseteq> seen"
    using backup_walk [OF ne, of primary want start "length (buildPoints ms)"] w by (auto simp: backup_inv_def)
  have card: "card (insert primary (set chosen)) = Suc (length chosen)"
    using inv(2,3) by (simp add: distinct_card)
  have "insert primary (set chosen) \<subseteq> set ms" using inv(4) ms(2) by simp
  then have "Suc (length chosen) \<le> length ms"
    using card card_mono [of "set ms"] distinct_card [OF ms(1)] by (metis List.finite_set)
  moreover have "length ms \<le> Suc (length chosen)" if "length chosen < want"
    using inv(1,6) all that card card_mono [of "insert primary (set chosen)" "set ms"] distinct_card [OF ms(1)]
    by (metis List.finite_set finite_insert subset_trans)
  ultimately have "length chosen = min want (length ms - 1)" using inv(5) by linarith
  then show ?thesis using inv by blast
qed

lemma primaries_balanced:
  assumes "pr_new fl ms n = Inr r" and "rounding fl" and "5 * n \<le> 2 ^ 53" and "length ms \<le> 2 ^ 53"
  shows "length (pr_primaries r) = nat n \<and> set (pr_primaries r) \<subseteq> set ms
    \<and> (\<forall>m. of_nat (count_list (pr_primaries r) m) < averageLoad fl (nat n) (length ms) + 1)"
proof -
  have ms: "distinct ms" "ms \<noteq> []" "pr_primaries r = assignPrimaries fl ms (buildPoints ms) (nat n)"
    using assms(1) by (auto simp: pr_new_Inr)
  have "5 * nat n \<le> 2 ^ 53" using assms(3) by simp
  from assign_all [OF assms(2) this assms(4) ms(1,2) order_refl]
  show ?thesis by (auto simp: ms(3) assignPrimaries_def initial_loads assign_inv_def Let_def case_prod_beta)
qed

text \<open>Whatever the rounding does to the ceiling, every partition gets some member.\<close>

lemma assign_members:
  assumes "ms \<noteq> []"
  shows "set (snd (fold (assignStep cap (buildPoints ms)) ps st)) \<subseteq> set (snd st) \<union> set ms
    \<and> length (snd (fold (assignStep cap (buildPoints ms)) ps st)) = length (snd st) + length ps"
proof (induction ps arbitrary: st)
  case (Cons p ps)
  have "pickOwner loads cap (buildPoints ms) start \<in> set ms" for loads start
    using owner_at_mem [OF assms] by (auto simp: pickOwner_def split: option.splits)
  then have "set (snd (assignStep cap (buildPoints ms) p st)) \<subseteq> set (snd st) \<union> set ms"
    "length (snd (assignStep cap (buildPoints ms) p st)) = Suc (length (snd st))"
    by (auto simp: assignStep_def Let_def case_prod_beta)
  then show ?case using Cons [of "assignStep cap (buildPoints ms) p st"] by auto
qed simp

lemma primaries_members:
  assumes "pr_new fl ms n = Inr r"
  shows "set (pr_primaries r) \<subseteq> set ms" and "length (pr_primaries r) = nat n"
proof -
  let ?cap = "averageLoad fl (nat n) (length ms)" and ?st = "(fold (\<lambda>member m. m(member \<mapsto> 0)) ms Map.empty, [])"
  have "ms \<noteq> []" and r: "pr_primaries r = snd (fold (assignStep ?cap (buildPoints ms)) [0..<nat n] ?st)"
    using assms by (auto simp: pr_new_Inr assignPrimaries_def Let_def)
  from assign_members [OF this(1), of ?cap "[0..<nat n]" ?st]
  show "set (pr_primaries r) \<subseteq> set ms" and "length (pr_primaries r) = nat n"
    unfolding r by simp_all
qed

lemma primary_member: "pr_new fl ms n = Inr r \<Longrightarrow> pr_primary r p = Inr m \<Longrightarrow> m \<in> set ms"
proof -
  assume new: "pr_new fl ms n = Inr r" and p: "pr_primary r p = Inr m"
  then have "nat p < length (pr_primaries r)" "m = pr_primaries r ! nat p"
    by (auto simp: pr_primary_def requirePartitionId_def split: if_splits)
  then show "m \<in> set ms" using primaries_members(1) [OF new] nth_mem by blast
qed

lemma ring_serves:
  assumes "pr_new fl ms n = Inr r" and "isSafeInteger p" and "0 \<le> p" and "p < n" and "isSafeInteger k" and "0 < k"
  obtains bs primary where "pr_backups r p k = Inr bs" and "pr_primary r p = Inr primary"
proof -
  have "requirePartitionId p (length (pr_primaries r)) = Inr ()" "requirePositiveInteger k = Inr ()"
    using assms(2-) primaries_members(2) [OF assms(1)]
    by (simp_all add: requirePartitionId_def requirePositiveInteger_def)
  then have "\<exists>bs. pr_backups r p k = Inr bs" and "\<exists>m. pr_primary r p = Inr m"
    by (simp_all add: pr_backups_def pr_primary_def Let_def)
  then show thesis using that by blast
qed

section \<open>The walk as a list\<close>

text \<open>The members in the order a walk from a partition's position first meets them.\<close>

fun firsts :: "'a list \<Rightarrow> 'a list" where
  "firsts [] = []"
| "firsts (x # xs) = x # filter (\<lambda>y. y \<noteq> x) (firsts xs)"

lemma set_firsts [simp]: "set (firsts xs) = set xs"
  by (induction xs) auto

lemma firsts_snoc: "firsts (xs @ [x]) = (if x \<in> set xs then firsts xs else firsts xs @ [x])"
  by (induction xs) auto

lemma firsts_filter: "firsts (filter P xs) = filter P (firsts xs)"
proof (induction xs)
  case (Cons x xs)
  have "filter (\<lambda>y. y \<noteq> x) (filter P (firsts xs)) = filter P (filter (\<lambda>y. y \<noteq> x) (firsts xs))"
    by (simp add: conj_commute)
  moreover have "filter P (filter (\<lambda>y. y \<noteq> x) (firsts xs)) = filter P (firsts xs)" if "\<not> P x"
    using that by (auto simp: filter_filter intro: filter_cong)
  ultimately show ?case using Cons by simp
qed simp

definition walk_owners :: "RingPoint list \<Rightarrow> 32 word \<Rightarrow> jsstr list" where
  "walk_owners points hash =
     map rp_owner (filter (\<lambda>p. hash \<le> rp_point p) points @ filter (\<lambda>p. rp_point p < hash) points)"

lemma backup_fold:
  "fold (backupStep points start want) [0..<n] ({primary}, []) =
     (let chosen = take want (filter (\<lambda>m. m \<noteq> primary) (firsts (map (\<lambda>step. owner_at points (start + step)) [0..<n])))
      in (insert primary (set chosen), chosen))"
proof (induction n)
  case (Suc n)
  let ?w = "map (\<lambda>step. owner_at points (start + step)) [0..<n]" and ?c = "owner_at points (start + n)"
  define l where "l = filter (\<lambda>m. m \<noteq> primary) (firsts ?w)"
  define l' where "l' = filter (\<lambda>m. m \<noteq> primary) (firsts (?w @ [?c]))"
  have l': "l' = (if ?c \<in> set ?w \<or> ?c = primary then l else l @ [?c])"
    by (simp add: l_def l'_def firsts_snoc)
  have mem: "?c \<in> set l \<longleftrightarrow> ?c \<in> set ?w \<and> ?c \<noteq> primary" unfolding l_def by simp
  have step: "backupStep points start want n (insert primary (set (take want l)), take want l)
      = (insert primary (set (take want l')), take want l')"
  proof (cases "length l < want")
    case True
    then have "take want l = l" "take want l' = l'" using l' by auto
    then show ?thesis using True mem l' by (auto simp: backupStep_def Let_def)
  next
    case False
    then have "take want l' = take want l" "length (take want l) = want" using l' by auto
    then show ?thesis by (simp add: backupStep_def)
  qed
  have "map (\<lambda>step. owner_at points (start + step)) [0..<Suc n] = ?w @ [?c]" by simp
  then show ?case using Suc step unfolding l_def l'_def by (simp add: Let_def)
qed simp

lemma owners_rotated:
  "start \<le> length points \<Longrightarrow> map (\<lambda>step. owner_at points (start + step)) [0..<length points]
     = map rp_owner (drop start points @ take start points)"
  by (rule nth_equalityI) (auto simp: owner_at_def nth_append mod_if add.commute)

lemma takeWhile_sorted:
  fixes h :: "'k::linorder"
  assumes "sorted (map f xs)"
  shows "take (length (takeWhile (\<lambda>x. f x < h) xs)) xs = filter (\<lambda>x. f x < h) xs"
    and "drop (length (takeWhile (\<lambda>x. f x < h) xs)) xs = filter (\<lambda>x. h \<le> f x) xs"
proof -
  have "takeWhile (\<lambda>x. f x < h) xs = filter (\<lambda>x. f x < h) xs \<and> dropWhile (\<lambda>x. f x < h) xs = filter (\<lambda>x. h \<le> f x) xs"
    using assms
  proof (induction xs)
    case (Cons x xs)
    show ?case
    proof (cases "f x < h")
      case False
      then have "h \<le> f y" if "y \<in> set xs" for y using Cons.prems that by auto
      then show ?thesis using False by (auto simp: filter_empty_conv not_less intro!: filter_True [symmetric])
    qed (use Cons in auto)
  qed simp
  then show "take (length (takeWhile (\<lambda>x. f x < h) xs)) xs = filter (\<lambda>x. f x < h) xs"
    "drop (length (takeWhile (\<lambda>x. f x < h) xs)) xs = filter (\<lambda>x. h \<le> f x) xs"
    by (metis takeWhile_eq_take, metis dropWhile_eq_drop)
qed

lemma walk_from_start:
  "map (\<lambda>step. owner_at (buildPoints ms) (startIndex (buildPoints ms) hash + step)) [0..<length (buildPoints ms)]
     = walk_owners (buildPoints ms) hash"
proof -
  have "startIndex (buildPoints ms) hash = length (takeWhile (\<lambda>p. rp_point p < hash) (buildPoints ms))"
    by (rule startIndex_takeWhile [OF buildPoints_sorted])
  moreover have "\<dots> \<le> length (buildPoints ms)" by (rule length_takeWhile_le)
  ultimately show ?thesis
    by (simp add: owners_rotated walk_owners_def takeWhile_sorted [OF buildPoints_sorted])
qed

lemma set_walk: "set (walk_owners (buildPoints ms) hash) = set ms"
proof -
  have "set (walk_owners (buildPoints ms) hash) = rp_owner ` set (buildPoints ms)"
    unfolding walk_owners_def set_map set_append set_filter by (rule arg_cong [of _ _ "image rp_owner"]) auto
  then show ?thesis by (simp add: owners_buildPoints)
qed

lemma backups_walk:
  assumes new: "pr_new fl ms n = Inr r" and p: "pr_primary r p = Inr primary" "primary \<in> set ms"
    and b: "pr_backups r p replicaCount = Inr bs"
  shows "bs = take (nat (replicaCount - 1))
    (filter (\<lambda>m. m \<noteq> primary) (firsts (walk_owners (buildPoints ms) (partitionPoint (nat p)))))"
proof -
  have r: "distinct ms" "pr_members r = ms" "pr_points r = buildPoints ms" using new by (auto simp: pr_new_Inr)
  have ok: "requirePartitionId p (length (pr_primaries r)) = Inr ()" "primary = pr_primaries r ! nat p"
    using p(1) by (auto simp: pr_primary_def split: sum.splits)
  have one: "filter (\<lambda>m. m \<noteq> primary) (firsts (walk_owners (buildPoints ms) h)) = []" if "length ms = 1" for h
  proof -
    have "set ms = {primary}" using that p(2) by (cases ms) auto
    then show ?thesis by (auto simp: filter_empty_conv set_walk)
  qed
  show ?thesis
    using b ok r one walk_from_start [of ms "partitionPoint (nat p)"]
    by (auto simp: pr_backups_def backup_fold Let_def split: sum.splits if_splits)
qed

lemma buildPoints_without: "buildPoints (filter (\<lambda>m. m \<noteq> d) ms) = filter (\<lambda>p. rp_owner p \<noteq> d) (buildPoints ms)"
proof -
  have "concat (map memberPoints (filter (\<lambda>m. m \<noteq> d) ms)) = filter (\<lambda>p. rp_owner p \<noteq> d) (concat (map memberPoints ms))"
  proof (induction ms)
    case (Cons m ms)
    have "filter (\<lambda>p. rp_owner p \<noteq> d) (memberPoints m) = (if m = d then [] else memberPoints m)"
      by (auto simp: memberPoints_def filter_empty_conv intro!: filter_True)
    then show ?case using Cons by simp
  qed simp
  then show ?thesis by (simp add: buildPoints_sort filter_sort)
qed

lemma walk_without:
  "walk_owners (buildPoints (filter (\<lambda>m. m \<noteq> d) ms)) hash = filter (\<lambda>m. m \<noteq> d) (walk_owners (buildPoints ms) hash)"
  by (simp add: walk_owners_def buildPoints_without filter_map comp_def conj_commute)

lemma take_without: "set (take m xs) \<subseteq> insert x (set (take m (filter (\<lambda>y. y \<noteq> x) xs)))"
proof (induction xs arbitrary: m)
  case (Cons y xs)
  show ?case
  proof (cases m)
    case (Suc m')
    let ?f = "filter (\<lambda>y. y \<noteq> x) xs"
    have "set (take m' ?f) \<subseteq> set (take m ?f)" using Suc by (intro set_take_subset_set_take) simp
    then have "set (take m' xs) \<subseteq> insert x (set (take m ?f))" using Cons [of m'] by blast
    then show ?thesis using Cons [of m'] unfolding Suc by (cases "y = x") auto
  qed simp
qed simp

section \<open>Properties\<close>

text \<open>
  The binary search is the linear one: on the sorted ring it returns the number
  of points before the first whose hash is at or past the one sought.
\<close>

lemma startIndex_is_linear_search:
  "startIndex (buildPoints ms) hash = length (takeWhile (\<lambda>p. rp_point p < hash) (buildPoints ms))"
  by (rule startIndex_takeWhile [OF buildPoints_sorted])

text \<open>
  The assignment is a function of the member set: two nodes that list the same
  members in different orders compute the same primaries and the same backups.
\<close>

lemma ring_order_independent:
  assumes "pr_new fl ms n = Inr r" and "pr_new fl ms' n = Inr r'" and "mset ms = mset ms'"
  shows "pr_primaries r = pr_primaries r' \<and> pr_backups r p replicaCount = pr_backups r' p replicaCount"
proof -
  have "pr_points r = pr_points r'" "length (pr_members r) = length (pr_members r')"
    "pr_primaries r = pr_primaries r'"
    using assms buildPoints_perm [OF assms(3)] mset_eq_setD [OF assms(3)] mset_eq_length [OF assms(3)]
    by (auto simp: pr_new_Inr assignPrimaries_def initial_loads)
  then show ?thesis by (simp only: pr_backups_def)
qed



lemma backups_shape:
  assumes "pr_new fl ms n = Inr r" and "pr_backups r p replicaCount = Inr bs" and "pr_primary r p = Inr primary"
  shows "distinct bs \<and> primary \<notin> set bs \<and> set bs \<subseteq> set ms
    \<and> length bs = min (nat replicaCount - 1) (length ms - 1)"
proof -
  have r: "distinct ms" "pr_members r = ms" "pr_points r = buildPoints ms"
    using assms(1) by (auto simp: pr_new_Inr)
  have ok: "requirePartitionId p (length (pr_primaries r)) = Inr ()" "primary = pr_primaries r ! nat p"
    using assms(3) by (auto simp: pr_primary_def split: sum.splits)
  have prim: "primary \<in> set ms" by (rule primary_member [OF assms(1,3)])
  have want: "nat (replicaCount - 1) = nat replicaCount - 1" by simp
  show ?thesis
  proof (cases "nat (replicaCount - 1) = 0 \<or> length ms = 1")
    case True
    then show ?thesis using assms(2) ok r by (auto simp: pr_backups_def Let_def split: sum.splits)
  next
    case False
    then have "bs = snd (fold (backupStep (buildPoints ms) (startIndex (buildPoints ms) (partitionPoint (nat p)))
        (nat (replicaCount - 1))) [0..<length (buildPoints ms)] ({primary}, []))"
      using assms(2) ok r by (auto simp: pr_backups_def Let_def split: sum.splits)
    then show ?thesis
      using backup_walk_result [OF r(1) prim prod.collapse [symmetric]] want by simp
  qed
qed

text \<open>
  Backups are distinct members other than the primary, as many as the replica
  count asks for or the cluster has.
\<close>

lemma ring_backups:
  assumes "pr_new fl ms n = Inr r" and "pr_backups r p replicaCount = Inr bs" and "pr_primary r p = Inr primary"
  shows "distinct bs \<and> primary \<notin> set bs \<and> set bs \<subseteq> set ms
    \<and> length bs = min (nat replicaCount - 1) (length ms - 1)"
  by (rule backups_shape [OF assms])

lemma survivors_listed:
  assumes "pr_new fl ms n = Inr r" and "pr_primary r p = Inr dead" and "pr_backups r p replicaCount = Inr bs"
    and "pr_new fl (filter (\<lambda>m. m \<noteq> dead) ms) n = Inr r'" and "pr_primary r' p = Inr primary'"
    and "pr_backups r' p replicaCount = Inr bs'"
  shows "set bs \<subseteq> insert primary' (set bs')"
proof -
  let ?w = "firsts (walk_owners (buildPoints ms) (partitionPoint (nat p)))"
  have "bs = take (nat (replicaCount - 1)) (filter (\<lambda>m. m \<noteq> dead) ?w)"
    by (rule backups_walk [OF assms(1,2) primary_member [OF assms(1,2)] assms(3)])
  moreover have "bs' = take (nat (replicaCount - 1)) (filter (\<lambda>m. m \<noteq> primary') (filter (\<lambda>m. m \<noteq> dead) ?w))"
    using backups_walk [OF assms(4,5) primary_member [OF assms(4,5)] assms(6)]
    unfolding walk_without firsts_filter .
  ultimately show ?thesis by (simp only: take_without)
qed

text \<open>
  C12. A primary's death loses no replica: when the primary of a partition leaves the
  ring, every backup it had is the new primary or among the new backups, whichever
  member the bounded load now makes primary.
\<close>

theorem survivors_stay_backups:
  assumes "pr_new fl ms n = Inr r" and "pr_primary r p = Inr dead" and "pr_backups r p replicaCount = Inr bs"
    and "pr_new fl (filter (\<lambda>m. m \<noteq> dead) ms) n = Inr r'" and "pr_primary r' p = Inr primary'"
    and "pr_backups r' p replicaCount = Inr bs'"
  shows "set bs \<subseteq> insert primary' (set bs')"
  by (rule survivors_listed [OF assms])

theorem survivors_stay_backups_witness:
  "\<exists>r dead bs r' primary' bs'. pr_new (\<lambda>x. x) [js ''a'', js ''b'', js ''c''] 8 = Inr r
    \<and> pr_primary r 3 = Inr dead \<and> pr_backups r 3 2 = Inr bs
    \<and> pr_new (\<lambda>x. x) (filter (\<lambda>m. m \<noteq> dead) [js ''a'', js ''b'', js ''c'']) 8 = Inr r'
    \<and> pr_primary r' 3 = Inr primary' \<and> pr_backups r' 3 2 = Inr bs' \<and> set bs \<subseteq> insert primary' (set bs')"
proof -
  let ?ms = "[js ''a'', js ''b'', js ''c'']"
  obtain r where r: "pr_new (\<lambda>x. x) ?ms 8 = Inr r"
    by (auto simp: pr_new_Inr isSafeInteger_def js_def)
  obtain bs dead where bs: "pr_backups r 3 2 = Inr bs" "pr_primary r 3 = Inr dead"
    by (rule ring_serves [OF r, of 3 2]) (simp_all add: isSafeInteger_def)
  have "filter (\<lambda>m. m \<noteq> dead) ?ms \<noteq> []" "distinct (filter (\<lambda>m. m \<noteq> dead) ?ms)"
    "[] \<notin> set (filter (\<lambda>m. m \<noteq> dead) ?ms)"
    by (auto simp: js_def)
  then obtain r' where r': "pr_new (\<lambda>x. x) (filter (\<lambda>m. m \<noteq> dead) ?ms) 8 = Inr r'"
    unfolding pr_new_Inr by (simp add: isSafeInteger_def)
  obtain bs' primary' where bs': "pr_backups r' 3 2 = Inr bs'" "pr_primary r' 3 = Inr primary'"
    by (rule ring_serves [OF r', of 3 2]) (simp_all add: isSafeInteger_def)
  show ?thesis
    using r bs r' bs' survivors_stay_backups [OF r bs(2,1) r' bs'(2,1)] by blast
qed

text \<open>
  What a ring refuses: construction raises exactly for a partition count that
  is not a positive safe integer, for no members, for an empty name and for a name
  given twice; a partition id raises exactly when it is outside the ring.
\<close>

lemma ring_range_errors:
  "pr_new fl ms n = (if isSafeInteger n \<and> 0 < n \<and> ms \<noteq> [] \<and> [] \<notin> set ms \<and> distinct ms
     then Inr \<lparr>pr_members = ms, pr_points = buildPoints ms,
               pr_primaries = assignPrimaries fl ms (buildPoints ms) (nat n)\<rparr>
     else Inl RangeError)
   \<and> (pr_primary r p \<noteq> Inl RangeError) = (isSafeInteger p \<and> 0 \<le> p \<and> p < int (pr_partitionCount r))
   \<and> (pr_backups r p k \<noteq> Inl RangeError) = (pr_primary r p \<noteq> Inl RangeError \<and> isSafeInteger k \<and> 0 < k)"
proof (intro conjI)
  have one: "x = Inl RangeError \<or> (\<exists>y. x = Inr y)" for x :: "RangeError + PartitionRing"
    by (cases x) (auto intro: RangeError.exhaust)
  show "pr_new fl ms n = (if isSafeInteger n \<and> 0 < n \<and> ms \<noteq> [] \<and> [] \<notin> set ms \<and> distinct ms
     then Inr \<lparr>pr_members = ms, pr_points = buildPoints ms,
               pr_primaries = assignPrimaries fl ms (buildPoints ms) (nat n)\<rparr>
     else Inl RangeError)"
  proof (cases "isSafeInteger n \<and> 0 < n \<and> ms \<noteq> [] \<and> [] \<notin> set ms \<and> distinct ms")
    case True
    then show ?thesis by (simp add: pr_new_Inr)
  next
    case False
    then have "\<nexists>y. pr_new fl ms n = Inr y" by (auto simp: pr_new_Inr)
    then show ?thesis using one [of "pr_new fl ms n"] False by (simp only: if_False) blast
  qed
qed (auto simp: pr_primary_def pr_backups_def requirePartitionId_def requirePositiveInteger_def
       pr_partitionCount_def Let_def)

end
