(* ===== verification/RoutingTable.thy ===== *)
theory RoutingTable
  imports Ring
begin

text \<open>
  The versioned routing table, \<open>src/kv/routing.table.ts\<close>: the owners of every
  partition, primary last, authored by the coordinator and evolved over membership
  changes.  The theory shows what every table of a history looks like and that an
  owner that is live and has not reported a partition drained is never dropped.
\<close>

section \<open>Tables\<close>

record OwnershipReport =
  or_node :: jsstr
  or_partitions :: "nat list"

record PartitionPlacement =
  pl_owners :: "jsstr list"
  pl_primary :: jsstr
  pl_previousOwners :: "jsstr list"
  pl_backups :: "jsstr list"

record RoutingTable =
  rt_version :: int
  rt_table :: "jsstr list list"

record RoutingTableWire =
  rw_version :: int
  rw_partitions :: "jsstr list list"

fun addReports :: "OwnershipReport list \<Rightarrow> (jsstr, nat set) jsmap \<Rightarrow> (jsstr, nat set) jsmap" where
  "addReports [] held = held"
| "addReports (report # reports) held =
     (let partitions = (case js_get held (or_node report) of None \<Rightarrow> {} | Some ps \<Rightarrow> ps)
      in addReports reports
           (js_set (or_node report) (fold insert (or_partitions report) partitions) held))"

definition aggregateReports :: "OwnershipReport list \<Rightarrow> (jsstr, nat set) jsmap" where
  "aggregateReports reports = addReports reports []"

definition rt_new :: "int \<Rightarrow> jsstr list list \<Rightarrow> RangeError + RoutingTable" where
  "rt_new version owners =
     (if version < 0 then Inl RangeError
      else if list_ex (\<lambda>l. length l = 0) owners then Inl RangeError
      else Inr \<lparr>rt_version = version, rt_table = owners\<rparr>)"

definition rt_partitionCount :: "RoutingTable \<Rightarrow> nat" where
  "rt_partitionCount t = length (rt_table t)"

definition rt_requireId :: "int \<Rightarrow> RoutingTable \<Rightarrow> RangeError + unit" where
  "rt_requireId p t =
     (if \<not> isSafeInteger p \<or> p < 0 \<or> int (length (rt_table t)) \<le> p then Inl RangeError else Inr ())"

definition rt_owners :: "int \<Rightarrow> RoutingTable \<Rightarrow> RangeError + jsstr list" where
  "rt_owners p t = (case rt_requireId p t of Inl e \<Rightarrow> Inl e | Inr _ \<Rightarrow> Inr (rt_table t ! nat p))"

definition rt_primary :: "int \<Rightarrow> RoutingTable \<Rightarrow> RangeError + jsstr" where
  "rt_primary p t = (case rt_owners p t of Inl e \<Rightarrow> Inl e | Inr owners \<Rightarrow> Inr (owners ! (length owners - 1)))"

definition rt_previousOwners :: "int \<Rightarrow> RoutingTable \<Rightarrow> RangeError + jsstr list" where
  "rt_previousOwners p t = (case rt_owners p t of Inl e \<Rightarrow> Inl e | Inr owners \<Rightarrow> Inr (butlast owners))"

definition rt_isFragmented :: "int \<Rightarrow> RoutingTable \<Rightarrow> RangeError + bool" where
  "rt_isFragmented p t = (case rt_owners p t of Inl e \<Rightarrow> Inl e | Inr owners \<Rightarrow> Inr (length owners > 1))"

definition rt_supersedes :: "RoutingTable \<Rightarrow> RoutingTable \<Rightarrow> bool" where
  "rt_supersedes t other \<longleftrightarrow> rt_version t > rt_version other"

definition rt_placement :: "int \<Rightarrow> PartitionRing \<Rightarrow> int \<Rightarrow> RoutingTable \<Rightarrow> RangeError + PartitionPlacement" where
  "rt_placement p ring replicaCount t =
     (case rt_owners p t of
        Inl e \<Rightarrow> Inl e
      | Inr owners \<Rightarrow>
          (case pr_backups ring p replicaCount of
             Inl e \<Rightarrow> Inl e
           | Inr backups \<Rightarrow>
               Inr \<lparr>pl_owners = owners, pl_primary = owners ! (length owners - 1),
                    pl_previousOwners = butlast owners, pl_backups = backups\<rparr>))"

definition rt_toWire :: "RoutingTable \<Rightarrow> RoutingTableWire" where
  "rt_toWire t = \<lparr>rw_version = rt_version t, rw_partitions = map (\<lambda>owners. owners) (rt_table t)\<rparr>"

definition rt_fromWire :: "RoutingTableWire \<Rightarrow> RangeError + RoutingTable" where
  "rt_fromWire wire = rt_new (rw_version wire) (map (\<lambda>owners. owners) (rw_partitions wire))"

text \<open>A list built index by index, stopping at the first that throws.\<close>

fun sequence_sum :: "('e + 'a) list \<Rightarrow> 'e + 'a list" where
  "sequence_sum [] = Inr []"
| "sequence_sum (x # xs) =
     (case x of
        Inl e \<Rightarrow> Inl e
      | Inr a \<Rightarrow> (case sequence_sum xs of Inl e \<Rightarrow> Inl e | Inr as \<Rightarrow> Inr (a # as)))"

definition rt_initial :: "PartitionRing \<Rightarrow> int \<Rightarrow> RangeError + RoutingTable" where
  "rt_initial ring version =
     (case sequence_sum (map (\<lambda>p. case pr_primary ring (int p) of Inl e \<Rightarrow> Inl e | Inr m \<Rightarrow> Inr [m])
                          [0..<pr_partitionCount ring]) of
        Inl e \<Rightarrow> Inl e
      | Inr owners \<Rightarrow> rt_new version owners)"

definition isRetained :: "jsstr \<Rightarrow> jsstr \<Rightarrow> (jsstr, nat set) jsmap \<Rightarrow> jsstr set \<Rightarrow> nat \<Rightarrow> bool" where
  "isRetained owner primary held live p =
     (if owner = primary then False
      else if owner \<notin> live then False
      else (case js_get held owner of None \<Rightarrow> True | Some report \<Rightarrow> p \<in> report))"

definition evolveOwners ::
  "RoutingTable option \<Rightarrow> PartitionRing \<Rightarrow> (jsstr, nat set) jsmap \<Rightarrow> jsstr set \<Rightarrow> nat \<Rightarrow> RangeError + jsstr list" where
  "evolveOwners previous ring held live p =
     (case pr_primary ring (int p) of
        Inl e \<Rightarrow> Inl e
      | Inr primary \<Rightarrow>
          (case previous of
             None \<Rightarrow> Inr [primary]
           | Some t \<Rightarrow>
               (case rt_owners (int p) t of
                  Inl e \<Rightarrow> Inl e
                | Inr owners \<Rightarrow> Inr (filter (\<lambda>owner. isRetained owner primary held live p) owners @ [primary]))))"

definition rt_evolve ::
  "RoutingTable option \<Rightarrow> PartitionRing \<Rightarrow> OwnershipReport list \<Rightarrow> int \<Rightarrow> jsstr set \<Rightarrow> RangeError + RoutingTable" where
  "rt_evolve previous ring reports version live =
     (if (case previous of None \<Rightarrow> False | Some t \<Rightarrow> rt_partitionCount t \<noteq> pr_partitionCount ring)
      then Inl RangeError
      else
        let held = aggregateReports reports in
        case sequence_sum (map (evolveOwners previous ring held live) [0..<pr_partitionCount ring]) of
          Inl e \<Rightarrow> Inl e
        | Inr owners \<Rightarrow> rt_new version owners)"

section \<open>Reports\<close>

lemma fold_insert: "fold insert xs A = set xs \<union> A"
  by (induction xs arbitrary: A) auto

abbreviation held_by :: "(jsstr, nat set) jsmap \<Rightarrow> jsstr \<Rightarrow> nat set" where
  "held_by held n \<equiv> (case js_get held n of None \<Rightarrow> {} | Some ps \<Rightarrow> ps)"

lemma addReports_mem:
  "p \<in> held_by (addReports reports held) n \<longleftrightarrow>
     (\<exists>r \<in> set reports. or_node r = n \<and> p \<in> set (or_partitions r)) \<or> p \<in> held_by held n"
proof (induction reports arbitrary: held n)
  case (Cons r reports)
  show ?case by (cases "n = or_node r") (auto simp: Let_def fold_insert Cons.IH)
qed simp

lemma addReports_None:
  "js_get (addReports reports held) n = None \<longleftrightarrow> n \<notin> or_node ` set reports \<and> js_get held n = None"
  by (induction reports arbitrary: held) (auto simp: Let_def)

definition reported_drained :: "OwnershipReport list \<Rightarrow> jsstr \<Rightarrow> nat \<Rightarrow> bool" where
  "reported_drained reports n p \<longleftrightarrow>
     n \<in> or_node ` set reports \<and> (\<forall>r \<in> set reports. or_node r = n \<longrightarrow> p \<notin> set (or_partitions r))"

lemma isRetained_iff:
  "isRetained owner primary (aggregateReports reports) live p \<longleftrightarrow>
     owner \<noteq> primary \<and> owner \<in> live \<and> \<not> reported_drained reports owner p"
  using addReports_mem [of p reports "[]" owner] addReports_None [of reports "[]" owner]
  by (auto simp: isRetained_def aggregateReports_def reported_drained_def split: option.splits)

section \<open>Construction\<close>

lemma sequence_sum_Inr: "sequence_sum xs = Inr ys \<longleftrightarrow> xs = map Inr ys"
proof
  show "sequence_sum xs = Inr ys \<Longrightarrow> xs = map Inr ys"
    by (induction xs arbitrary: ys) (auto split: sum.splits)
  have "sequence_sum (map Inr ys) = Inr ys" by (induction ys) simp_all
  then show "xs = map Inr ys \<Longrightarrow> sequence_sum xs = Inr ys" by simp
qed

definition rt_ok :: "RoutingTable \<Rightarrow> bool" where
  "rt_ok t \<longleftrightarrow> 0 \<le> rt_version t \<and> (\<forall>owners \<in> set (rt_table t). owners \<noteq> [] \<and> distinct owners)"

lemma rt_new_Inr:
  "rt_new v owners = Inr t \<longleftrightarrow> 0 \<le> v \<and> [] \<notin> set owners \<and> t = \<lparr>rt_version = v, rt_table = owners\<rparr>"
  by (auto simp: rt_new_def list_ex_iff)

lemma pr_primary_Inr: "pr_primary ring p = Inr m \<Longrightarrow> 0 \<le> p \<and> nat p < pr_partitionCount ring \<and> m = pr_primaries ring ! nat p"
  by (auto simp: pr_primary_def requirePartitionId_def pr_partitionCount_def split: if_splits)

lemma rt_owners_Inr: "rt_owners (int p) t = Inr os \<Longrightarrow> p < rt_partitionCount t \<and> os = rt_table t ! p"
  by (auto simp: rt_owners_def rt_requireId_def rt_partitionCount_def split: if_splits)

lemma rt_initial_Inr:
  assumes "rt_initial ring v = Inr t"
  shows "rt_ok t \<and> rt_version t = v \<and> rt_table t = map (\<lambda>m. [m]) (pr_primaries ring)"
proof -
  obtain owners where own: "map (\<lambda>p. case pr_primary ring (int p) of Inl e \<Rightarrow> Inl e | Inr m \<Rightarrow> Inr [m])
      [0..<pr_partitionCount ring] = map Inr owners" "rt_new v owners = Inr t"
    using assms by (auto simp: rt_initial_def sequence_sum_Inr split: sum.splits)
  have len: "length owners = pr_partitionCount ring" using own(1) map_eq_imp_length_eq by fastforce
  have "owners = map (\<lambda>m. [m]) (pr_primaries ring)"
  proof (rule nth_equalityI)
    fix i assume i: "i < length owners"
    then have "(case pr_primary ring (int i) of Inl e \<Rightarrow> Inl e | Inr m \<Rightarrow> Inr [m]) = (Inr (owners ! i) :: RangeError + _)"
      using own(1) len by (metis (no_types, lifting) add_0 length_upt minus_nat.diff_0 nth_map nth_upt)
    then show "owners ! i = map (\<lambda>m. [m]) (pr_primaries ring) ! i"
      using i len pr_primary_Inr [of ring "int i"] by (auto simp: pr_partitionCount_def split: sum.splits)
  qed (simp add: len pr_partitionCount_def)
  then show ?thesis using own(2) by (auto simp: rt_new_Inr rt_ok_def)
qed

lemma rt_evolve_Inr:
  assumes "rt_evolve (Some t) ring reports v live = Inr t'"
  shows "rt_partitionCount t = pr_partitionCount ring \<and> rt_version t' = v \<and> 0 \<le> v
    \<and> rt_table t' = map (\<lambda>p. filter (\<lambda>w. w \<noteq> pr_primaries ring ! p \<and> w \<in> live \<and> \<not> reported_drained reports w p)
        (rt_table t ! p) @ [pr_primaries ring ! p]) [0..<pr_partitionCount ring]"
proof -
  let ?n = "pr_partitionCount ring"
  obtain owners where own: "map (evolveOwners (Some t) ring (aggregateReports reports) live) [0..<?n] = map Inr owners"
      "rt_new v owners = Inr t'" "rt_partitionCount t = ?n"
    using assms by (auto simp: rt_evolve_def sequence_sum_Inr Let_def split: sum.splits if_splits)
  have len: "length owners = ?n" using own(1) map_eq_imp_length_eq by fastforce
  have "owners = map (\<lambda>p. filter (\<lambda>w. w \<noteq> pr_primaries ring ! p \<and> w \<in> live \<and> \<not> reported_drained reports w p)
        (rt_table t ! p) @ [pr_primaries ring ! p]) [0..<?n]"
  proof (rule nth_equalityI)
    fix i assume i: "i < length owners"
    then have "evolveOwners (Some t) ring (aggregateReports reports) live i = Inr (owners ! i)"
      using own(1) len by (metis (no_types, lifting) add_0 length_upt minus_nat.diff_0 nth_map nth_upt)
    then obtain primary os where "pr_primary ring (int i) = Inr primary" "rt_owners (int i) t = Inr os"
      "owners ! i = filter (\<lambda>owner. isRetained owner primary (aggregateReports reports) live i) os @ [primary]"
      by (auto simp: evolveOwners_def split: sum.splits)
    then show "owners ! i = map (\<lambda>p. filter (\<lambda>w. w \<noteq> pr_primaries ring ! p \<and> w \<in> live \<and> \<not> reported_drained reports w p)
        (rt_table t ! p) @ [pr_primaries ring ! p]) [0..<?n] ! i"
      using i len pr_primary_Inr [of ring "int i" primary] rt_owners_Inr [of i t os] by (simp add: isRetained_iff)
  qed (simp add: len)
  then show ?thesis using own(2,3) by (simp add: rt_new_Inr)
qed

section \<open>Histories\<close>

record RoutingUpdate =
  ru_ring :: PartitionRing
  ru_reports :: "OwnershipReport list"
  ru_version :: int
  ru_live :: "jsstr set"

fun rt_history :: "RoutingUpdate list \<Rightarrow> RoutingTable \<Rightarrow> RangeError + RoutingTable" where
  "rt_history [] t = Inr t"
| "rt_history (u # us) t =
     (case rt_evolve (Some t) (ru_ring u) (ru_reports u) (ru_version u) (ru_live u) of
        Inl e \<Rightarrow> Inl e | Inr t' \<Rightarrow> rt_history us t')"

lemma rt_evolve_ok: "rt_ok t \<Longrightarrow> rt_evolve (Some t) ring reports v live = Inr t' \<Longrightarrow> rt_ok t'"
  using rt_evolve_Inr [of t ring reports v live t']
  by (auto simp: rt_ok_def rt_partitionCount_def)

lemma rt_history_last:
  assumes "rt_ok t1" "rt_history us t1 = Inr t" "us \<noteq> []"
  shows "rt_ok t \<and> rt_partitionCount t = rt_partitionCount t1 \<and>
    (\<exists>t2. rt_evolve (Some t2) (ru_ring (last us)) (ru_reports (last us)) (ru_version (last us)) (ru_live (last us)) = Inr t)"
  using assms
proof (induction us arbitrary: t1)
  case (Cons u us)
  obtain t' where t': "rt_evolve (Some t1) (ru_ring u) (ru_reports u) (ru_version u) (ru_live u) = Inr t'"
    "rt_history us t' = Inr t"
    using Cons.prems(2) by (auto split: sum.splits)
  have "rt_partitionCount t' = rt_partitionCount t1" using rt_evolve_Inr [OF t'(1)] by (simp add: rt_partitionCount_def)
  then show ?case using Cons.IH [OF rt_evolve_ok [OF Cons.prems(1) t'(1)] t'(2)] t' rt_evolve_ok [OF Cons.prems(1) t'(1)]
    by (cases "us = []") auto
qed simp

lemma initial_owners:
  assumes "pr_new fl ms n = Inr r" and "rt_initial r v = Inr t" and "p < nat n" and "n \<le> 100"
  shows "rt_owners (int p) t = Inr [pr_primaries r ! p]" and "rt_primary (int p) t = Inr (pr_primaries r ! p)"
    and "pr_primary r (int p) = Inr (pr_primaries r ! p)"
proof -
  have len: "length (pr_primaries r) = nat n" by (rule primaries_members(2) [OF assms(1)])
  have "isSafeInteger (int p)" "0 \<le> n" "int p < n" using assms(3,4) by (auto simp: isSafeInteger_def)
  then show "rt_owners (int p) t = Inr [pr_primaries r ! p]" "pr_primary r (int p) = Inr (pr_primaries r ! p)"
    using rt_initial_Inr [OF assms(2)] len assms(3)
    by (simp_all add: rt_owners_def rt_requireId_def pr_primary_def requirePartitionId_def)
  then show "rt_primary (int p) t = Inr (pr_primaries r ! p)" by (simp add: rt_primary_def)
qed

lemma initial_defined: "pr_new fl ms n = Inr r \<Longrightarrow> n \<le> 100 \<Longrightarrow> 0 \<le> v \<Longrightarrow> \<exists>t. rt_initial r v = Inr t"
proof -
  assume new: "pr_new fl ms n = Inr r" and n: "n \<le> 100" and v: "0 \<le> v"
  have "pr_primary r (int p) = Inr (pr_primaries r ! p)" if "p < pr_partitionCount r" for p
    using that n primaries_members(2) [OF new]
    by (auto simp: pr_primary_def requirePartitionId_def isSafeInteger_def pr_partitionCount_def)
  then have "map (\<lambda>p. case pr_primary r (int p) of Inl e \<Rightarrow> Inl e | Inr m \<Rightarrow> Inr [m]) [0..<pr_partitionCount r]
      = map Inr (map (\<lambda>p. [pr_primaries r ! p]) [0..<pr_partitionCount r])"
    by simp
  then have "sequence_sum (map (\<lambda>p. case pr_primary r (int p) of Inl e \<Rightarrow> Inl e | Inr m \<Rightarrow> Inr [m]) [0..<pr_partitionCount r])
      = Inr (map (\<lambda>p. [pr_primaries r ! p]) [0..<pr_partitionCount r])"
    unfolding sequence_sum_Inr .
  then show "\<exists>t. rt_initial r v = Inr t" using v by (auto simp: rt_initial_def rt_new_def list_ex_iff)
qed

text \<open>
  Every table of a history is well formed: each partition has at least one
  owner and no owner twice, its primary is the one the last ring assigns, and every
  other owner was live when the table was made.
\<close>

lemma tables_well_formed:
  assumes "rt_initial ring v = Inr t0" and "rt_history us t0 = Inr t" and "us \<noteq> []"
    and "p < pr_partitionCount (ru_ring (last us))"
  shows "rt_partitionCount t = pr_partitionCount ring \<and> distinct (rt_table t ! p)
    \<and> rt_primary (int p) t = pr_primary (ru_ring (last us)) (int p)
    \<and> set (butlast (rt_table t ! p)) \<subseteq> ru_live (last us)"
proof -
  have init: "rt_ok t0" "rt_partitionCount t0 = pr_partitionCount ring"
    using rt_initial_Inr [OF assms(1)] by (auto simp: rt_partitionCount_def pr_partitionCount_def)
  obtain t2 where ok: "rt_ok t" "rt_partitionCount t = pr_partitionCount ring"
    "rt_evolve (Some t2) (ru_ring (last us)) (ru_reports (last us)) (ru_version (last us)) (ru_live (last us)) = Inr t"
    using rt_history_last [OF init(1) assms(2,3)] init(2) by auto
  have row: "rt_table t ! p = filter (\<lambda>w. w \<noteq> pr_primaries (ru_ring (last us)) ! p \<and> w \<in> ru_live (last us)
      \<and> \<not> reported_drained (ru_reports (last us)) w p) (rt_table t2 ! p) @ [pr_primaries (ru_ring (last us)) ! p]"
    and cnt: "rt_partitionCount t = pr_partitionCount (ru_ring (last us))"
    using rt_evolve_Inr [OF ok(3)] assms(4) by (simp_all add: rt_partitionCount_def)
  have "distinct (rt_table t ! p)" using ok(1) cnt assms(4) by (auto simp: rt_ok_def rt_partitionCount_def)
  moreover have "rt_primary (int p) t = pr_primary (ru_ring (last us)) (int p)"
    using cnt assms(4) row by (auto simp: rt_primary_def pr_primary_def rt_owners_def rt_requireId_def requirePartitionId_def
        rt_partitionCount_def pr_partitionCount_def nth_append)
  moreover have "set (butlast (rt_table t ! p)) \<subseteq> ru_live (last us)" unfolding row by auto
  ultimately show ?thesis using ok(2) by simp
qed

text \<open>
  C30. No owner with data is forgotten: an owner of a partition stays an owner through
  every later table as long as it is live in each update and no update has a
  report of it that leaves the partition out.
\<close>

theorem holder_stays_owner:
  assumes "rt_history us t = Inr t'" and "p < rt_partitionCount t" and "holder \<in> set (rt_table t ! p)"
    and "\<forall>u \<in> set us. holder \<in> ru_live u \<and> \<not> reported_drained (ru_reports u) holder p"
  shows "holder \<in> set (rt_table t' ! p)"
  using assms
proof (induction us arbitrary: t)
  case (Cons u us)
  obtain t1 where t1: "rt_evolve (Some t) (ru_ring u) (ru_reports u) (ru_version u) (ru_live u) = Inr t1"
    "rt_history us t1 = Inr t'"
    using Cons.prems(1) by (auto split: sum.splits)
  have "p < rt_partitionCount t1" "holder \<in> set (rt_table t1 ! p)"
    using rt_evolve_Inr [OF t1(1)] Cons.prems(2-4) by (auto simp: rt_partitionCount_def)
  then show ?case using Cons.IH [OF t1(2)] Cons.prems(4) by simp
qed simp

theorem holder_stays_owner_witness:
  "\<exists>u t t'. rt_history [u] t = Inr t' \<and> rt_table t = [[js ''a'']]
     \<and> pr_primary (ru_ring u) 0 = Inr (js ''b'') \<and> js ''a'' \<in> set (rt_table t' ! 0)"
proof -
  let ?r = "\<lparr>pr_members = [js ''b''], pr_points = [], pr_primaries = [js ''b'']\<rparr>"
  let ?u = "\<lparr>ru_ring = ?r, ru_reports = [\<lparr>or_node = js ''a'', or_partitions = [0]\<rparr>], ru_version = 2,
              ru_live = {js ''a'', js ''b''}\<rparr>"
  let ?t = "\<lparr>rt_version = 1, rt_table = [[js ''a'']]\<rparr>"
  obtain t' where t': "rt_history [?u] ?t = Inr t'"
    by (simp add: rt_evolve_def rt_partitionCount_def pr_partitionCount_def evolveOwners_def pr_primary_def
        requirePartitionId_def isSafeInteger_def rt_owners_def rt_requireId_def rt_new_def Let_def)
  have "js ''a'' \<in> set (rt_table t' ! 0)"
    by (rule holder_stays_owner [OF t', of 0]) (simp_all add: rt_partitionCount_def reported_drained_def)
  moreover have "pr_primary ?r 0 = Inr (js ''b'')"
    by (simp add: pr_primary_def requirePartitionId_def isSafeInteger_def)
  ultimately show ?thesis using t' by (intro exI [of _ ?u] exI [of _ ?t] exI [of _ t']) simp
qed

end
