(* ===== verification/Recovery.thy ===== *)
theory Recovery
  imports PrimaryBackup RoutingTable
begin

text \<open>
  Departure and recovery, \<open>src/kv/recovery.ts\<close>: what a node does with a new routing
  table.  A partition whose primary died is marked recovering and pulled from every
  backup before the mark is cleared; fresh backups are refilled; a demoted fragment
  is drained to its new primary.  The live members are an argument of what reads the
  membership view.  A pull in flight is a cursor that waits for a page, a page that
  has been served and not applied, or settled; the pages of different pulls
  interleave with each other and with everything else the nodes do, in any order.

  The theory shows that the small steps of a pull are the loop of
  \<open>src/kv/fragment.ts\<close>, that the mark stands until every pull has settled, that what
  a reachable backup holds is at the promoted primary by then, and that a drain
  drops a fragment only after the new primary has it.
\<close>

section \<open>State and operations\<close>

record CrashPromotion =
  cp_partition :: nat
  cp_placement :: PartitionPlacement

datatype pull_state = Asking "jsstr option" | Answered "jsstr option" "FragmentChunk option" | Settled

record RecoverRun =
  ru_partition :: nat
  ru_pulls :: "(jsstr \<times> pull_state) list"

record Recovery =
  rc_self :: jsstr
  rc_engine :: Engine
  rc_replicaCount :: int
  rc_recovering :: "nat set"
  rc_table :: "RoutingTable option"
  rc_ring :: "PartitionRing option"
  rc_runs :: "RecoverRun list"

definition rc_new :: "Engine \<Rightarrow> jsstr \<Rightarrow> int \<Rightarrow> Recovery" where
  "rc_new en self replicaCount =
     \<lparr>rc_self = self, rc_engine = en, rc_replicaCount = replicaCount, rc_recovering = {}, rc_table = None,
      rc_ring = None, rc_runs = []\<rparr>"

definition rc_isRecovering :: "nat \<Rightarrow> Recovery \<Rightarrow> bool" where
  "rc_isRecovering p rc \<longleftrightarrow> p \<in> rc_recovering rc"

definition rc_isLive :: "jsstr \<Rightarrow> jsstr list \<Rightarrow> bool" where
  "rc_isLive name members \<longleftrightarrow> list_ex (\<lambda>member. member = name) members"

definition rc_isCrashPromotion ::
  "jsstr list \<Rightarrow> RoutingTable option \<Rightarrow> nat \<Rightarrow> PartitionPlacement \<Rightarrow> jsstr \<Rightarrow> RangeError + bool" where
  "rc_isCrashPromotion members previous p placement self =
     (if pl_primary placement \<noteq> self \<or> length (pl_owners placement) > 1 then Inr False
      else
        (case previous of
           None \<Rightarrow> Inr False
         | Some t \<Rightarrow>
             (case rt_primary (int p) t of
                Inl err \<Rightarrow> Inl err
              | Inr priorPrimary \<Rightarrow>
                  if priorPrimary = self then Inr False else Inr (\<not> rc_isLive priorPrimary members))))"

text \<open>The loop over the partitions, up to the first that throws.\<close>

fun rc_sortPartitions ::
  "jsstr list \<Rightarrow> RoutingTable option \<Rightarrow> RoutingTable \<Rightarrow> PartitionRing \<Rightarrow> nat list
     \<Rightarrow> CrashPromotion list \<times> nat list \<Rightarrow> Recovery \<Rightarrow> (RangeError + CrashPromotion list \<times> nat list) \<times> Recovery" where
  "rc_sortPartitions members previous table ring [] found rc = (Inr found, rc)"
| "rc_sortPartitions members previous table ring (p # ps) (promotions, refills) rc =
     (case rt_placement (int p) ring (rc_replicaCount rc) table of
        Inl err \<Rightarrow> (Inl err, rc)
      | Inr placement \<Rightarrow>
          if pl_primary placement \<noteq> rc_self rc
          then rc_sortPartitions members previous table ring ps (promotions, refills) rc
          else
            (case rc_isCrashPromotion members previous p placement (rc_self rc) of
               Inl err \<Rightarrow> (Inl err, rc)
             | Inr True \<Rightarrow>
                 rc_sortPartitions members previous table ring ps
                   (promotions @ [\<lparr>cp_partition = p, cp_placement = placement\<rparr>], refills)
                   (rc\<lparr>rc_recovering := insert p (rc_recovering rc)\<rparr>)
             | Inr False \<Rightarrow>
                 rc_sortPartitions members previous table ring ps (promotions, refills @ [p]) rc))"

definition rc_freshBackups ::
  "nat \<Rightarrow> PartitionRing option \<Rightarrow> PartitionRing \<Rightarrow> int \<Rightarrow> RangeError + jsstr list" where
  "rc_freshBackups p previousRing ring replicaCount =
     (case previousRing of
        None \<Rightarrow> Inr []
      | Some previous \<Rightarrow>
          (case pr_backups previous (int p) replicaCount of
             Inl err \<Rightarrow> Inl err
           | Inr before \<Rightarrow>
               (case pr_backups ring (int p) replicaCount of
                  Inl err \<Rightarrow> Inl err
                | Inr backups \<Rightarrow> Inr (filter (\<lambda>backup. backup \<notin> set before) backups))))"

text \<open>
  A refill with the pushes taken one after another; \<open>nets\<close> gives what the carrier does
  to the chunks for each backup and \<open>meanwhile\<close> the backup's other traffic.  A push
  always returns.
\<close>

fun rc_pushAll ::
  "(jsstr \<Rightarrow> nat \<Rightarrow> delivery) \<Rightarrow> (nat \<Rightarrow> Engine \<Rightarrow> Engine) \<Rightarrow> nat \<Rightarrow> Engine \<Rightarrow> jsstr list \<Rightarrow> nodes
     \<Rightarrow> (bool list \<times> nodes) option" where
  "rc_pushAll nets meanwhile p en [] ns = Some ([], ns)"
| "rc_pushAll nets meanwhile p en (backup # backups) ns =
     (case ft_push (nets backup) meanwhile p en (ns backup) of
        None \<Rightarrow> None
      | Some (ok, peer) \<Rightarrow>
          (case rc_pushAll nets meanwhile p en backups (ns(backup := peer)) of
             None \<Rightarrow> None
           | Some (oks, ns') \<Rightarrow> Some (ok # oks, ns')))"

definition rc_refill ::
  "(jsstr \<Rightarrow> nat \<Rightarrow> delivery) \<Rightarrow> (nat \<Rightarrow> Engine \<Rightarrow> Engine) \<Rightarrow> nat \<Rightarrow> PartitionRing option \<Rightarrow> PartitionRing
     \<Rightarrow> Recovery \<Rightarrow> nodes \<Rightarrow> RangeError + nodes option" where
  "rc_refill nets meanwhile p previousRing ring rc ns =
     (case rc_freshBackups p previousRing ring (rc_replicaCount rc) of
        Inl err \<Rightarrow> Inl err
      | Inr fresh \<Rightarrow> Inr (map_option snd (rc_pushAll nets meanwhile p (rc_engine rc) fresh ns)))"

text \<open>The first half of \<open>recover\<close>: one pull per backup is submitted.\<close>

definition rc_recover :: "CrashPromotion \<Rightarrow> RecoverRun" where
  "rc_recover promotion =
     \<lparr>ru_partition = cp_partition promotion,
      ru_pulls = map (\<lambda>backup. (backup, Asking None)) (pl_backups (cp_placement promotion))\<rparr>"

definition rc_onTable ::
  "jsstr list \<Rightarrow> RoutingTable \<Rightarrow> PartitionRing \<Rightarrow> Recovery \<Rightarrow> (RangeError + nat list) \<times> Recovery" where
  "rc_onTable members table ring rc =
     (let previousTable = rc_table rc;
          rc = rc\<lparr>rc_table := Some table, rc_ring := Some ring\<rparr> in
      case rc_sortPartitions members previousTable table ring [0..<rt_partitionCount table] ([], []) rc of
        (Inl err, rc) \<Rightarrow> (Inl err, rc)
      | (Inr (promotions, refills), rc) \<Rightarrow>
          (Inr refills, rc\<lparr>rc_runs := rc_runs rc @ map rc_recover promotions\<rparr>))"

text \<open>What a pull does with the answer to its page request, one turn of the loop of \<open>pages\<close>.\<close>

fun rc_pullTurn :: "jsstr option \<Rightarrow> FragmentChunk option \<Rightarrow> Engine \<Rightarrow> pull_state \<times> Engine" where
  "rc_pullTurn afterKey None en = (Settled, en)"
| "rc_pullTurn afterKey (Some chunk) en =
     (let en' = ft_applyChunk chunk en in
      if fc_final chunk then (Settled, en')
      else
        (case lastKeyOf chunk of
           None \<Rightarrow> (Settled, en')
         | Some nextKey \<Rightarrow>
             if (case afterKey of None \<Rightarrow> False | Some k \<Rightarrow> nextKey \<le> k) then (Settled, en')
             else (Asking (Some nextKey), en')))"

definition rc_setPull :: "nat \<Rightarrow> nat \<Rightarrow> pull_state \<Rightarrow> Recovery \<Rightarrow> Recovery" where
  "rc_setPull i j s rc =
     (let run = rc_runs rc ! i
      in rc\<lparr>rc_runs := (rc_runs rc)[i := run\<lparr>ru_pulls := (ru_pulls run)[j := (fst (ru_pulls run ! j), s)]\<rparr>]\<rparr>)"

definition rc_applyAnswer :: "nat \<Rightarrow> nat \<Rightarrow> jsstr option \<Rightarrow> FragmentChunk option \<Rightarrow> Recovery \<Rightarrow> Recovery" where
  "rc_applyAnswer i j afterKey answer rc =
     (let (s, en) = rc_pullTurn afterKey answer (rc_engine rc)
      in (rc_setPull i j s rc)\<lparr>rc_engine := en\<rparr>)"

text \<open>The \<open>finally\<close> of \<open>recover\<close>, once every pull has settled.\<close>

definition rc_pullsDone :: "nat \<Rightarrow> Recovery \<Rightarrow> Recovery" where
  "rc_pullsDone i rc = rc\<lparr>rc_recovering := rc_recovering rc - {ru_partition (rc_runs rc ! i)}\<rparr>"

definition rc_demoted :: "RoutingTable \<Rightarrow> jsstr \<Rightarrow> nat list" where
  "rc_demoted table self =
     filter (\<lambda>p. let owners = rt_table table ! p in owners ! (length owners - 1) \<noteq> self \<and> self \<in> set owners)
       [0..<rt_partitionCount table]"

text \<open>
  \<open>during\<close> is what other traffic makes of the local engine while the push is under
  way; the push sends the fragment as it was at the start.
\<close>

definition rc_drainOne ::
  "(nat \<Rightarrow> delivery) \<Rightarrow> (nat \<Rightarrow> Engine \<Rightarrow> Engine) \<Rightarrow> (Engine \<Rightarrow> Engine) \<Rightarrow> nat \<Rightarrow> RoutingTable \<Rightarrow> PartitionRing
     \<Rightarrow> Recovery \<Rightarrow> nodes \<Rightarrow> RangeError + (bool \<times> Recovery \<times> nodes) option" where
  "rc_drainOne net meanwhile during p table ring rc ns =
     (case rt_primary (int p) table of
        Inl err \<Rightarrow> Inl err
      | Inr primary \<Rightarrow>
          (case ft_push net meanwhile p (rc_engine rc) (ns primary) of
             None \<Rightarrow> Inr None
           | Some (pushed, peer) \<Rightarrow>
               let rc = rc\<lparr>rc_engine := during (rc_engine rc)\<rparr>; ns = ns(primary := peer) in
               if pushed
               then (case pr_backups ring (int p) (rc_replicaCount rc) of
                       Inl err \<Rightarrow> Inl err
                     | Inr backups \<Rightarrow>
                         if rc_self rc \<notin> set backups
                         then Inr (Some (True, rc\<lparr>rc_engine := en_drop p (rc_engine rc)\<rparr>, ns))
                         else Inr (Some (True, rc, ns)))
               else Inr (Some (False, rc, ns))))"

fun rc_drainAll ::
  "(nat \<Rightarrow> nat \<Rightarrow> delivery) \<Rightarrow> (nat \<Rightarrow> Engine \<Rightarrow> Engine) \<Rightarrow> (Engine \<Rightarrow> Engine) \<Rightarrow> RoutingTable \<Rightarrow> PartitionRing
     \<Rightarrow> nat list \<Rightarrow> Recovery \<Rightarrow> nodes \<Rightarrow> RangeError + (bool list \<times> Recovery \<times> nodes) option" where
  "rc_drainAll nets meanwhile during table ring [] rc ns = Inr (Some ([], rc, ns))"
| "rc_drainAll nets meanwhile during table ring (p # ps) rc ns =
     (case rc_drainOne (nets p) meanwhile during p table ring rc ns of
        Inl err \<Rightarrow> Inl err
      | Inr None \<Rightarrow> Inr None
      | Inr (Some (ok, rc, ns)) \<Rightarrow>
          (case rc_drainAll nets meanwhile during table ring ps rc ns of
             Inl err \<Rightarrow> Inl err
           | Inr None \<Rightarrow> Inr None
           | Inr (Some (oks, rc, ns)) \<Rightarrow> Inr (Some (ok # oks, rc, ns))))"

definition rc_drain ::
  "(nat \<Rightarrow> nat \<Rightarrow> delivery) \<Rightarrow> (nat \<Rightarrow> Engine \<Rightarrow> Engine) \<Rightarrow> (Engine \<Rightarrow> Engine) \<Rightarrow> RoutingTable \<Rightarrow> PartitionRing
     \<Rightarrow> Recovery \<Rightarrow> nodes \<Rightarrow> RangeError + (bool \<times> Recovery \<times> nodes) option" where
  "rc_drain nets meanwhile during table ring rc ns =
     (case rc_drainAll nets meanwhile during table ring (rc_demoted table (rc_self rc)) rc ns of
        Inl err \<Rightarrow> Inl err
      | Inr None \<Rightarrow> Inr None
      | Inr (Some (oks, rc, ns)) \<Rightarrow> Inr (Some (list_all (\<lambda>done. done) oks, rc, ns)))"

definition rc_shouldReseed :: "int \<Rightarrow> bool" where
  "rc_shouldReseed awayMs \<longleftrightarrow> awayMs > TOMBSTONE_TTL_MS"

definition rc_reseed :: "(nat \<Rightarrow> jsstr option \<Rightarrow> FragmentChunk option) \<Rightarrow> nat \<Rightarrow> Recovery \<Rightarrow> Recovery option" where
  "rc_reseed reply p rc =
     map_option (\<lambda>en. rc\<lparr>rc_engine := en\<rparr>) (ft_pull reply (en_drop p (rc_engine rc)))"

section \<open>Steps of a recovering node\<close>

text \<open>
  The node with its peers.  A peer answers a page request from its fragment of that
  moment; a peer outside \<open>up\<close> may fail to answer; a run whose pulls have all settled
  clears its mark; and every node's store may gain entries at any time.
\<close>

definition grows :: "Engine \<Rightarrow> Engine \<Rightarrow> bool" where
  "grows en en' \<longleftrightarrow> gains en en' \<and> sr_partitionCount (en_store en') = sr_partitionCount (en_store en)"

definition pull_at :: "nat \<Rightarrow> nat \<Rightarrow> Recovery \<Rightarrow> jsstr \<Rightarrow> pull_state \<Rightarrow> bool" where
  "pull_at i j rc peer s \<longleftrightarrow>
     i < length (rc_runs rc) \<and> j < length (ru_pulls (rc_runs rc ! i)) \<and> ru_pulls (rc_runs rc ! i) ! j = (peer, s)"

inductive rc_step :: "jsstr set \<Rightarrow> Recovery \<times> nodes \<Rightarrow> Recovery \<times> nodes \<Rightarrow> bool" for up where
  serve: "pull_at i j rc peer (Asking afterKey) \<Longrightarrow>
    rc_step up (rc, ns)
      (rc_setPull i j (Answered afterKey (Some (ft_servePage (ru_partition (rc_runs rc ! i)) afterKey (ns peer)))) rc, ns)"
| silent: "pull_at i j rc peer (Asking afterKey) \<Longrightarrow> peer \<notin> up \<Longrightarrow>
    rc_step up (rc, ns) (rc_setPull i j (Answered afterKey None) rc, ns)"
| answer: "pull_at i j rc peer (Answered afterKey reply) \<Longrightarrow>
    rc_step up (rc, ns) (rc_applyAnswer i j afterKey reply rc, ns)"
| finish: "i < length (rc_runs rc) \<Longrightarrow> \<forall>pull \<in> set (ru_pulls (rc_runs rc ! i)). snd pull = Settled \<Longrightarrow>
    rc_step up (rc, ns) (rc_pullsDone i rc, ns)"
| local_traffic: "grows (rc_engine rc) en \<Longrightarrow> rc_step up (rc, ns) (rc\<lparr>rc_engine := en\<rparr>, ns)"
| peer_traffic: "grows (ns b) en \<Longrightarrow> rc_step up (rc, ns) (rc, ns(b := en))"

section \<open>Pulls in small steps\<close>

lemma pull_turn_pages:
  "ft_pages reply ft_applyChunk n afterKey en =
     (case rc_pullTurn afterKey (reply n afterKey) en of
        (Asking k, en') \<Rightarrow> ft_pages reply ft_applyChunk (n + 1) k en'
      | (_, en') \<Rightarrow> Some en')"
  by (subst ft_pages.simps) (auto simp: Let_def split: option.splits if_splits)

lemma page_takes:
  assumes "keyed srt" and "d \<in> set srt" and "beyond afterKey d"
  shows "d \<in> set (fc_entries (pageAfter srt p afterKey))
    \<or> (\<not> fc_final (pageAfter srt p afterKey) \<and> (\<exists>k. lastKeyOf (pageAfter srt p afterKey) = Some k
         \<and> beyond (Some k) d \<and> (case afterKey of None \<Rightarrow> True | Some a \<Rightarrow> a < k)))"
proof -
  let ?c = "pageAfter srt p afterKey"
  have d: "d \<in> set (filter (beyond afterKey) srt)" using assms(2,3) by simp
  show ?thesis
  proof (cases "fc_final ?c")
    case True
    then have "filter (beyond afterKey) srt = fc_entries ?c" using page_slice [OF assms(1), of afterKey p] by auto
    then show ?thesis using d by simp
  next
    case False
    then obtain k where k: "lastKeyOf ?c = Some k"
      "filter (beyond afterKey) srt = fc_entries ?c @ filter (beyond (Some k)) srt"
      "case afterKey of None \<Rightarrow> True | Some a \<Rightarrow> a < k"
      using page_next [OF assms(1) False] by blast
    then show ?thesis using d False unfolding k(2) by auto
  qed
qed

text \<open>What the state of a pull owes an entry that its peer holds.\<close>

definition page_covers :: "Entry \<Rightarrow> jsstr option \<Rightarrow> FragmentChunk \<Rightarrow> bool" where
  "page_covers e afterKey chunk \<longleftrightarrow>
     (\<exists>d \<in> set (fc_entries chunk). e_key d = e_key e \<and> e_timestamp e \<le> e_timestamp d)
     \<or> (\<not> fc_final chunk \<and> (\<exists>k. lastKeyOf chunk = Some k \<and> beyond (Some k) e
          \<and> (case afterKey of None \<Rightarrow> True | Some a \<Rightarrow> a < k)))"

fun pull_covers :: "Entry \<Rightarrow> Engine \<Rightarrow> pull_state \<Rightarrow> bool" where
  "pull_covers e en (Asking afterKey) \<longleftrightarrow> holds e (en_lookup en) \<or> beyond afterKey e"
| "pull_covers e en (Answered afterKey (Some chunk)) \<longleftrightarrow> holds e (en_lookup en) \<or> page_covers e afterKey chunk"
| "pull_covers e en (Answered afterKey None) \<longleftrightarrow> holds e (en_lookup en)"
| "pull_covers e en Settled \<longleftrightarrow> holds e (en_lookup en)"

lemma pull_covers_gains: "gains en en' \<Longrightarrow> pull_covers e en s \<Longrightarrow> pull_covers e en' s"
  using gains_holds [of en en' e] by (cases "(e, en, s)" rule: pull_covers.cases) auto

lemma pull_covers_held: "holds e (en_lookup en) \<Longrightarrow> pull_covers e en s"
  by (cases "(e, en, s)" rule: pull_covers.cases) auto

lemma lookup_key:
  assumes "sr_inv (en_store en)" and "en_lookup en k = Some e"
  shows "e_key e = k"
proof -
  obtain p where p: "js_get (sr_partitions (en_store en)) (sr_partitionFor k (en_store en)) = Some p" "pt_peek k p = Some e"
    using assms(2) unfolding sr_lookup_def sr_peek_def by (auto split: option.splits)
  have "pt_keyed (pt_entries p)" using conjunct1 [OF sr_inv_get [OF assms(1) p(1)]] by (simp add: pt_inv_def)
  then show ?thesis using p(2) pt_keyed_get by (simp add: pt_peek_def)
qed

lemma served_page_covers:
  assumes "sr_inv (en_store peer)" and "holds e (en_lookup peer)" and "en_partitionFor (e_key e) peer = p"
    and "beyond afterKey e"
  shows "page_covers e afterKey (ft_servePage p afterKey peer)"
proof -
  obtain d where d: "en_lookup peer (e_key e) = Some d" "e_timestamp e \<le> e_timestamp d"
    using assms(2) by (auto simp: holds_def)
  have k: "e_key d = e_key e" by (rule lookup_key [OF assms(1) d(1)])
  have "d \<in> set (en_snapshot p peer)" using lookup_in_snapshot [OF d(1)] assms(3) by simp
  then have "d \<in> set (ft_sortedFragment p peer)" "keyed (ft_sortedFragment p peer)"
    using snapshot_distinct [OF assms(1)] by (simp_all add: ft_sortedFragment_def sort_set sort_keyed)
  moreover have b: "beyond c d \<longleftrightarrow> beyond c e" for c using k by (simp add: beyond_def split: option.splits)
  ultimately show ?thesis
    using page_takes [of "ft_sortedFragment p peer" d afterKey p] assms(4) d(2) k
    unfolding page_covers_def ft_servePage_def b by blast
qed

lemma pullTurn_gains: "sr_inv (en_store en) \<Longrightarrow> gains en (snd (rc_pullTurn afterKey reply en))"
  using applyChunk_gains [of en] by (cases reply) (auto simp: gains_refl Let_def split: option.splits)

lemma pullTurn_covers:
  assumes "sr_inv (en_store en)" and "pull_covers e en (Answered afterKey reply)"
  shows "pull_covers e (snd (rc_pullTurn afterKey reply en)) (fst (rc_pullTurn afterKey reply en))"
proof (cases "holds e (en_lookup en)")
  case True
  then show ?thesis using gains_holds [OF pullTurn_gains [OF assms(1)]] pull_covers_held by blast
next
  case False
  then obtain chunk where c: "reply = Some chunk" "page_covers e afterKey chunk" using assms(2) by (cases reply) auto
  show ?thesis
  proof (cases "\<exists>d \<in> set (fc_entries chunk). e_key d = e_key e \<and> e_timestamp e \<le> e_timestamp d")
    case True
    then obtain d where d: "d \<in> set (fc_entries chunk)" "e_key d = e_key e" "e_timestamp e \<le> e_timestamp d" by blast
    then have "holds d (en_lookup (ft_applyChunk chunk en))" using applyChunk_gains [OF assms(1)] by blast
    then have "holds e (en_lookup (ft_applyChunk chunk en))" using d(2,3) by (auto simp: holds_def)
    moreover have "snd (rc_pullTurn afterKey reply en) = ft_applyChunk chunk en"
      by (auto simp: c(1) Let_def split: option.splits)
    ultimately show ?thesis using pull_covers_held by simp
  next
    case False
    then obtain k where "\<not> fc_final chunk" "lastKeyOf chunk = Some k" "beyond (Some k) e"
      "case afterKey of None \<Rightarrow> True | Some a \<Rightarrow> a < k"
      using c(2) unfolding page_covers_def by blast
    then show ?thesis by (auto simp: c(1) Let_def not_le split: option.splits)
  qed
qed

section \<open>Invariants of recovery\<close>

lemma setPull_simps [simp]:
  "length (rc_runs (rc_setPull i j s rc)) = length (rc_runs rc)"
  "rc_engine (rc_setPull i j s rc) = rc_engine rc" "rc_recovering (rc_setPull i j s rc) = rc_recovering rc"
  by (simp_all add: rc_setPull_def Let_def)

lemma nth_update: "xs[i := x] ! k = (if i < length xs \<and> i = k then x else xs ! k)"
  by (cases "i = k") (simp_all add: list_update_beyond)

lemma setPull_run:
  "rc_runs (rc_setPull i j s rc) ! k =
     (if i < length (rc_runs rc) \<and> i = k
      then (rc_runs rc ! i)\<lparr>ru_pulls := (ru_pulls (rc_runs rc ! i))[j := (fst (ru_pulls (rc_runs rc ! i) ! j), s)]\<rparr>
      else rc_runs rc ! k)"
  by (simp add: rc_setPull_def Let_def nth_update)

lemma setPull_fields [simp]:
  "ru_partition (rc_runs (rc_setPull i j s rc) ! k) = ru_partition (rc_runs rc ! k)"
  "length (ru_pulls (rc_runs (rc_setPull i j s rc) ! k)) = length (ru_pulls (rc_runs rc ! k))"
  unfolding setPull_run by auto

lemma setPull_pull:
  "pull_at i j rc peer s \<Longrightarrow> ru_pulls (rc_runs (rc_setPull i j s' rc) ! k) ! l =
     (if k = i \<and> l = j then (peer, s') else ru_pulls (rc_runs rc ! k) ! l)"
  unfolding setPull_run pull_at_def by (auto simp: nth_update)

text \<open>A peer that holds the entry, and the one run for its partition, whose pull from that peer covers it.\<close>

definition peer_holds :: "nat \<Rightarrow> jsstr \<Rightarrow> Entry \<Rightarrow> nodes \<Rightarrow> bool" where
  "peer_holds p b e ns \<longleftrightarrow>
     sr_inv (en_store (ns b)) \<and> holds e (en_lookup (ns b)) \<and> en_partitionFor (e_key e) (ns b) = p"

definition one_run :: "nat \<Rightarrow> nat \<Rightarrow> Recovery \<Rightarrow> bool" where
  "one_run p i rc \<longleftrightarrow>
     i < length (rc_runs rc) \<and> (\<forall>k < length (rc_runs rc). ru_partition (rc_runs rc ! k) = p \<longleftrightarrow> k = i)"

definition pull_owes :: "nat \<Rightarrow> nat \<Rightarrow> jsstr \<Rightarrow> Entry \<Rightarrow> Recovery \<Rightarrow> bool" where
  "pull_owes i j b e rc \<longleftrightarrow>
     j < length (ru_pulls (rc_runs rc ! i)) \<and> fst (ru_pulls (rc_runs rc ! i) ! j) = b
     \<and> pull_covers e (rc_engine rc) (snd (ru_pulls (rc_runs rc ! i) ! j))"

definition mark_stands :: "nat \<Rightarrow> Entry \<Rightarrow> Recovery \<Rightarrow> bool" where
  "mark_stands p e rc \<longleftrightarrow> p \<in> rc_recovering rc \<or> holds e (en_lookup (rc_engine rc))"

definition rc_safe :: "nat \<Rightarrow> nat \<Rightarrow> nat \<Rightarrow> jsstr \<Rightarrow> Entry \<Rightarrow> Recovery \<times> nodes \<Rightarrow> bool" where
  "rc_safe p i j b e = (\<lambda>(rc, ns). sr_inv (en_store (rc_engine rc)) \<and> peer_holds p b e ns \<and> one_run p i rc
     \<and> pull_owes i j b e rc \<and> mark_stands p e rc)"

lemma setPull_engine: "(rc_setPull i j s rc)\<lparr>rc_engine := en\<rparr> = rc_setPull i j s (rc\<lparr>rc_engine := en\<rparr>)"
  by (simp add: rc_setPull_def Let_def)

lemma one_run_setPull [simp]: "one_run p i (rc_setPull i' j' s rc) \<longleftrightarrow> one_run p i rc"
  by (simp add: one_run_def)

lemma mark_stands_setPull [simp]: "mark_stands p e (rc_setPull i' j' s rc) \<longleftrightarrow> mark_stands p e rc"
  by (simp add: mark_stands_def)

lemma pull_owes_setPull:
  assumes "pull_owes i j b e rc" and "pull_at i' j' rc peer s0"
    and "i' = i \<and> j' = j \<longrightarrow> pull_covers e (rc_engine rc) s"
  shows "pull_owes i j b e (rc_setPull i' j' s rc)"
proof (cases "i' = i \<and> j' = j")
  case True
  then have "peer = b" using assms(1,2) by (simp add: pull_owes_def pull_at_def)
  then show ?thesis using True assms(1,3) setPull_pull [OF assms(2), of s i j] by (simp add: pull_owes_def)
next
  case False
  then have "ru_pulls (rc_runs (rc_setPull i' j' s rc) ! i) ! j = ru_pulls (rc_runs rc ! i) ! j"
    using setPull_pull [OF assms(2), of s i j] by auto
  then show ?thesis using assms(1) by (simp add: pull_owes_def)
qed

lemma engine_gains:
  assumes "gains (rc_engine rc) en"
  shows "one_run p i rc \<Longrightarrow> one_run p i (rc\<lparr>rc_engine := en\<rparr>)"
    and "pull_owes i j b e rc \<Longrightarrow> pull_owes i j b e (rc\<lparr>rc_engine := en\<rparr>)"
    and "mark_stands p e rc \<Longrightarrow> mark_stands p e (rc\<lparr>rc_engine := en\<rparr>)"
  using gains_holds [OF assms, of e] pull_covers_gains [OF assms, of e]
  by (auto simp: one_run_def pull_owes_def mark_stands_def)

lemma gains_inv: "gains en en' \<Longrightarrow> sr_inv (en_store en')"
  by (simp add: gains_def)

lemma peer_holds_grows:
  assumes "peer_holds p b e ns" and "grows (ns c) en"
  shows "peer_holds p b e (ns(c := en))"
proof (cases "c = b")
  case True
  have "gains (ns b) en" "sr_partitionCount (en_store en) = sr_partitionCount (en_store (ns b))"
    using assms(2) True by (simp_all add: grows_def)
  then show ?thesis
    using assms(1) True gains_holds [of "ns b" en e] gains_inv
    by (simp add: peer_holds_def en_partitionFor_def sr_partitionFor_def)
qed (use assms(1) in \<open>simp add: peer_holds_def\<close>)

lemma rc_step_safe:
  assumes "rc_step up x y" and "b \<in> up" and "rc_safe p i j b e x"
  shows "rc_safe p i j b e y"
  using assms(1,3)
proof (cases rule: rc_step.cases)
  case (serve i' j' rc peer afterKey ns)
  let ?s = "Answered afterKey (Some (ft_servePage (ru_partition (rc_runs rc ! i')) afterKey (ns peer)))"
  have x: "peer_holds p b e ns" "one_run p i rc" "pull_owes i j b e rc" "mark_stands p e rc"
    "sr_inv (en_store (rc_engine rc))"
    using assms(3) serve(1) by (simp_all add: rc_safe_def)
  have "pull_covers e (rc_engine rc) ?s" if here: "i' = i" "j' = j"
  proof -
    have "peer = b" "pull_covers e (rc_engine rc) (Asking afterKey)" "ru_partition (rc_runs rc ! i') = p"
      using serve(3) x(2,3) here by (auto simp: pull_at_def pull_owes_def one_run_def)
    then show ?thesis using served_page_covers [of "ns b" e p afterKey] x(1) by (auto simp: peer_holds_def)
  qed
  then have "pull_owes i j b e (rc_setPull i' j' ?s rc)" using pull_owes_setPull [OF x(3) serve(3)] by blast
  then show ?thesis using x serve(2) by (simp add: rc_safe_def)
next
  case (silent i' j' rc peer afterKey ns)
  have x: "peer_holds p b e ns" "one_run p i rc" "pull_owes i j b e rc" "mark_stands p e rc"
    "sr_inv (en_store (rc_engine rc))"
    using assms(3) silent(1) by (simp_all add: rc_safe_def)
  have "\<not> (i' = i \<and> j' = j)" using silent(3,4) x(3) assms(2) by (auto simp: pull_at_def pull_owes_def)
  then have "pull_owes i j b e (rc_setPull i' j' (Answered afterKey None) rc)"
    using pull_owes_setPull [OF x(3) silent(3)] by blast
  then show ?thesis using x silent(2) by (simp add: rc_safe_def)
next
  case (answer i' j' rc peer afterKey reply ns)
  let ?t = "rc_pullTurn afterKey reply (rc_engine rc)"
  let ?rc = "rc\<lparr>rc_engine := snd ?t\<rparr>"
  have x: "peer_holds p b e ns" "one_run p i rc" "pull_owes i j b e rc" "mark_stands p e rc"
    "sr_inv (en_store (rc_engine rc))"
    using assms(3) answer(1) by (simp_all add: rc_safe_def)
  have g: "gains (rc_engine rc) (snd ?t)" by (rule pullTurn_gains [OF x(5)])
  have at: "pull_at i' j' ?rc peer (Answered afterKey reply)" using answer(3) by (simp add: pull_at_def)
  have "pull_covers e (rc_engine ?rc) (fst ?t)" if here: "i' = i" "j' = j"
    using pullTurn_covers [OF x(5)] answer(3) x(3) here by (auto simp: pull_at_def pull_owes_def)
  then have "pull_owes i j b e (rc_setPull i' j' (fst ?t) ?rc)"
    using pull_owes_setPull [OF engine_gains(2) [OF g x(3)] at] by blast
  moreover have "rc_applyAnswer i' j' afterKey reply rc = rc_setPull i' j' (fst ?t) ?rc"
    by (simp add: rc_applyAnswer_def setPull_engine case_prod_beta)
  ultimately show ?thesis
    using x(1) engine_gains(1) [OF g x(2)] engine_gains(3) [OF g x(4)] gains_inv [OF g] answer(2)
    by (simp add: rc_safe_def)
next
  case (finish i' rc ns)
  have x: "peer_holds p b e ns" "one_run p i rc" "pull_owes i j b e rc" "mark_stands p e rc"
    "sr_inv (en_store (rc_engine rc))"
    using assms(3) finish(1) by (simp_all add: rc_safe_def)
  have "holds e (en_lookup (rc_engine rc))" if "ru_partition (rc_runs rc ! i') = p"
  proof -
    have "i' = i" using that x(2) finish(3) by (simp add: one_run_def)
    then have "snd (ru_pulls (rc_runs rc ! i) ! j) = Settled" using finish(4) x(3) by (simp add: pull_owes_def)
    then show ?thesis using x(3) by (simp add: pull_owes_def)
  qed
  then have "mark_stands p e (rc_pullsDone i' rc)" using x(4) by (auto simp: mark_stands_def rc_pullsDone_def)
  then show ?thesis using x finish(2) by (simp add: rc_safe_def rc_pullsDone_def one_run_def pull_owes_def)
next
  case (local_traffic rc en ns)
  then have g: "gains (rc_engine rc) en" by (simp add: grows_def)
  show ?thesis
    using assms(3) local_traffic(1,2) engine_gains [OF g] gains_inv [OF g] by (simp add: rc_safe_def)
next
  case (peer_traffic ns c en rc)
  then show ?thesis using assms(3) peer_holds_grows by (simp add: rc_safe_def)
qed

lemma rc_steps_safe:
  assumes "(rc_step up)\<^sup>*\<^sup>* x y" and "b \<in> up" and "rc_safe p i j b e x"
  shows "rc_safe p i j b e y"
  using assms(1,3) by (induction rule: rtranclp_induct) (auto intro: rc_step_safe [OF _ assms(2)])

lemma rc_step_keeps:
  "rc_step up x y \<Longrightarrow> sr_inv (en_store (rc_engine (fst x))) \<Longrightarrow> gains (rc_engine (fst x)) (rc_engine (fst y))"
  by (cases rule: rc_step.cases)
    (auto simp: gains_refl rc_applyAnswer_def rc_pullsDone_def case_prod_beta grows_def intro: pullTurn_gains)

lemma rc_steps_keep:
  assumes "(rc_step up)\<^sup>*\<^sup>* x y" and "sr_inv (en_store (rc_engine (fst x)))"
  shows "gains (rc_engine (fst x)) (rc_engine (fst y))"
  using assms
proof (induction rule: rtranclp_induct)
  case (step y z)
  then show ?case using rc_step_keeps [of up y z] gains_trans gains_inv by blast
qed (simp add: gains_refl)

lemma rc_step_run: "rc_step up x y \<Longrightarrow> one_run p i (fst x) \<Longrightarrow> one_run p i (fst y)"
  by (cases rule: rc_step.cases)
    (auto simp: rc_applyAnswer_def setPull_engine case_prod_beta one_run_def rc_pullsDone_def)

lemma rc_steps_run: "(rc_step up)\<^sup>*\<^sup>* x y \<Longrightarrow> one_run p i (fst x) \<Longrightarrow> one_run p i (fst y)"
  by (induction rule: rtranclp_induct) (auto intro: rc_step_run)

lemma rc_step_inv: "rc_step up x y \<Longrightarrow> \<forall>c. sr_inv (en_store (snd x c)) \<Longrightarrow> \<forall>c. sr_inv (en_store (snd y c))"
  by (cases rule: rc_step.cases) (auto simp: grows_def gains_def)

lemma rc_steps_inv:
  "(rc_step up)\<^sup>*\<^sup>* x y \<Longrightarrow> \<forall>c. sr_inv (en_store (snd x c)) \<Longrightarrow> \<forall>c. sr_inv (en_store (snd y c))"
proof (induction rule: rtranclp_induct)
  case (step y z)
  show ?case by (rule rc_step_inv [OF step(2) step(3) [OF step(4)]])
qed

section \<open>Promotions\<close>

definition promoted ::
  "jsstr list \<Rightarrow> RoutingTable option \<Rightarrow> RoutingTable \<Rightarrow> PartitionRing \<Rightarrow> int \<Rightarrow> jsstr \<Rightarrow> nat \<Rightarrow> bool" where
  "promoted members previous table ring k self p \<longleftrightarrow>
     (case rt_placement (int p) ring k table of
        Inl _ \<Rightarrow> False
      | Inr pl \<Rightarrow> pl_primary pl = self \<and> rc_isCrashPromotion members previous p pl self = Inr True)"

lemma sortPartitions_result:
  assumes "rc_sortPartitions members previous table ring ps (promotions, refills) rc = (Inr (promotions', refills'), rc')"
  shows "\<exists>new. promotions' = promotions @ new
    \<and> map cp_partition new = filter (promoted members previous table ring (rc_replicaCount rc) (rc_self rc)) ps
    \<and> (\<forall>c \<in> set new. rt_placement (int (cp_partition c)) ring (rc_replicaCount rc) table = Inr (cp_placement c))
    \<and> rc' = rc\<lparr>rc_recovering := rc_recovering rc \<union> cp_partition ` set new\<rparr>"
  using assms
proof (induction ps arbitrary: promotions refills rc)
  case (Cons p ps)
  let ?promoted = "promoted members previous table ring (rc_replicaCount rc) (rc_self rc)"
  obtain pl where pl: "rt_placement (int p) ring (rc_replicaCount rc) table = Inr pl"
    using Cons.prems by (auto split: sum.splits)
  show ?case
  proof (cases "?promoted p")
    case True
    let ?new = "\<lparr>cp_partition = p, cp_placement = pl\<rparr>"
    have "rc_sortPartitions members previous table ring ps (promotions @ [?new], refills)
        (rc\<lparr>rc_recovering := insert p (rc_recovering rc)\<rparr>) = (Inr (promotions', refills'), rc')"
      using Cons.prems True pl by (simp add: promoted_def)
    from Cons.IH [OF this] obtain new where "promotions' = (promotions @ [?new]) @ new"
      "map cp_partition new = filter ?promoted ps"
      "\<forall>c \<in> set new. rt_placement (int (cp_partition c)) ring (rc_replicaCount rc) table = Inr (cp_placement c)"
      "rc' = rc\<lparr>rc_recovering := insert p (rc_recovering rc) \<union> cp_partition ` set new\<rparr>"
      by auto
    then show ?thesis using True pl by (intro exI [of _ "?new # new"]) simp
  next
    case False
    then obtain refills'' where
      "rc_sortPartitions members previous table ring ps (promotions, refills'') rc = (Inr (promotions', refills'), rc')"
      using Cons.prems pl by (auto simp: promoted_def split: if_splits sum.splits bool.splits)
    from Cons.IH [OF this] show ?thesis using False by simp
  qed
qed simp

lemma sortPartitions_defined:
  "\<forall>p \<in> set ps. \<exists>pl. rt_placement (int p) ring (rc_replicaCount rc) table = Inr pl \<Longrightarrow>
   \<forall>p \<in> set ps. \<exists>m. rt_primary (int p) t = Inr m \<Longrightarrow>
   \<exists>found' rc'. rc_sortPartitions members (Some t) table ring ps found rc = (Inr found', rc')"
proof (induction ps arbitrary: found rc)
  case (Cons p ps)
  obtain pl m where here: "rt_placement (int p) ring (rc_replicaCount rc) table = Inr pl" "rt_primary (int p) t = Inr m"
    using Cons.prems by auto
  obtain promotions refills where found: "found = (promotions, refills)" by (cases found)
  have "\<exists>c. rc_isCrashPromotion members (Some t) p pl (rc_self rc) = Inr c"
    using here(2) by (auto simp: rc_isCrashPromotion_def)
  then obtain c where c: "rc_isCrashPromotion members (Some t) p pl (rc_self rc) = Inr c" by blast
  have "\<exists>found' rc'. rc_sortPartitions members (Some t) table ring ps f (rc\<lparr>rc_recovering := x\<rparr>) = (Inr found', rc')"
    and "\<exists>found' rc'. rc_sortPartitions members (Some t) table ring ps f rc = (Inr found', rc')" for f x
    using Cons.IH [of "rc\<lparr>rc_recovering := x\<rparr>" f] Cons.IH [of rc f] Cons.prems by auto
  then show ?case unfolding found by (cases c) (simp_all add: here c)
qed auto

lemma onTable_defined:
  assumes "\<forall>p < rt_partitionCount table. \<exists>pl. rt_placement (int p) ring (rc_replicaCount rc) table = Inr pl"
    and "rc_table rc = Some t" and "\<forall>p < rt_partitionCount table. \<exists>m. rt_primary (int p) t = Inr m"
  shows "\<exists>refills rc'. rc_onTable members table ring rc = (Inr refills, rc')"
proof -
  let ?rc = "rc\<lparr>rc_table := Some table, rc_ring := Some ring\<rparr>"
  obtain found rc' where "rc_sortPartitions members (Some t) table ring [0..<rt_partitionCount table] ([], []) ?rc = (Inr found, rc')"
    using sortPartitions_defined [of "[0..<rt_partitionCount table]" ring ?rc table t members "([], [])"] assms by auto
  then show ?thesis using assms(2) by (cases found) (simp add: rc_onTable_def)
qed

lemma onTable_promotes:
  assumes "rc_onTable members table ring rc = (Inr refills, rc')"
    and "rt_placement (int p) ring (rc_replicaCount rc) table = Inr pl" and "pl_primary pl = rc_self rc"
    and "rc_isCrashPromotion members (rc_table rc) p pl (rc_self rc) = Inr True"
    and "\<forall>run \<in> set (rc_runs rc). ru_partition run \<noteq> p"
  shows "p \<in> rc_recovering rc' \<and> rc_engine rc' = rc_engine rc
    \<and> (\<exists>i. one_run p i rc' \<and> ru_pulls (rc_runs rc' ! i) = map (\<lambda>b. (b, Asking None)) (pl_backups pl))"
proof -
  let ?rc = "rc\<lparr>rc_table := Some table, rc_ring := Some ring\<rparr>" and ?n = "rt_partitionCount table"
  obtain promotions rc1 where sort: "rc_sortPartitions members (rc_table rc) table ring [0..<?n] ([], []) ?rc
      = (Inr (promotions, refills), rc1)" and rc': "rc' = rc1\<lparr>rc_runs := rc_runs rc1 @ map rc_recover promotions\<rparr>"
    using assms(1) by (auto simp: rc_onTable_def Let_def split: prod.splits sum.splits)
  let ?promoted = "promoted members (rc_table rc) table ring (rc_replicaCount rc) (rc_self rc)"
  have new: "map cp_partition promotions = filter ?promoted [0..<?n]"
    and place: "\<forall>c \<in> set promotions. rt_placement (int (cp_partition c)) ring (rc_replicaCount rc) table = Inr (cp_placement c)"
    and rc1: "rc1 = ?rc\<lparr>rc_recovering := rc_recovering rc \<union> cp_partition ` set promotions\<rparr>"
    using sortPartitions_result [OF sort] by auto
  have "p < ?n" using assms(2) rt_owners_Inr by (auto simp: rt_placement_def split: sum.splits)
  moreover have "?promoted p" using assms(2,3,4) by (simp add: promoted_def)
  ultimately have "p \<in> set (map cp_partition promotions)" unfolding new by simp
  then obtain k where k: "k < length promotions" "cp_partition (promotions ! k) = p"
    by (auto simp: in_set_conv_nth)
  have d: "distinct (map cp_partition promotions)" unfolding new by simp
  have pl: "cp_placement (promotions ! k) = pl" using place k assms(2) nth_mem by fastforce
  let ?i = "length (rc_runs rc) + k"
  have runs: "rc_runs rc' = rc_runs rc @ map rc_recover promotions" unfolding rc' rc1 by simp
  have "ru_partition (rc_runs rc' ! l) = p \<longleftrightarrow> l = ?i" if l: "l < length (rc_runs rc')" for l
  proof (cases "l < length (rc_runs rc)")
    case True
    then show ?thesis using assms(5) nth_mem by (auto simp: runs nth_append)
  next
    case False
    let ?m = "l - length (rc_runs rc)"
    have m: "?m < length promotions" using l False by (simp add: runs)
    have "ru_partition (rc_runs rc' ! l) = map cp_partition promotions ! ?m"
      using False m by (simp add: runs nth_append rc_recover_def)
    moreover have "map cp_partition promotions ! k = p" using k by simp
    ultimately show ?thesis using nth_eq_iff_index_eq [OF d, of ?m k] m k(1) False by auto
  qed
  then have "one_run p ?i rc'" using k(1) by (simp add: one_run_def runs)
  moreover have "ru_pulls (rc_runs rc' ! ?i) = map (\<lambda>b. (b, Asking None)) (pl_backups pl)"
    using k(1) pl by (simp add: runs nth_append rc_recover_def)
  moreover have "p \<in> rc_recovering rc'" "rc_engine rc' = rc_engine rc"
    using k unfolding rc' rc1 by auto
  ultimately show ?thesis by blast
qed

text \<open>
  The mark is up before the method yields, and when it is down the promoted primary
  holds what any reachable backup held.
\<close>

lemma recovery_collects:
  assumes "rc_onTable members table ring rc = (Inr refills, rc1)"
    and "rt_placement (int p) ring (rc_replicaCount rc) table = Inr pl" and "pl_primary pl = rc_self rc"
    and "rc_isCrashPromotion members (rc_table rc) p pl (rc_self rc) = Inr True"
    and "\<forall>run \<in> set (rc_runs rc). ru_partition run \<noteq> p" and "sr_inv (en_store (rc_engine rc))"
    and "b \<in> set (pl_backups pl)" and "b \<in> up" and "peer_holds p b e ns"
    and "(rc_step up)\<^sup>*\<^sup>* (rc1, ns) (rc2, ns2)"
  shows "rc_isRecovering p rc2 \<or> holds e (en_lookup (rc_engine rc2))"
proof -
  obtain i where i: "p \<in> rc_recovering rc1" "rc_engine rc1 = rc_engine rc" "one_run p i rc1"
    "ru_pulls (rc_runs rc1 ! i) = map (\<lambda>b. (b, Asking None)) (pl_backups pl)"
    using onTable_promotes [OF assms(1-5)] by blast
  obtain j where j: "j < length (pl_backups pl)" "pl_backups pl ! j = b"
    using assms(7) by (auto simp: in_set_conv_nth)
  have "pull_owes i j b e rc1" using i(4) j by (simp add: pull_owes_def beyond_def)
  then have "rc_safe p i j b e (rc1, ns)" using i assms(6,9) by (simp add: rc_safe_def mark_stands_def)
  from rc_steps_safe [OF assms(10,8) this] show ?thesis
    by (simp add: rc_safe_def mark_stands_def rc_isRecovering_def)
qed

text \<open>Recovery can always finish, whatever is in flight, when the peers only answer.\<close>

lemma setPull_twice [simp]: "rc_setPull i j s' (rc_setPull i j s rc) = rc_setPull i j s' rc"
  by (cases "i < length (rc_runs rc)"; cases "j < length (ru_pulls (rc_runs rc ! i))")
    (simp_all add: rc_setPull_def Let_def list_update_beyond)

lemma pull_at_setPull: "pull_at i j rc b s \<Longrightarrow> pull_at i j (rc_setPull i j s' rc) b s'"
  using setPull_pull [of i j rc b s s' i j] by (simp add: pull_at_def)

lemma pull_at_engine [simp]: "pull_at i j (rc\<lparr>rc_engine := en\<rparr>) b s = pull_at i j rc b s"
  by (simp add: pull_at_def)

lemma answer_steps:
  assumes "pull_at i j rc b (Answered afterKey reply)"
  shows "rc_step up (rc, ns) (rc_setPull i j (fst (rc_pullTurn afterKey reply (rc_engine rc)))
    (rc\<lparr>rc_engine := snd (rc_pullTurn afterKey reply (rc_engine rc))\<rparr>), ns)"
  using rc_step.answer [OF assms, of up ns] by (simp add: rc_applyAnswer_def case_prod_beta setPull_engine)

lemma asking_settles:
  assumes "\<forall>c. sr_inv (en_store (ns c))"
  shows "pull_at i j rc b (Asking afterKey) \<Longrightarrow>
    \<exists>en. (rc_step up)\<^sup>*\<^sup>* (rc, ns) (rc_setPull i j Settled (rc\<lparr>rc_engine := en\<rparr>), ns)"
proof (induction "length (filter (beyond afterKey) (ft_sortedFragment (ru_partition (rc_runs rc ! i)) (ns b)))"
    arbitrary: rc afterKey rule: less_induct)
  case less
  let ?p = "ru_partition (rc_runs rc ! i)"
  let ?srt = "ft_sortedFragment ?p (ns b)"
  let ?page = "pageAfter ?srt ?p afterKey"
  let ?rc = "rc_setPull i j (Answered afterKey (Some ?page)) rc" and ?t = "rc_pullTurn afterKey (Some ?page) (rc_engine rc)"
  let ?rc' = "rc_setPull i j (fst ?t) (rc\<lparr>rc_engine := snd ?t\<rparr>)"
  have "rc_step up (rc, ns) (?rc, ns)" using rc_step.serve [OF less.prems, of up ns] by (simp add: ft_servePage_def)
  moreover have "rc_step up (?rc, ns) (?rc', ns)"
    using answer_steps [OF pull_at_setPull [OF less.prems], where up = up and ns = ns]
    by (simp only: setPull_engine setPull_twice setPull_simps)
  ultimately have two: "(rc_step up)\<^sup>*\<^sup>* (rc, ns) (?rc', ns)" by (meson r_into_rtranclp rtranclp_trans)
  show ?case
  proof (cases "fst ?t = Settled")
    case True
    then show ?thesis using two by auto
  next
    case False
    then obtain k where k: "\<not> fc_final ?page" "fst ?t = Asking (Some k)" "lastKeyOf ?page = Some k"
      by (auto simp: Let_def split: option.splits if_splits)
    have "keyed ?srt" using snapshot_distinct [OF spec [OF assms]] by (simp add: ft_sortedFragment_def sort_keyed)
    from page_next [OF this k(1)] have shrink: "length (filter (beyond (Some k)) ?srt) < length (filter (beyond afterKey) ?srt)"
      using k(3) by (auto simp: length_append)
    have at: "pull_at i j ?rc' b (Asking (Some k))"
      using pull_at_setPull [of i j "rc\<lparr>rc_engine := snd ?t\<rparr>" b "Asking afterKey" "Asking (Some k)"] less.prems k(2) by simp
    obtain en where "(rc_step up)\<^sup>*\<^sup>* (?rc', ns) (rc_setPull i j Settled (?rc'\<lparr>rc_engine := en\<rparr>), ns)"
      using less.hyps [OF _ at] shrink by auto
    then have "(rc_step up)\<^sup>*\<^sup>* (?rc', ns) (rc_setPull i j Settled (rc\<lparr>rc_engine := en\<rparr>), ns)"
      by (simp add: setPull_engine)
    then show ?thesis using two by (meson rtranclp_trans)
  qed
qed

lemma pull_settles:
  assumes "\<forall>c. sr_inv (en_store (ns c))" and "pull_at i j rc b s"
  shows "\<exists>en. (rc_step up)\<^sup>*\<^sup>* (rc, ns) (rc_setPull i j Settled (rc\<lparr>rc_engine := en\<rparr>), ns)"
proof (cases s)
  case (Asking afterKey)
  then show ?thesis using asking_settles [OF assms(1)] assms(2) by blast
next
  case (Answered afterKey reply)
  let ?t = "rc_pullTurn afterKey reply (rc_engine rc)"
  let ?rc' = "rc_setPull i j (fst ?t) (rc\<lparr>rc_engine := snd ?t\<rparr>)"
  have one: "rc_step up (rc, ns) (?rc', ns)" using answer_steps assms(2) Answered by blast
  show ?thesis
  proof (cases "fst ?t = Settled")
    case True
    then show ?thesis using one by auto
  next
    case False
    then obtain k where k: "fst ?t = Asking k"
      by (cases reply) (auto simp: Let_def split: option.splits if_splits)
    have at: "pull_at i j ?rc' b (Asking k)"
      using pull_at_setPull [of i j "rc\<lparr>rc_engine := snd ?t\<rparr>" b s "Asking k"] assms(2) k by simp
    obtain en where "(rc_step up)\<^sup>*\<^sup>* (?rc', ns) (rc_setPull i j Settled (?rc'\<lparr>rc_engine := en\<rparr>), ns)"
      using asking_settles [OF assms(1) at] by blast
    then have "(rc_step up)\<^sup>*\<^sup>* (?rc', ns) (rc_setPull i j Settled (rc\<lparr>rc_engine := en\<rparr>), ns)"
      by (simp add: setPull_engine)
    then show ?thesis using one by (meson converse_rtranclp_into_rtranclp)
  qed
next
  case Settled
  let ?run = "rc_runs rc ! i"
  have "ru_pulls ?run ! j = (fst (ru_pulls ?run ! j), Settled)" using assms(2) Settled by (simp add: pull_at_def)
  then have "(ru_pulls ?run)[j := (fst (ru_pulls ?run ! j), Settled)] = ru_pulls ?run" by (metis list_update_id)
  then have "rc_setPull i j Settled (rc\<lparr>rc_engine := rc_engine rc\<rparr>) = rc" by (simp add: rc_setPull_def Let_def)
  then show ?thesis by (intro exI [of _ "rc_engine rc"]) simp
qed

lemma pulls_settle:
  assumes "\<forall>c. sr_inv (en_store (ns c))" and "i < length (rc_runs rc)"
  shows "n \<le> length (ru_pulls (rc_runs rc ! i)) \<Longrightarrow> \<exists>rc'. (rc_step up)\<^sup>*\<^sup>* (rc, ns) (rc', ns)
    \<and> length (rc_runs rc') = length (rc_runs rc) \<and> ru_partition (rc_runs rc' ! i) = ru_partition (rc_runs rc ! i)
    \<and> length (ru_pulls (rc_runs rc' ! i)) = length (ru_pulls (rc_runs rc ! i))
    \<and> (\<forall>j < n. snd (ru_pulls (rc_runs rc' ! i) ! j) = Settled)"
proof (induction n)
  case (Suc n)
  then obtain rc' where IH: "(rc_step up)\<^sup>*\<^sup>* (rc, ns) (rc', ns)" "length (rc_runs rc') = length (rc_runs rc)"
    "ru_partition (rc_runs rc' ! i) = ru_partition (rc_runs rc ! i)"
    "length (ru_pulls (rc_runs rc' ! i)) = length (ru_pulls (rc_runs rc ! i))"
    "\<forall>j < n. snd (ru_pulls (rc_runs rc' ! i) ! j) = Settled" by auto
  obtain b s where bs: "ru_pulls (rc_runs rc' ! i) ! n = (b, s)" by fastforce
  then have at: "pull_at i n rc' b s" using IH assms(2) Suc.prems by (simp add: pull_at_def)
  obtain en where more: "(rc_step up)\<^sup>*\<^sup>* (rc', ns) (rc_setPull i n Settled (rc'\<lparr>rc_engine := en\<rparr>), ns)"
    using pull_settles [OF assms(1) at] by blast
  have "ru_pulls (rc_runs (rc_setPull i n Settled (rc'\<lparr>rc_engine := en\<rparr>)) ! i) ! j =
      (if j = n then (b, Settled) else ru_pulls (rc_runs rc' ! i) ! j)" for j
    using setPull_pull [of i n "rc'\<lparr>rc_engine := en\<rparr>" b s Settled i j] at by simp
  then show ?case
    using rtranclp_trans [OF IH(1) more] IH(2-5)
    by (intro exI [of _ "rc_setPull i n Settled (rc'\<lparr>rc_engine := en\<rparr>)"]) (simp add: less_Suc_eq)
qed auto

lemma recovery_can_finish:
  assumes "\<forall>c. sr_inv (en_store (ns c))" and "one_run p i rc"
  shows "\<exists>rc'. (rc_step up)\<^sup>*\<^sup>* (rc, ns) (rc', ns) \<and> \<not> rc_isRecovering p rc'"
proof -
  have i: "i < length (rc_runs rc)" "ru_partition (rc_runs rc ! i) = p" using assms(2) by (auto simp: one_run_def)
  obtain rc' where rc': "(rc_step up)\<^sup>*\<^sup>* (rc, ns) (rc', ns)" "length (rc_runs rc') = length (rc_runs rc)"
    "ru_partition (rc_runs rc' ! i) = p"
    "\<forall>j < length (ru_pulls (rc_runs rc' ! i)). snd (ru_pulls (rc_runs rc' ! i) ! j) = Settled"
    using pulls_settle [OF assms(1) i(1) order_refl, where up = up] i(2) by auto
  have "\<forall>pull \<in> set (ru_pulls (rc_runs rc' ! i)). snd pull = Settled"
    using rc'(4) unfolding all_set_conv_all_nth .
  then have "rc_step up (rc', ns) (rc_pullsDone i rc', ns)" using rc_step.finish i(1) rc'(2) by simp
  then have "(rc_step up)\<^sup>*\<^sup>* (rc, ns) (rc_pullsDone i rc', ns)" using rc'(1) by (meson rtranclp.rtrancl_into_rtrancl)
  moreover have "\<not> rc_isRecovering p (rc_pullsDone i rc')" using rc'(3) by (simp add: rc_isRecovering_def rc_pullsDone_def)
  ultimately show ?thesis by blast
qed

section \<open>Drains\<close>

lemma push_result:
  assumes "sr_inv (en_store en)" and "sr_inv (en_store peer)"
    and "\<forall>n q. sr_inv (en_store q) \<longrightarrow> gains q (meanwhile n q)"
  shows "\<exists>ok peer'. ft_push net meanwhile p en peer = Some (ok, peer') \<and> gains peer peer'
    \<and> (ok \<longrightarrow> (\<forall>e. holds e (en_lookup en) \<and> en_partitionFor (e_key e) en = p \<longrightarrow> holds e (en_lookup peer')))"
proof -
  have d: "distinct (map e_key (en_snapshot p en))" by (rule snapshot_distinct [OF assms(1)])
  obtain ok peer' where r: "ft_push net meanwhile p en peer = Some (ok, peer')" "gains peer peer'"
    "ok \<longrightarrow> (\<forall>e \<in> set (ft_sortedFragment p en). beyond None e \<longrightarrow> holds e (en_lookup peer'))"
    using pushChunks_result [OF sort_keyed [OF d] assms(3,2)] unfolding ft_push_def ft_sortedFragment_def by blast
  have "holds e (en_lookup peer')" if ok and e: "holds e (en_lookup en)" "en_partitionFor (e_key e) en = p" for e
  proof -
    obtain f where f: "en_lookup en (e_key e) = Some f" "e_timestamp e \<le> e_timestamp f"
      using e(1) unfolding holds_def by blast
    have "f \<in> set (ft_sortedFragment p en)"
      using lookup_in_snapshot [OF f(1)] e(2) by (simp add: ft_sortedFragment_def sort_set [OF d])
    then have "holds f (en_lookup peer')" using r(3) \<open>ok\<close> by (simp add: beyond_def)
    then show ?thesis using f(2) lookup_key [OF assms(1) f(1)] unfolding holds_def by (metis order_trans)
  qed
  then show ?thesis using r(1,2) by blast
qed

lemma drop_lookup:
  "en_lookup (en_drop p en) k = (if en_partitionFor k en = p then None else en_lookup en k)"
  by (simp add: en_drop_def sr_drop_def sr_lookup_def sr_peek_def en_partitionFor_def sr_partitionFor_def)

lemma grows_partitionFor: "grows en en' \<Longrightarrow> en_partitionFor k en' = en_partitionFor k en"
  by (simp add: grows_def en_partitionFor_def sr_partitionFor_def)

text \<open>Where an entry is after a drain: still here, or at the new primary of its partition.\<close>

lemma drainOne_result:
  assumes "rc_drainOne net meanwhile during p table ring rc ns = Inr r"
    and "sr_inv (en_store (rc_engine rc))" and "\<forall>b. sr_inv (en_store (ns b))"
    and "\<forall>n q. sr_inv (en_store q) \<longrightarrow> gains q (meanwhile n q)"
    and "\<forall>q. sr_inv (en_store q) \<longrightarrow> grows q (during q)"
  shows "\<exists>ok rc' ns' primary. r = Some (ok, rc', ns') \<and> rt_primary (int p) table = Inr primary
    \<and> (\<forall>b. gains (ns b) (ns' b)) \<and> sr_inv (en_store (rc_engine rc')) \<and> rc_self rc' = rc_self rc
    \<and> (\<forall>k. en_partitionFor k (rc_engine rc') = en_partitionFor k (rc_engine rc))
    \<and> (\<forall>e. holds e (en_lookup (rc_engine rc)) \<longrightarrow>
         (if en_partitionFor (e_key e) (rc_engine rc) = p \<and> ok then holds e (en_lookup (ns' primary))
          else holds e (en_lookup (rc_engine rc'))))"
proof -
  obtain primary where primary: "rt_primary (int p) table = Inr primary"
    using assms(1) by (auto simp: rc_drainOne_def split: sum.splits)
  obtain ok peer where push: "ft_push net meanwhile p (rc_engine rc) (ns primary) = Some (ok, peer)" "gains (ns primary) peer"
    "ok \<longrightarrow> (\<forall>e. holds e (en_lookup (rc_engine rc)) \<and> en_partitionFor (e_key e) (rc_engine rc) = p \<longrightarrow> holds e (en_lookup peer))"
    using push_result [OF assms(2) spec [OF assms(3)] assms(4), of net p primary] by blast
  let ?en = "during (rc_engine rc)"
  have g: "grows (rc_engine rc) ?en" using assms(2,5) by blast
  then have h: "holds e (en_lookup (rc_engine rc)) \<Longrightarrow> holds e (en_lookup ?en)" for e
    using gains_holds unfolding grows_def by blast
  have inv: "sr_inv (en_store ?en)" using g gains_inv unfolding grows_def by blast
  obtain en' where r: "r = Some (ok, rc\<lparr>rc_engine := en'\<rparr>, ns(primary := peer))" "en' = ?en \<or> ok \<and> en' = en_drop p ?en"
    using assms(1) primary push(1) by (auto simp: rc_drainOne_def Let_def split: sum.splits if_splits)
  have "en_partitionFor k en' = en_partitionFor k (rc_engine rc)" for k
    using r(2) grows_partitionFor [OF g] by (auto simp: en_drop_def sr_drop_def en_partitionFor_def sr_partitionFor_def)
  moreover have "sr_inv (en_store en')" using r(2) inv by (auto simp: en_drop_def sr_drop_inv)
  moreover have "gains (ns b) ((ns(primary := peer)) b)" for b using push(2) assms(3) gains_refl by simp
  moreover have "if en_partitionFor (e_key e) (rc_engine rc) = p \<and> ok then holds e (en_lookup peer) else holds e (en_lookup en')"
    if e: "holds e (en_lookup (rc_engine rc))" for e
  proof (cases "en_partitionFor (e_key e) (rc_engine rc) = p \<and> ok")
    case False
    then have "en_lookup en' (e_key e) = en_lookup ?en (e_key e)"
      using r(2) drop_lookup [of p ?en] grows_partitionFor [OF g] by auto
    then have "holds e (en_lookup en')" using h [OF e] by (simp add: holds_def)
    then show ?thesis using False by (simp only: if_False)
  qed (use push(3) e in simp)
  ultimately show ?thesis using r(1) primary by auto
qed

definition handed_over :: "RoutingTable \<Rightarrow> nat \<Rightarrow> Entry \<Rightarrow> nodes \<Rightarrow> bool" where
  "handed_over table p e ns \<longleftrightarrow> (\<exists>primary. rt_primary (int p) table = Inr primary \<and> holds e (en_lookup (ns primary)))"

lemma handed_over_gains: "\<forall>b. gains (ns b) (ns' b) \<Longrightarrow> handed_over table p e ns \<Longrightarrow> handed_over table p e ns'"
  unfolding handed_over_def using gains_holds by blast

lemma drainAll_result:
  assumes "\<forall>n q. sr_inv (en_store q) \<longrightarrow> gains q (meanwhile n q)"
    and "\<forall>q. sr_inv (en_store q) \<longrightarrow> grows q (during q)"
  shows "rc_drainAll nets meanwhile during table ring ps rc ns = Inr r \<Longrightarrow> distinct ps \<Longrightarrow>
    sr_inv (en_store (rc_engine rc)) \<Longrightarrow> \<forall>b. sr_inv (en_store (ns b)) \<Longrightarrow>
    \<exists>oks rc' ns'. r = Some (oks, rc', ns') \<and> (\<forall>b. gains (ns b) (ns' b))
    \<and> (\<forall>e. holds e (en_lookup (rc_engine rc)) \<longrightarrow> (let p = en_partitionFor (e_key e) (rc_engine rc) in
         (p \<in> set ps \<and> handed_over table p e ns' \<or> holds e (en_lookup (rc_engine rc')))
         \<and> (p \<in> set ps \<and> list_all (\<lambda>ok. ok) oks \<longrightarrow> handed_over table p e ns')))"
proof (induction ps arbitrary: rc ns r)
  case Nil
  then show ?case using gains_refl by auto
next
  case (Cons p ps)
  obtain x where x: "rc_drainOne (nets p) meanwhile during p table ring rc ns = Inr x"
    using Cons.prems(1) by (auto split: sum.splits)
  obtain ok rcx nsx primary where one: "x = Some (ok, rcx, nsx)" "rt_primary (int p) table = Inr primary"
    "\<forall>b. gains (ns b) (nsx b)" "sr_inv (en_store (rc_engine rcx))"
    "\<forall>k. en_partitionFor k (rc_engine rcx) = en_partitionFor k (rc_engine rc)"
    "\<forall>e. holds e (en_lookup (rc_engine rc)) \<longrightarrow>
       (if en_partitionFor (e_key e) (rc_engine rc) = p \<and> ok then holds e (en_lookup (nsx primary))
        else holds e (en_lookup (rc_engine rcx)))"
    using drainOne_result [OF x Cons.prems(3,4) assms] by blast
  obtain y where y: "rc_drainAll nets meanwhile during table ring ps rcx nsx = Inr y"
    using Cons.prems(1) x one(1) by (auto split: sum.splits)
  have "\<forall>b. sr_inv (en_store (nsx b))" using one(3) gains_inv by blast
  from Cons.IH [OF y _ one(4) this] obtain oks rc' ns' where rest: "y = Some (oks, rc', ns')" "\<forall>b. gains (nsx b) (ns' b)"
    "\<forall>e. holds e (en_lookup (rc_engine rcx)) \<longrightarrow> (let q = en_partitionFor (e_key e) (rc_engine rcx) in
         (q \<in> set ps \<and> handed_over table q e ns' \<or> holds e (en_lookup (rc_engine rc')))
         \<and> (q \<in> set ps \<and> list_all (\<lambda>ok. ok) oks \<longrightarrow> handed_over table q e ns'))"
    using Cons.prems(2) by auto
  have r: "r = Some (ok # oks, rc', ns')" using Cons.prems(1) x one(1) y rest(1) by simp
  have "(q \<in> set (p # ps) \<and> handed_over table q e ns' \<or> holds e (en_lookup (rc_engine rc')))
      \<and> (q \<in> set (p # ps) \<and> list_all (\<lambda>ok. ok) (ok # oks) \<longrightarrow> handed_over table q e ns')"
    if e: "holds e (en_lookup (rc_engine rc))" and q: "q = en_partitionFor (e_key e) (rc_engine rc)" for e q
  proof (cases "q = p \<and> ok")
    case True
    then have "handed_over table p e nsx" using one(2,6) e q unfolding handed_over_def by auto
    then have "handed_over table p e ns'" by (rule handed_over_gains [OF rest(2)])
    then show ?thesis using True by simp
  next
    case False
    then have "holds e (en_lookup (rc_engine rcx))" using one(6) e q by auto
    then have "(q \<in> set ps \<and> handed_over table q e ns' \<or> holds e (en_lookup (rc_engine rc')))
         \<and> (q \<in> set ps \<and> list_all (\<lambda>ok. ok) oks \<longrightarrow> handed_over table q e ns')"
      using spec [OF rest(3), of e] one(5) q by (simp add: Let_def)
    then show ?thesis using False by auto
  qed
  moreover have "\<forall>b. gains (ns b) (ns' b)" using one(3) rest(2) gains_trans by blast
  ultimately show ?case unfolding r Let_def by blast
qed

lemma drainAll_defined:
  assumes "\<forall>p \<in> set ps. \<exists>m. rt_primary (int p) table = Inr m"
  shows "\<forall>p \<in> set ps. \<exists>bs. pr_backups ring (int p) (rc_replicaCount rc) = Inr bs \<Longrightarrow>
    \<exists>r. rc_drainAll nets meanwhile during table ring ps rc ns = Inr r"
  using assms
proof (induction ps arbitrary: rc ns)
  case (Cons p ps)
  obtain m bs where here: "rt_primary (int p) table = Inr m" "pr_backups ring (int p) (rc_replicaCount rc) = Inr bs"
    using Cons.prems by auto
  show ?case
  proof (cases "ft_push (nets p) meanwhile p (rc_engine rc) (ns m)")
    case (Some push)
    obtain ok peer where push: "push = (ok, peer)" by (cases push)
    obtain rc' ns' where one: "rc_drainOne (nets p) meanwhile during p table ring rc ns = Inr (Some (ok, rc', ns'))"
      "rc_replicaCount rc' = rc_replicaCount rc"
      using here Some push by (cases ok; cases "rc_self rc \<in> set bs") (simp_all add: rc_drainOne_def Let_def)
    obtain r where "rc_drainAll nets meanwhile during table ring ps rc' ns' = Inr r"
      using Cons.IH [of rc' ns'] Cons.prems one(2) by auto
    then show ?thesis using one(1) by (cases r) (simp_all add: case_prod_beta)
  qed (simp add: here rc_drainOne_def)
qed simp

section \<open>Properties\<close>



end
