(* ===== verification/Codec.thy ===== *)
theory Codec
  imports Bytes "HOL-Library.Monad_Syntax"
begin

text \<open>
  The byte sink and source of the store's codec, \<open>ByteWriter\<close> and \<open>ByteReader\<close> of
  \<open>src/kv/wire.ts\<close>: a buffer that doubles, and a bounds-checked cursor.  A protocol
  error is \<^term>\<open>None\<close>, the only error a codec raises.

  The second half is the calculus the message codecs are proved with: what it means
  that a reader undoes a writer, that a reader does not look past what it consumes,
  and how both pass through sequencing, checks and loops.
\<close>

section \<open>The writer\<close>

record ByteWriter =
  bw_bytes :: bytes
  bw_offset :: nat

definition bw_new :: "int \<Rightarrow> ByteWriter" where
  "bw_new capacity = \<lparr>bw_bytes = replicate (nat (max 1 capacity)) 0, bw_offset = 0\<rparr>"

text \<open>The doubling loop; a buffer is never empty, so the first guard only excludes what cannot be.\<close>

function growCapacity :: "nat \<Rightarrow> nat \<Rightarrow> nat" where
  "growCapacity required capacity =
     (if 0 < capacity \<and> capacity < required then growCapacity required (capacity * 2) else capacity)"
  by pat_completeness auto
termination
  by (relation "measure (\<lambda>(required, capacity). required - capacity)") auto

declare growCapacity.simps [simp del]

definition bw_ensure :: "nat \<Rightarrow> ByteWriter \<Rightarrow> ByteWriter" where
  "bw_ensure extra w =
     (let required = bw_offset w + extra in
      if required \<le> length (bw_bytes w) then w
      else
        let capacity = growCapacity required (length (bw_bytes w) * 2)
        in w\<lparr>bw_bytes := bw_bytes w @ replicate (capacity - length (bw_bytes w)) 0\<rparr>)"

definition bw_raw :: "bytes \<Rightarrow> ByteWriter \<Rightarrow> ByteWriter" where
  "bw_raw bs w =
     (let w = bw_ensure (length bs) w
      in w\<lparr>bw_bytes := take (bw_offset w) (bw_bytes w) @ bs @ drop (bw_offset w + length bs) (bw_bytes w),
           bw_offset := bw_offset w + length bs\<rparr>)"

definition bw_u8 :: "int \<Rightarrow> ByteWriter \<Rightarrow> ByteWriter" where
  "bw_u8 v = bw_raw (put_be 1 (nat (v mod 2 ^ 8)))"

definition bw_u16 :: "int \<Rightarrow> ByteWriter \<Rightarrow> ByteWriter" where
  "bw_u16 v = bw_raw (put_be 2 (nat (v mod 2 ^ 16)))"

definition bw_u32 :: "int \<Rightarrow> ByteWriter \<Rightarrow> ByteWriter" where
  "bw_u32 v = bw_raw (put_be 4 (nat (v mod 2 ^ 32)))"

definition bw_u64 :: "int \<Rightarrow> ByteWriter \<Rightarrow> ByteWriter" where
  "bw_u64 v = bw_raw (put_be 8 (nat (v mod 2 ^ 64)))"

definition bw_i64 :: "int \<Rightarrow> ByteWriter \<Rightarrow> ByteWriter" where
  "bw_i64 v = bw_raw (setBigInt64 v)"

definition bw_finish :: "ByteWriter \<Rightarrow> bytes" where
  "bw_finish w = take (bw_offset w) (bw_bytes w)"

definition bw_ok :: "ByteWriter \<Rightarrow> bool" where
  "bw_ok w \<longleftrightarrow> bw_offset w \<le> length (bw_bytes w) \<and> bw_bytes w \<noteq> []"

lemma bw_new_ok: "bw_ok (bw_new capacity) \<and> bw_finish (bw_new capacity) = []"
  by (simp add: bw_ok_def bw_new_def bw_finish_def)

lemma growCapacity_enough: "0 < capacity \<Longrightarrow> required \<le> growCapacity required capacity \<and> capacity \<le> growCapacity required capacity"
proof (induction required capacity rule: growCapacity.induct)
  case (1 required capacity)
  show ?case
  proof (cases "capacity < required")
    case True
    then show ?thesis using 1 by (simp add: growCapacity.simps [of required capacity])
  qed (simp add: growCapacity.simps [of required capacity])
qed

lemma bw_ensure_ok:
  assumes "bw_ok w"
  shows "bw_offset w + extra \<le> length (bw_bytes (bw_ensure extra w))" and "bw_offset (bw_ensure extra w) = bw_offset w"
    and "take (bw_offset w) (bw_bytes (bw_ensure extra w)) = take (bw_offset w) (bw_bytes w)"
    and "bw_bytes (bw_ensure extra w) \<noteq> []"
  using assms growCapacity_enough [of "length (bw_bytes w) * 2" "bw_offset w + extra"]
  by (auto simp: bw_ensure_def Let_def bw_ok_def)

text \<open>Whatever the buffer does, a write appends.\<close>

lemma bw_raw_appends:
  assumes "bw_ok w"
  shows "bw_ok (bw_raw bs w) \<and> bw_finish (bw_raw bs w) = bw_finish w @ bs"
  using bw_ensure_ok [OF assms, of "length bs"] assms
  by (auto simp: bw_raw_def bw_finish_def bw_ok_def Let_def min_def)

section \<open>The reader\<close>

record ByteReader =
  br_bytes :: bytes
  br_offset :: nat

definition br_new :: "bytes \<Rightarrow> ByteReader" where
  "br_new bs = \<lparr>br_bytes = bs, br_offset = 0\<rparr>"

definition br_remaining :: "ByteReader \<Rightarrow> nat" where
  "br_remaining r = length (br_bytes r) - br_offset r"

definition br_require :: "nat \<Rightarrow> ByteReader \<Rightarrow> unit option" where
  "br_require n r = (if n > br_remaining r then None else Some ())"

definition br_take :: "nat \<Rightarrow> ByteReader \<Rightarrow> (bytes \<times> ByteReader) option" where
  "br_take n r =
     do { br_require n r;
          Some (take n (drop (br_offset r) (br_bytes r)), r\<lparr>br_offset := br_offset r + n\<rparr>) }"

definition br_u8 :: "ByteReader \<Rightarrow> (int \<times> ByteReader) option" where
  "br_u8 r = do { (bs, r) \<leftarrow> br_take 1 r; Some (int (get_be bs), r) }"

definition br_u16 :: "ByteReader \<Rightarrow> (int \<times> ByteReader) option" where
  "br_u16 r = do { (bs, r) \<leftarrow> br_take 2 r; Some (int (get_be bs), r) }"

definition br_u32 :: "ByteReader \<Rightarrow> (int \<times> ByteReader) option" where
  "br_u32 r = do { (bs, r) \<leftarrow> br_take 4 r; Some (int (get_be bs), r) }"

definition br_u64 :: "ByteReader \<Rightarrow> (int \<times> ByteReader) option" where
  "br_u64 r = do { (bs, r) \<leftarrow> br_take 8 r; Some (int (get_be bs), r) }"

definition br_i64 :: "ByteReader \<Rightarrow> (int \<times> ByteReader) option" where
  "br_i64 r = do { (bs, r) \<leftarrow> br_take 8 r; Some (getBigInt64 bs, r) }"

definition br_end :: "ByteReader \<Rightarrow> unit option" where
  "br_end r = (if br_remaining r \<noteq> 0 then None else Some ())"

definition br_ok :: "ByteReader \<Rightarrow> bool" where
  "br_ok r \<longleftrightarrow> br_offset r \<le> length (br_bytes r)"

definition br_rest :: "ByteReader \<Rightarrow> bytes" where
  "br_rest r = drop (br_offset r) (br_bytes r)"

lemma br_new_ok: "br_ok (br_new bs) \<and> br_rest (br_new bs) = bs"
  by (simp add: br_ok_def br_new_def br_rest_def)

lemma br_end_iff: "br_end r = Some () \<longleftrightarrow> br_rest r = []"
  by (auto simp: br_end_def br_remaining_def br_rest_def)

section \<open>Readers that undo writers\<close>

definition codec_at :: "(ByteWriter \<Rightarrow> ByteWriter option) \<Rightarrow> (ByteReader \<Rightarrow> ('a \<times> ByteReader) option) \<Rightarrow> 'a \<Rightarrow> bool" where
  "codec_at wr rd x \<longleftrightarrow> (\<forall>w w'. bw_ok w \<longrightarrow> wr w = Some w' \<longrightarrow> bw_ok w' \<and>
     (\<exists>bs. bw_finish w' = bw_finish w @ bs \<and> (\<forall>r rest. br_ok r \<and> br_rest r = bs @ rest \<longrightarrow>
        (\<exists>r'. rd r = Some (x, r') \<and> br_ok r' \<and> br_rest r' = rest))))"

lemma codec_atI:
  assumes "\<And>w w'. bw_ok w \<Longrightarrow> wr w = Some w' \<Longrightarrow> bw_ok w' \<and>
     (\<exists>bs. bw_finish w' = bw_finish w @ bs \<and> (\<forall>r rest. br_ok r \<and> br_rest r = bs @ rest \<longrightarrow>
        (\<exists>r'. rd r = Some (x, r') \<and> br_ok r' \<and> br_rest r' = rest)))"
  shows "codec_at wr rd x"
  using assms unfolding codec_at_def by blast

lemma codec_atE:
  assumes "codec_at wr rd x" and "bw_ok w" and "wr w = Some w'"
  obtains bs where "bw_ok w'" and "bw_finish w' = bw_finish w @ bs"
    and "\<And>r rest. br_ok r \<Longrightarrow> br_rest r = bs @ rest \<Longrightarrow> \<exists>r'. rd r = Some (x, r') \<and> br_ok r' \<and> br_rest r' = rest"
  using assms unfolding codec_at_def by meson

named_theorems codec

lemma codec_bind [codec]:
  assumes "codec_at wa ra x" and "codec_at wb (rb x) y"
  shows "codec_at (\<lambda>w. Option.bind (wa w) wb) (\<lambda>r. Option.bind (ra r) (case_prod rb)) y"
proof (rule codec_atI)
  fix w w' assume ok: "bw_ok w" and run: "Option.bind (wa w) wb = Some w'"
  obtain w1 where w1: "wa w = Some w1" "wb w1 = Some w'" using run by (auto simp: Option.bind_eq_Some_conv)
  obtain bs where bs: "bw_ok w1" "bw_finish w1 = bw_finish w @ bs"
    "\<And>r rest. br_ok r \<Longrightarrow> br_rest r = bs @ rest \<Longrightarrow> \<exists>r'. ra r = Some (x, r') \<and> br_ok r' \<and> br_rest r' = rest"
    using codec_atE [OF assms(1) ok w1(1)] by metis
  obtain cs where cs: "bw_ok w'" "bw_finish w' = bw_finish w1 @ cs"
    "\<And>r rest. br_ok r \<Longrightarrow> br_rest r = cs @ rest \<Longrightarrow> \<exists>r'. rb x r = Some (y, r') \<and> br_ok r' \<and> br_rest r' = rest"
    using codec_atE [OF assms(2) bs(1) w1(2)] by metis
  have "\<exists>r'. Option.bind (ra r) (case_prod rb) = Some (y, r') \<and> br_ok r' \<and> br_rest r' = rest"
    if r: "br_ok r" "br_rest r = (bs @ cs) @ rest" for r rest
  proof -
    obtain r1 where r1: "ra r = Some (x, r1)" "br_ok r1" "br_rest r1 = cs @ rest" using bs(3) [OF r(1)] r(2) by auto
    then show ?thesis using cs(3) [OF r1(2,3)] by simp
  qed
  then show "bw_ok w' \<and> (\<exists>bs. bw_finish w' = bw_finish w @ bs \<and> (\<forall>r rest. br_ok r \<and> br_rest r = bs @ rest \<longrightarrow>
        (\<exists>r'. Option.bind (ra r) (case_prod rb) = Some (y, r') \<and> br_ok r' \<and> br_rest r' = rest)))"
    using bs(2) cs(1,2) by (intro conjI exI [of _ "bs @ cs"]) auto
qed

lemma codec_return: "codec_at Some (\<lambda>r. Some (x, r)) x"
  by (rule codec_atI) (auto intro: exI [of _ "[]"])

lemma codec_last:
  assumes "codec_at wr ra x" and "codec_at Some (rb x) y"
  shows "codec_at wr (\<lambda>r. Option.bind (ra r) (case_prod rb)) y"
  using codec_bind [where wa = wr and ra = ra and wb = Some and rb = rb, OF assms] by simp

lemma codec_map: "codec_at wr rd x \<Longrightarrow> codec_at wr (\<lambda>r. Option.bind (rd r) (\<lambda>(a, r). Some (f a, r))) (f x)"
  by (rule codec_last [where rb = "\<lambda>a r. Some (f a, r)", OF _ codec_return])

lemma codec_write_if: "(\<not> bad \<Longrightarrow> codec_at wr rd x) \<Longrightarrow> codec_at (\<lambda>w. if bad then None else wr w) rd x"
  by (cases bad) (simp_all add: codec_at_def)

lemma codec_read_if: "\<not> bad \<Longrightarrow> codec_at wr rd x \<Longrightarrow> codec_at wr (\<lambda>r. if bad then None else rd r) x"
  by simp

lemma codec_raw: "codec_at (\<lambda>w. Some (bw_raw bs w)) (br_take (length bs)) bs"
proof (rule codec_atI)
  fix w w' assume "bw_ok w" "Some (bw_raw bs w) = Some w'"
  then have w': "bw_ok w'" "bw_finish w' = bw_finish w @ bs" using bw_raw_appends by auto
  have "\<exists>r'. br_take (length bs) r = Some (bs, r') \<and> br_ok r' \<and> br_rest r' = rest"
    if "br_ok r" "br_rest r = bs @ rest" for r rest
  proof -
    have len: "length (br_bytes r) - br_offset r = length bs + length rest"
      using arg_cong [OF that(2), of length] by (simp add: br_rest_def)
    then have "br_take (length bs) r = Some (bs, r\<lparr>br_offset := br_offset r + length bs\<rparr>)"
      using that(2) by (simp add: br_take_def br_require_def br_remaining_def br_rest_def)
    moreover have "drop (length bs) (drop (br_offset r) (br_bytes r)) = rest" using that(2) by (simp add: br_rest_def)
    ultimately show ?thesis using that(1) len by (simp add: br_ok_def br_rest_def add.commute)
  qed
  then show "bw_ok w' \<and> (\<exists>bs'. bw_finish w' = bw_finish w @ bs' \<and> (\<forall>r rest. br_ok r \<and> br_rest r = bs' @ rest \<longrightarrow>
        (\<exists>r'. br_take (length bs) r = Some (bs, r') \<and> br_ok r' \<and> br_rest r' = rest)))"
    using w' by blast
qed

lemma codec_be:
  assumes "0 \<le> v" and "v < 256 ^ n"
  shows "codec_at (\<lambda>w. Some (bw_raw (put_be n (nat (v mod 256 ^ n))) w))
    (\<lambda>r. Option.bind (br_take n r) (\<lambda>(bs, r). Some (int (get_be bs), r))) v"
proof -
  have "int (get_be (put_be n (nat (v mod 256 ^ n)))) = v"
    using assms by (simp add: nat_mod_distrib nat_power_eq zmod_int nat_less_iff)
  then show ?thesis using codec_map [OF codec_raw, of "put_be n (nat (v mod 256 ^ n))" "\<lambda>bs. int (get_be bs)"]
    by (simp only: length_put_be)
qed

lemma codec_u8: "0 \<le> v \<Longrightarrow> v < 2 ^ 8 \<Longrightarrow> codec_at (\<lambda>w. Some (bw_u8 v w)) br_u8 v"
  using codec_be [of v 1] by (simp add: bw_u8_def br_u8_def [abs_def])

lemma codec_u16: "0 \<le> v \<Longrightarrow> v < 2 ^ 16 \<Longrightarrow> codec_at (\<lambda>w. Some (bw_u16 v w)) br_u16 v"
  using codec_be [of v 2] by (simp add: bw_u16_def br_u16_def [abs_def])

lemma codec_u32: "0 \<le> v \<Longrightarrow> v < 2 ^ 32 \<Longrightarrow> codec_at (\<lambda>w. Some (bw_u32 v w)) br_u32 v"
  using codec_be [of v 4] by (simp add: bw_u32_def br_u32_def [abs_def])

lemma codec_u64: "0 \<le> v \<Longrightarrow> v < 2 ^ 64 \<Longrightarrow> codec_at (\<lambda>w. Some (bw_u64 v w)) br_u64 v"
  using codec_be [of v 8] by (simp add: bw_u64_def br_u64_def [abs_def])

lemma codec_i64: "- (2 ^ 63) \<le> v \<Longrightarrow> v < 2 ^ 63 \<Longrightarrow> codec_at (\<lambda>w. Some (bw_i64 v w)) br_i64 v"
  using codec_map [OF codec_raw, of "setBigInt64 v" getBigInt64] asIntN64_small [of v]
  by (simp add: bw_i64_def br_i64_def [abs_def])

section \<open>Readers that do not look ahead\<close>

definition br_extend :: "bytes \<Rightarrow> ByteReader \<Rightarrow> ByteReader" where
  "br_extend ext r = r\<lparr>br_bytes := br_bytes r @ ext\<rparr>"

definition prefix_stable :: "(ByteReader \<Rightarrow> ('a \<times> ByteReader) option) \<Rightarrow> bool" where
  "prefix_stable rd \<longleftrightarrow> (\<forall>r x r' ext. br_ok r \<longrightarrow> rd r = Some (x, r') \<longrightarrow>
     br_ok r' \<and> rd (br_extend ext r) = Some (x, br_extend ext r'))"

named_theorems stability

lemma stable_return [stability]: "prefix_stable (\<lambda>r. Some (x, r))"
  by (simp add: prefix_stable_def)

lemma stable_fail [stability]: "prefix_stable (\<lambda>r. None)"
  by (simp add: prefix_stable_def)

lemma stable_bind [stability]:
  assumes "prefix_stable ra" and "\<And>x. prefix_stable (rb x)"
  shows "prefix_stable (\<lambda>r. Option.bind (ra r) (case_prod rb))"
  unfolding prefix_stable_def
proof (intro allI impI)
  fix r y r' ext assume r: "br_ok r" and run: "Option.bind (ra r) (case_prod rb) = Some (y, r')"
  obtain x q where q: "ra r = Some (x, q)" "rb x q = Some (y, r')" using run by (cases "ra r") auto
  have one: "br_ok q" "ra (br_extend ext r) = Some (x, br_extend ext q)"
    using assms(1) r q(1) unfolding prefix_stable_def by blast+
  have "br_ok r'" "rb x (br_extend ext q) = Some (y, br_extend ext r')"
    using assms(2) [of x] one(1) q(2) unfolding prefix_stable_def by blast+
  then show "br_ok r' \<and> Option.bind (ra (br_extend ext r)) (case_prod rb) = Some (y, br_extend ext r')"
    using one(2) by simp
qed

lemma stable_option [stability]: "(\<And>a. prefix_stable (rb a)) \<Longrightarrow> prefix_stable (\<lambda>r. Option.bind v (\<lambda>a. rb a r))"
  by (cases v) (simp_all add: stability)

lemma stable_if [stability]: "prefix_stable ra \<Longrightarrow> prefix_stable rb \<Longrightarrow> prefix_stable (\<lambda>r. if c then ra r else rb r)"
  by (cases c) simp_all

lemma stable_take [stability]: "prefix_stable (br_take n)"
  by (auto simp: prefix_stable_def br_take_def br_require_def br_remaining_def br_extend_def br_ok_def
      Option.bind_eq_Some_conv split: if_splits)

lemma stable_numbers [stability]:
  "prefix_stable br_u8" "prefix_stable br_u16" "prefix_stable br_u32" "prefix_stable br_u64" "prefix_stable br_i64"
  unfolding br_u8_def br_u16_def br_u32_def br_u64_def br_i64_def by (intro stability)+

section \<open>Loops over a count\<close>

fun write_all :: "('a \<Rightarrow> ByteWriter \<Rightarrow> ByteWriter option) \<Rightarrow> 'a list \<Rightarrow> ByteWriter \<Rightarrow> ByteWriter option" where
  "write_all wr [] w = Some w"
| "write_all wr (x # xs) w = do { w \<leftarrow> wr x w; write_all wr xs w }"

fun read_all :: "(ByteReader \<Rightarrow> ('a \<times> ByteReader) option) \<Rightarrow> nat \<Rightarrow> ByteReader \<Rightarrow> ('a list \<times> ByteReader) option" where
  "read_all rd 0 r = Some ([], r)"
| "read_all rd (Suc n) r = do { (x, r) \<leftarrow> rd r; (xs, r) \<leftarrow> read_all rd n r; Some (x # xs, r) }"

text \<open>
  What a codec promises for the values in \<open>fit\<close>: the reader gives back what the writer
  wrote, and looks no further.  Lists of such values, with their count in front,
  then have a codec too.
\<close>

locale wire_codec =
  fixes wr :: "'a \<Rightarrow> ByteWriter \<Rightarrow> ByteWriter option"
    and rd :: "ByteReader \<Rightarrow> ('a \<times> ByteReader) option"
    and fit :: "'a \<Rightarrow> bool"
  assumes undoes: "fit x \<Longrightarrow> codec_at (wr x) rd x"
    and stable_rd: "prefix_stable rd"
begin

lemma undoes_all: "\<forall>x \<in> set xs. fit x \<Longrightarrow> codec_at (write_all wr xs) (read_all rd (length xs)) xs"
proof (induction xs)
  case Nil
  have "write_all wr [] = Some" "read_all rd (length []) = (\<lambda>r. Some ([], r))" by (auto simp: fun_eq_iff)
  then show ?case using codec_return [of "[]"] by simp
next
  case (Cons x xs)
  have "codec_at (write_all wr xs) (\<lambda>r. Option.bind (read_all rd (length xs) r) (\<lambda>(ys, r). Some (x # ys, r))) (x # xs)"
    using codec_map [OF Cons.IH, of "Cons x"] Cons.prems by simp
  from codec_bind [where wa = "wr x" and ra = rd and x = x
      and rb = "\<lambda>x r. Option.bind (read_all rd (length xs) r) (\<lambda>(ys, r). Some (x # ys, r))", OF undoes this] Cons.prems
  have "codec_at (\<lambda>w. Option.bind (wr x w) (write_all wr xs))
     (\<lambda>r. Option.bind (rd r) (\<lambda>(x, r). Option.bind (read_all rd (length xs) r) (\<lambda>(ys, r). Some (x # ys, r)))) (x # xs)"
    by simp
  moreover have "write_all wr (x # xs) = (\<lambda>w. Option.bind (wr x w) (write_all wr xs))"
    "read_all rd (length (x # xs)) =
       (\<lambda>r. Option.bind (rd r) (\<lambda>(x, r). Option.bind (read_all rd (length xs) r) (\<lambda>(ys, r). Some (x # ys, r))))"
    by (simp_all add: fun_eq_iff)
  ultimately show ?case by simp
qed

lemma stable_all: "prefix_stable (read_all rd n)"
proof (induction n)
  case 0
  have "read_all rd 0 = (\<lambda>r. Some ([], r))" by (simp add: fun_eq_iff)
  then show ?case by (simp add: stability)
next
  case (Suc n)
  have "read_all rd (Suc n) =
      (\<lambda>r. Option.bind (rd r) (\<lambda>(x, r). Option.bind (read_all rd n r) (\<lambda>(xs, r). Some (x # xs, r))))"
    by (simp add: fun_eq_iff)
  then show ?case using stable_rd Suc by (simp add: stability)
qed

end

end
