(* ===== verification/Utf8.thy ===== *)
theory Utf8
  imports KvHash
begin

text \<open>
  Reading text back: \<open>String.isWellFormed\<close> and the fatal \<open>TextDecoder\<close> the codecs share.
  The decoder keeps how many continuation bytes it still needs and the bounds of the
  next one, rejects anything outside them, and drops a byte order mark at the start
  of its input.  Decoding what \<^const>\<open>encode\<close> wrote gives the text back, except for
  that mark.
\<close>

fun isWellFormed :: "jsstr \<Rightarrow> bool" where
  "isWellFormed [] \<longleftrightarrow> True"
| "isWellFormed [u] \<longleftrightarrow> \<not> (is_high u \<or> is_low u)"
| "isWellFormed (u # v # us) \<longleftrightarrow>
     (if is_high u \<and> is_low v then isWellFormed us
      else \<not> (is_high u \<or> is_low u) \<and> isWellFormed (v # us))"

section \<open>The decoder\<close>

text \<open>What a first byte announces: continuation bytes needed, the bounds of the first one, and its own bits.\<close>

definition lead :: "nat \<Rightarrow> (nat \<times> nat \<times> nat \<times> nat) option" where
  "lead x =
     (if x < 0x80 then Some (0, 0x80, 0xBF, x)
      else if 0xC2 \<le> x \<and> x \<le> 0xDF then Some (1, 0x80, 0xBF, x - 0xC0)
      else if 0xE0 \<le> x \<and> x \<le> 0xEF
      then Some (2, if x = 0xE0 then 0xA0 else 0x80, if x = 0xED then 0x9F else 0xBF, x - 0xE0)
      else if 0xF0 \<le> x \<and> x \<le> 0xF4
      then Some (3, if x = 0xF0 then 0x90 else 0x80, if x = 0xF4 then 0x8F else 0xBF, x - 0xF0)
      else None)"

fun conts :: "nat \<Rightarrow> nat \<Rightarrow> nat \<Rightarrow> nat \<Rightarrow> 8 word list \<Rightarrow> (nat \<times> 8 word list) option" where
  "conts 0 lower upper cp s = Some (cp, s)"
| "conts (Suc n) lower upper cp [] = None"
| "conts (Suc n) lower upper cp (b # s) =
     (if lower \<le> unat b \<and> unat b \<le> upper then conts n 0x80 0xBF (cp * 0x40 + (unat b - 0x80)) s else None)"

lemma conts_length: "conts n lower upper cp s = Some (c, s') \<Longrightarrow> length s' \<le> length s"
  by (induction n lower upper cp s rule: conts.induct) (auto split: if_splits)

function decode_points :: "8 word list \<Rightarrow> nat list option" where
  "decode_points [] = Some []"
| "decode_points (b # s) =
     (case lead (unat b) of
        None \<Rightarrow> None
      | Some (n, lower, upper, cp) \<Rightarrow>
          (case conts n lower upper cp s of
             None \<Rightarrow> None
           | Some (c, s') \<Rightarrow> map_option (Cons c) (decode_points s')))"
  by pat_completeness auto
termination
  by (relation "measure length") (auto dest: conts_length)

definition utf16_units :: "nat \<Rightarrow> jsstr" where
  "utf16_units c =
     (if c < 0x10000 then [of_nat c]
      else [of_nat (0xD800 + (c - 0x10000) div 0x400), of_nat (0xDC00 + (c - 0x10000) mod 0x400)])"

definition text_decode :: "8 word list \<Rightarrow> jsstr option" where
  "text_decode bytes =
     map_option (\<lambda>points. concat (map utf16_units points))
       (decode_points (if take 3 bytes = [0xEF, 0xBB, 0xBF] then drop 3 bytes else bytes))"

section \<open>Round trip\<close>

definition scalar :: "nat \<Rightarrow> bool" where
  "scalar c \<longleftrightarrow> c < 0xD800 \<or> 0xE000 \<le> c \<and> c < 0x110000"

lemma unat_byte [simp]: "x < 256 \<Longrightarrow> unat (of_nat x :: 8 word) = x"
  by (simp add: unat_of_nat)

lemma mod_six_bits [simp]: "(x :: nat) mod 0x40 \<le> 0x3F"
  using mod_less_divisor [of 64 x] by linarith

lemma decode_three:
  assumes "a < 0x10" "b < 0x40" "d < 0x40" "a = 0 \<longrightarrow> 0x20 \<le> b" "a = 0xD \<longrightarrow> b < 0x20"
  shows "decode_points (of_nat (0xE0 + a) # of_nat (0x80 + b) # of_nat (0x80 + d) # s)
    = map_option (Cons ((a * 0x40 + b) * 0x40 + d)) (decode_points s)"
proof -
  have "lead (0xE0 + a) = Some (2, if a = 0 then 0xA0 else 0x80, if a = 0xD then 0x9F else 0xBF, a)"
    using assms(1) by (simp add: lead_def)
  then show ?thesis using assms by (auto simp: numeral_2_eq_2 simp del: of_nat_add)
qed

lemma decode_four:
  assumes "a < 5" "b < 0x40" "d < 0x40" "e < 0x40" "a = 0 \<longrightarrow> 0x10 \<le> b" "a = 4 \<longrightarrow> b < 0x10"
  shows "decode_points (of_nat (0xF0 + a) # of_nat (0x80 + b) # of_nat (0x80 + d) # of_nat (0x80 + e) # s)
    = map_option (Cons (((a * 0x40 + b) * 0x40 + d) * 0x40 + e)) (decode_points s)"
proof -
  have "lead (0xF0 + a) = Some (3, if a = 0 then 0x90 else 0x80, if a = 4 then 0x8F else 0xBF, a)"
    using assms(1) by (simp add: lead_def)
  then show ?thesis using assms by (auto simp: numeral_3_eq_3 simp del: of_nat_add)
qed

lemma decode_utf8:
  assumes "scalar c"
  shows "decode_points (utf8_bytes c @ s) = map_option (Cons c) (decode_points s)"
proof -
  consider "c < 0x80" | "0x80 \<le> c" "c < 0x800" | "0x800 \<le> c" "c < 0x10000" | "0x10000 \<le> c" by linarith
  then show ?thesis
  proof cases
    case 1
    then show ?thesis by (simp add: utf8_bytes_def lead_def)
  next
    case 2
    then have x: "2 \<le> c div 0x40" "c div 0x40 < 0x20" by (simp_all add: less_mult_imp_div_less)
    then have "lead (0xC0 + c div 0x40) = Some (1, 0x80, 0xBF, c div 0x40)" by (simp add: lead_def)
    moreover have "c div 0x40 * 0x40 + c mod 0x40 = c" by simp
    ultimately show ?thesis using 2 x by (simp add: utf8_bytes_def del: of_nat_add)
  next
    case 3
    let ?a = "c div 0x1000" and ?b = "c div 0x40 mod 0x40" and ?d = "c mod 0x40"
    have a: "?a < 0x10" using 3 by (simp add: less_mult_imp_div_less)
    have whole: "(?a * 0x40 + ?b) * 0x40 + ?d = c"
    proof -
      have "c div 0x1000 = c div 0x40 div 0x40" by (simp add: div_mult2_eq [symmetric])
      then show ?thesis by (simp add: div_mult_mod_eq)
    qed
    have low: "?a = 0 \<Longrightarrow> 0x20 \<le> ?b" using whole 3(1) by (cases "?a = 0") auto
    have high: "?a = 0xD \<Longrightarrow> ?b < 0x20"
    proof -
      assume "?a = 0xD"
      then have "(0xD * 0x40 + ?b) * 0x40 + ?d = c" using whole by simp
      moreover have "c < 0xE000" using \<open>?a = 0xD\<close> by linarith
      then have "c < 0xD800" using assms by (auto simp: scalar_def)
      moreover have "(0xD * 0x40 + x) * 0x40 + y < 0xD800 \<Longrightarrow> x < 0x20" for x y :: nat by presburger
      ultimately show "?b < 0x20" by metis
    qed
    have "utf8_bytes c @ s = of_nat (0xE0 + ?a) # of_nat (0x80 + ?b) # of_nat (0x80 + ?d) # s"
      using 3 by (simp add: utf8_bytes_def del: of_nat_add)
    then show ?thesis using decode_three [of ?a ?b ?d s] a low high unfolding whole by simp
  next
    case 4
    let ?a = "c div 0x40000" and ?b = "c div 0x1000 mod 0x40" and ?d = "c div 0x40 mod 0x40" and ?e = "c mod 0x40"
    have c: "c < 0x110000" using 4 assms by (auto simp: scalar_def)
    then have a: "?a < 5" by (simp add: less_mult_imp_div_less)
    have whole: "((?a * 0x40 + ?b) * 0x40 + ?d) * 0x40 + ?e = c"
    proof -
      have "c div 0x40000 = c div 0x1000 div 0x40" "c div 0x1000 = c div 0x40 div 0x40"
        by (simp_all add: div_mult2_eq [symmetric])
      then show ?thesis by (simp add: div_mult_mod_eq)
    qed
    have small: "?d < 0x40" "?e < 0x40" by simp_all
    have sums: "?a * 0x40000 + ?b * 0x1000 + ?d * 0x40 + ?e = c" using whole by simp
    have bounds: "w * 0x40000 + x * 0x1000 + y * 0x40 + z = c \<Longrightarrow> y < 0x40 \<Longrightarrow> z < 0x40 \<Longrightarrow> w = 0 \<Longrightarrow> 0x10 \<le> x"
      "w * 0x40000 + x * 0x1000 + y * 0x40 + z = c \<Longrightarrow> w = 4 \<Longrightarrow> x < 0x10" for w x y z :: nat
      using 4 c by linarith+
    have low: "?a = 0 \<Longrightarrow> 0x10 \<le> ?b" by (rule bounds(1) [OF sums small])
    have high: "?a = 4 \<Longrightarrow> ?b < 0x10" by (rule bounds(2) [OF sums])
    have "utf8_bytes c @ s = of_nat (0xF0 + ?a) # of_nat (0x80 + ?b) # of_nat (0x80 + ?d) # of_nat (0x80 + ?e) # s"
      using 4 by (simp add: utf8_bytes_def del: of_nat_add)
    then show ?thesis using decode_four [of ?a ?b ?d ?e s] a low high unfolding whole by simp
  qed
qed

lemma decode_concat: "\<forall>c \<in> set cs. scalar c \<Longrightarrow> decode_points (concat (map utf8_bytes cs)) = Some cs"
  by (induction cs) (simp_all add: decode_utf8)

lemma utf16_of_unit: "\<not> (is_high u \<or> is_low u) \<Longrightarrow> scalar (unat u) \<and> utf16_units (unat u) = [u]"
proof -
  assume u: "\<not> (is_high u \<or> is_low u)"
  have "unat u < 0x10000" using unsigned_less [of u, where ?'a = nat] by simp
  moreover have "unat u < 0xD800 \<or> 0xE000 \<le> unat u"
    using u by (auto simp: is_high_def is_low_def word_le_nat_alt not_le)
  ultimately show ?thesis by (simp add: scalar_def utf16_units_def)
qed

lemma utf16_of_pair:
  assumes "is_high u" and "is_low v"
  shows "scalar (0x10000 + (unat u - 0xD800) * 0x400 + (unat v - 0xDC00))"
    and "utf16_units (0x10000 + (unat u - 0xD800) * 0x400 + (unat v - 0xDC00)) = [u, v]"
proof -
  have u: "0xD800 \<le> unat u" "unat u \<le> 0xDBFF" and v: "0xDC00 \<le> unat v" "unat v \<le> 0xDFFF"
    using assms by (simp_all add: is_high_def is_low_def word_le_nat_alt)
  let ?a = "unat u - 0xD800" and ?b = "unat v - 0xDC00"
  have ab: "?a < 0x400" "?b < 0x400" using u v by auto
  then show "scalar (0x10000 + ?a * 0x400 + ?b)" by (simp add: scalar_def)
  have "(0x10000 + ?a * 0x400 + ?b - 0x10000) div 0x400 = ?a" "(0x10000 + ?a * 0x400 + ?b - 0x10000) mod 0x400 = ?b"
    using ab by simp_all
  moreover have "(of_nat (0xD800 + ?a) :: 16 word) = u" "(of_nat (0xDC00 + ?b) :: 16 word) = v"
    using u v by simp_all
  ultimately show "utf16_units (0x10000 + ?a * 0x400 + ?b) = [u, v]" by (simp add: utf16_units_def del: of_nat_add)
qed

lemma code_points_back:
  "isWellFormed s \<Longrightarrow> (\<forall>c \<in> set (code_points s). scalar c) \<and> concat (map utf16_units (code_points s)) = s"
proof (induction s rule: isWellFormed.induct)
  case (2 u)
  then show ?case using utf16_of_unit [of u] by simp
next
  case (3 u v us)
  show ?case
  proof (cases "is_high u \<and> is_low v")
    case True
    then show ?thesis using 3 utf16_of_pair [of u v] by simp
  next
    case False
    then show ?thesis using 3(2) [OF False] 3(3) utf16_of_unit [of u] by auto
  qed
qed simp

definition bom :: "16 word" where "bom = 0xFEFF"

lemma hd_code_point:
  assumes "isWellFormed s" and "code_points s = 0xFEFF # cs"
  shows "\<exists>t. s = bom # t \<and> code_points t = cs \<and> isWellFormed t"
proof (cases s rule: code_points.cases)
  case (2 u)
  then have "unat u = 0xFEFF" using assms by (simp split: if_splits)
  then have "u = bom" by (simp add: bom_def word_unat_eq_iff)
  then show ?thesis using 2 assms by simp
next
  case (3 u v us)
  have "\<not> (is_high u \<and> is_low v)"
  proof
    assume "is_high u \<and> is_low v"
    then have "0x10000 + (unat u - 0xD800) * 0x400 + (unat v - 0xDC00) = (0xFEFF :: nat)" using assms(2) 3 by simp
    then show False by linarith
  qed
  then have u: "unat u = 0xFEFF" "code_points (v # us) = cs" "isWellFormed (v # us)" using assms 3 by auto
  then have "u = bom" by (simp add: bom_def word_unat_eq_iff)
  then show ?thesis using u 3 by simp
qed (use assms in simp)

lemma bom_bytes: "utf8_bytes 0xFEFF = [0xEF, 0xBB, 0xBF]"
  by (simp add: utf8_bytes_def)

text \<open>The text comes back, but for a byte order mark, which is lost.\<close>

lemma text_decode_encode:
  assumes "isWellFormed s"
  shows "text_decode (encode s) = Some (if s \<noteq> [] \<and> hd s = bom then tl s else s)"
proof -
  have pts: "\<forall>c \<in> set (code_points s). scalar c" "concat (map utf16_units (code_points s)) = s"
    using code_points_back [OF assms] by auto
  have decoded: "decode_points (encode s) = Some (code_points s)" unfolding encode_def by (rule decode_concat [OF pts(1)])
  show ?thesis
  proof (cases "take 3 (encode s) = [0xEF, 0xBB, 0xBF]")
    case True
    then have split: "encode s = utf8_bytes 0xFEFF @ drop 3 (encode s)"
      unfolding bom_bytes by (metis append_take_drop_id)
    have "decode_points (encode s) = map_option (Cons 0xFEFF) (decode_points (drop 3 (encode s)))"
      by (subst split, rule decode_utf8) (simp add: scalar_def)
    then obtain cs where cs: "decode_points (drop 3 (encode s)) = Some cs" "code_points s = 0xFEFF # cs"
      using decoded by (cases "decode_points (drop 3 (encode s))") auto
    then obtain t where t: "s = bom # t" "code_points t = cs" "isWellFormed t" using hd_code_point [OF assms] by blast
    then have "concat (map utf16_units cs) = t" using code_points_back [OF t(3)] by simp
    then show ?thesis using True cs(1) t(1) by (simp add: text_decode_def)
  next
    case False
    have "\<not> (s \<noteq> [] \<and> hd s = bom)"
    proof
      assume "s \<noteq> [] \<and> hd s = bom"
      then obtain t where s: "s = bom # t" by (cases s) auto
      have "code_points s = 0xFEFF # code_points t"
        unfolding s by (cases t) (simp_all add: bom_def is_high_def is_low_def)
      then show False using False by (simp add: encode_def bom_bytes)
    qed
    then show ?thesis using False decoded pts(2) by (auto simp: text_decode_def)
  qed
qed

section \<open>The tolerant decoder\<close>

text \<open>
  A \<open>TextDecoder\<close> without \<open>fatal\<close> writes U+FFFD for a malformed sequence and takes the byte
  that broke it again.
\<close>

fun conts_lossy :: "nat \<Rightarrow> nat \<Rightarrow> nat \<Rightarrow> nat \<Rightarrow> 8 word list \<Rightarrow> nat \<times> 8 word list" where
  "conts_lossy 0 lower upper cp s = (cp, s)"
| "conts_lossy (Suc n) lower upper cp [] = (0xFFFD, [])"
| "conts_lossy (Suc n) lower upper cp (b # s) =
     (if lower \<le> unat b \<and> unat b \<le> upper then conts_lossy n 0x80 0xBF (cp * 0x40 + (unat b - 0x80)) s else (0xFFFD, b # s))"

lemma conts_lossy_length: "conts_lossy n lower upper cp s = (c, s') \<Longrightarrow> length s' \<le> length s"
  by (induction n lower upper cp s rule: conts_lossy.induct) (auto split: if_splits)

lemma conts_lossy: "conts n lower upper cp s = Some p \<Longrightarrow> conts_lossy n lower upper cp s = p"
  by (induction n lower upper cp s rule: conts.induct) (auto split: if_splits)

function lossy_points :: "8 word list \<Rightarrow> nat list" where
  "lossy_points [] = []"
| "lossy_points (b # s) =
     (case lead (unat b) of
        None \<Rightarrow> 0xFFFD # lossy_points s
      | Some (n, lower, upper, cp) \<Rightarrow> (case conts_lossy n lower upper cp s of (c, s') \<Rightarrow> c # lossy_points s'))"
  by pat_completeness auto
termination
  by (relation "measure length") (auto dest!: conts_lossy_length [OF sym])

lemma lossy_exact: "decode_points s = Some cs \<Longrightarrow> lossy_points s = cs"
proof (induction s arbitrary: cs rule: decode_points.induct)
  case (2 b s)
  then obtain n lower upper cp c s' where split: "lead (unat b) = Some (n, lower, upper, cp)" "conts n lower upper cp s = Some (c, s')"
    by (auto split: option.splits)
  then obtain ds where "decode_points s' = Some ds" "cs = c # ds" using 2(2) by auto
  then show ?case using 2(1) [OF split(1) refl refl refl split(2) refl] conts_lossy [OF split(2)] split(1) by simp
qed simp

definition text_decode_lossy :: "8 word list \<Rightarrow> jsstr" where
  "text_decode_lossy bytes =
     concat (map utf16_units (lossy_points (if take 3 bytes = [0xEF, 0xBB, 0xBF] then drop 3 bytes else bytes)))"

lemma text_decode_lossy: "text_decode bytes = Some t \<Longrightarrow> text_decode_lossy bytes = t"
  by (auto simp: text_decode_def text_decode_lossy_def dest: lossy_exact)

end
