(* ===== verification/Wire.thy ===== *)
theory Wire
  imports Codec Utf8 Fragment RoutingTable
begin

unbundle bit_operations_syntax

text \<open>
  The store's message codec, \<open>src/kv/wire.ts\<close>: every field writer and reader, the
  nineteen messages with their envelope, and the dispatch on the type byte.  A field
  out of range, when writing or reading, is a protocol error, \<^term>\<open>None\<close>.

  The theory shows that decoding an encoded message gives the message back when none
  of its strings starts with a byte order mark, which the text decoder drops, and
  that no truncated and no extended frame is accepted.
\<close>

section \<open>Constants\<close>

definition MAX_KEY_BYTES :: nat where "MAX_KEY_BYTES = 1024"
definition MAX_VALUE_BYTES :: nat where "MAX_VALUE_BYTES = 1048576"
definition PROTOCOL_VERSION :: int where "PROTOCOL_VERSION = 1"
definition MAX_NAME_BYTES :: nat where "MAX_NAME_BYTES = 255"
definition MAX_OWNERS_PER_PARTITION :: nat where "MAX_OWNERS_PER_PARTITION = 16"
definition MAX_WIRE_PARTITIONS :: nat where "MAX_WIRE_PARTITIONS = 1048576"
definition MAX_CHUNK_ENTRIES :: nat where "MAX_CHUNK_ENTRIES = 1048576"

definition MAX_U64 :: int where "MAX_U64 = 0xffffffffffffffff"
definition MIN_I64 :: int where "MIN_I64 = - (2 ^ 63)"
definition MAX_I64 :: int where "MAX_I64 = 2 ^ 63 - 1"
definition MAX_SAFE_INTEGER :: int where "MAX_SAFE_INTEGER = 2 ^ 53 - 1"

lemmas wire_limits = MAX_KEY_BYTES_def MAX_VALUE_BYTES_def MAX_NAME_BYTES_def MAX_OWNERS_PER_PARTITION_def
  MAX_WIRE_PARTITIONS_def MAX_CHUNK_ENTRIES_def MAX_U64_def MIN_I64_def MAX_I64_def MAX_SAFE_INTEGER_def

section \<open>Fields\<close>

definition assertUnsignedInteger :: "int \<Rightarrow> unit option" where
  "assertUnsignedInteger v = (if \<not> isSafeInteger v \<or> v < 0 then None else Some ())"

definition assertU32 :: "int \<Rightarrow> unit option" where
  "assertU32 v = (if \<not> isSafeInteger v \<or> v < 0 \<or> v > 0xffffffff then None else Some ())"

definition assertU64 :: "int \<Rightarrow> unit option" where
  "assertU64 v = (if v < 0 \<or> v > MAX_U64 then None else Some ())"

definition decodeUtf8 :: "bytes \<Rightarrow> jsstr option" where
  "decodeUtf8 bs = do { t \<leftarrow> text_decode bs; if 0 \<in> set t then None else Some t }"

definition writeName :: "jsstr \<Rightarrow> ByteWriter \<Rightarrow> ByteWriter option" where
  "writeName name w =
     (if 0 \<in> set name then None
      else if length (encode name) = 0 \<or> length (encode name) > MAX_NAME_BYTES then None
      else if \<not> isWellFormed name then None
      else do { w \<leftarrow> Some (bw_u8 (int (length (encode name))) w); Some (bw_raw (encode name) w) })"

definition readName :: "ByteReader \<Rightarrow> (jsstr \<times> ByteReader) option" where
  "readName r =
     do { (n, r) \<leftarrow> br_u8 r;
          if n = 0 then None
          else do { (bs, r) \<leftarrow> br_take (nat n) r; t \<leftarrow> decodeUtf8 bs; Some (t, r) } }"

definition writeKey :: "jsstr \<Rightarrow> ByteWriter \<Rightarrow> ByteWriter option" where
  "writeKey key w =
     (if 0 \<in> set key then None
      else if length (encode key) = 0 \<or> length (encode key) > MAX_KEY_BYTES then None
      else if \<not> isWellFormed key then None
      else do { w \<leftarrow> Some (bw_u16 (int (length (encode key))) w); Some (bw_raw (encode key) w) })"

definition readKey :: "ByteReader \<Rightarrow> (jsstr \<times> ByteReader) option" where
  "readKey r =
     do { (n, r) \<leftarrow> br_u16 r;
          if n = 0 \<or> n > int MAX_KEY_BYTES then None
          else do { (bs, r) \<leftarrow> br_take (nat n) r; t \<leftarrow> decodeUtf8 bs; Some (t, r) } }"

definition writeBlob :: "nat \<Rightarrow> bytes \<Rightarrow> ByteWriter \<Rightarrow> ByteWriter option" where
  "writeBlob limit bs w =
     (if length bs > limit then None
      else do { w \<leftarrow> Some (bw_u32 (int (length bs)) w); Some (bw_raw bs w) })"

definition readBlob :: "nat \<Rightarrow> ByteReader \<Rightarrow> (bytes \<times> ByteReader) option" where
  "readBlob limit r =
     do { (n, r) \<leftarrow> br_u32 r; if n > int limit then None else br_take (nat n) r }"

definition writeHybridTime :: "HybridTime \<Rightarrow> ByteWriter \<Rightarrow> ByteWriter option" where
  "writeHybridTime time w =
     do { assertUnsignedInteger (wallMs time);
          assertU32 (logical time);
          w \<leftarrow> Some (bw_u64 (wallMs time) w);
          w \<leftarrow> Some (bw_u32 (logical time) w);
          writeName (node time) w }"

definition readHybridTime :: "ByteReader \<Rightarrow> (HybridTime \<times> ByteReader) option" where
  "readHybridTime r =
     do { (wall, r) \<leftarrow> br_u64 r;
          if wall > MAX_SAFE_INTEGER then None
          else do { (l, r) \<leftarrow> br_u32 r; (nd, r) \<leftarrow> readName r; Some (HybridTime wall l nd, r) } }"

definition readSafeU64 :: "ByteReader \<Rightarrow> (int \<times> ByteReader) option" where
  "readSafeU64 r = do { (v, r) \<leftarrow> br_u64 r; if v > MAX_SAFE_INTEGER then None else Some (v, r) }"

section \<open>Entries\<close>

definition ENTRY_FLAG_DELETED :: int where "ENTRY_FLAG_DELETED = 1"

definition ENTRY_FLAG_EXPIRES :: int where "ENTRY_FLAG_EXPIRES = 2"

definition writeEntry :: "Entry \<Rightarrow> ByteWriter \<Rightarrow> ByteWriter option" where
  "writeEntry e w =
     (if e_deleted e \<noteq> (e_value e = None) then None
      else
        do { assertU64 (e_sequence e);
             (case e_expiresAt e of None \<Rightarrow> Some () | Some t \<Rightarrow> assertUnsignedInteger t);
             w \<leftarrow> Some (bw_u8 ((if e_deleted e then ENTRY_FLAG_DELETED else 0)
                              OR (if e_expiresAt e \<noteq> None then ENTRY_FLAG_EXPIRES else 0)) w);
             w \<leftarrow> writeKey (e_key e) w;
             w \<leftarrow> writeHybridTime (e_timestamp e) w;
             w \<leftarrow> Some (bw_u64 (e_sequence e) w);
             w \<leftarrow> (case e_expiresAt e of None \<Rightarrow> Some w | Some t \<Rightarrow> Some (bw_u64 t w));
             (case e_value e of None \<Rightarrow> Some w | Some v \<Rightarrow> writeBlob MAX_VALUE_BYTES v w) })"

definition readEntry :: "ByteReader \<Rightarrow> (Entry \<times> ByteReader) option" where
  "readEntry r =
     do { (flags, r) \<leftarrow> br_u8 r;
          if flags AND NOT (ENTRY_FLAG_DELETED OR ENTRY_FLAG_EXPIRES) \<noteq> 0 then None
          else
            do { (key, r) \<leftarrow> readKey r;
                 (timestamp, r) \<leftarrow> readHybridTime r;
                 (sequence, r) \<leftarrow> br_u64 r;
                 (expiresAt, r) \<leftarrow> (if flags AND ENTRY_FLAG_EXPIRES \<noteq> 0
                                    then do { (v, r) \<leftarrow> readSafeU64 r; Some (Some v, r) } else Some (None, r));
                 (v, r) \<leftarrow> (if flags AND ENTRY_FLAG_DELETED \<noteq> 0 then Some (None, r)
                            else do { (v, r) \<leftarrow> readBlob MAX_VALUE_BYTES r; Some (Some v, r) });
                 Some (\<lparr>e_key = key, e_value = v, e_timestamp = timestamp, e_sequence = sequence,
                        e_expiresAt = expiresAt, e_deleted = (flags AND ENTRY_FLAG_DELETED \<noteq> 0)\<rparr>, r) } }"

section \<open>Operations and results\<close>

definition OP_PUT :: int where "OP_PUT = 1"
definition OP_DELETE :: int where "OP_DELETE = 2"
definition OP_INCR :: int where "OP_INCR = 3"
definition OP_CAS :: int where "OP_CAS = 4"
definition RESULT_APPLIED :: int where "RESULT_APPLIED = 1"
definition RESULT_REJECTED :: int where "RESULT_REJECTED = 0"

fun CONDITION_TO_BYTE :: "PutCondition \<Rightarrow> int" where
  "CONDITION_TO_BYTE NoCondition = 0"
| "CONDITION_TO_BYTE IfAbsent = 1"
| "CONDITION_TO_BYTE IfPresent = 2"

definition BYTE_TO_CONDITION :: "int \<Rightarrow> PutCondition option" where
  "BYTE_TO_CONDITION b =
     (if b = 0 then Some NoCondition else if b = 1 then Some IfAbsent else if b = 2 then Some IfPresent else None)"

fun REASON_TO_BYTE :: "ConditionFailure \<Rightarrow> int" where
  "REASON_TO_BYTE Nx = 0"
| "REASON_TO_BYTE Xx = 1"
| "REASON_TO_BYTE Cas = 2"

definition BYTE_TO_REASON :: "int \<Rightarrow> ConditionFailure option" where
  "BYTE_TO_REASON b = (if b = 0 then Some Nx else if b = 1 then Some Xx else if b = 2 then Some Cas else None)"

definition writePut :: "jsstr \<Rightarrow> bytes \<Rightarrow> PutCondition \<Rightarrow> int option \<Rightarrow> ByteWriter \<Rightarrow> ByteWriter option" where
  "writePut key v condition ttlMs w =
     do { w \<leftarrow> Some (bw_u8 OP_PUT w);
          w \<leftarrow> Some (bw_u8 (CONDITION_TO_BYTE condition) w);
          w \<leftarrow> Some (bw_u8 (if ttlMs \<noteq> None then 1 else 0) w);
          w \<leftarrow> writeKey key w;
          w \<leftarrow> writeBlob MAX_VALUE_BYTES v w;
          (case ttlMs of None \<Rightarrow> Some w | Some ttl \<Rightarrow> do { assertUnsignedInteger ttl; Some (bw_u64 ttl w) }) }"

definition writeIncrement :: "jsstr \<Rightarrow> int \<Rightarrow> ByteWriter \<Rightarrow> ByteWriter option" where
  "writeIncrement key delta w =
     (if delta < MIN_I64 \<or> delta > MAX_I64 then None
      else do { w \<leftarrow> Some (bw_u8 OP_INCR w); w \<leftarrow> writeKey key w; Some (bw_i64 delta w) })"

definition writeCompareAndSet :: "jsstr \<Rightarrow> bytes \<Rightarrow> bytes \<Rightarrow> ByteWriter \<Rightarrow> ByteWriter option" where
  "writeCompareAndSet key expected v w =
     do { w \<leftarrow> Some (bw_u8 OP_CAS w);
          w \<leftarrow> writeKey key w;
          w \<leftarrow> writeBlob MAX_VALUE_BYTES expected w;
          writeBlob MAX_VALUE_BYTES v w }"

fun writeWriteOp :: "WriteOp \<Rightarrow> ByteWriter \<Rightarrow> ByteWriter option" where
  "writeWriteOp (PutOp key v condition ttlMs) w = writePut key v condition ttlMs w"
| "writeWriteOp (DeleteOp key) w = do { w \<leftarrow> Some (bw_u8 OP_DELETE w); writeKey key w }"
| "writeWriteOp (IncrementOp key delta) w = writeIncrement key delta w"
| "writeWriteOp (CompareAndSetOp key expected v) w = writeCompareAndSet key expected v w"

definition readPut :: "ByteReader \<Rightarrow> (WriteOp \<times> ByteReader) option" where
  "readPut r =
     do { (conditionByte, r) \<leftarrow> br_u8 r;
          condition \<leftarrow> BYTE_TO_CONDITION conditionByte;
          (ttlByte, r) \<leftarrow> br_u8 r;
          if ttlByte > 1 then None
          else
            do { (key, r) \<leftarrow> readKey r;
                 (v, r) \<leftarrow> readBlob MAX_VALUE_BYTES r;
                 if ttlByte = 0 then Some (PutOp key v condition None, r)
                 else do { (ttl, r) \<leftarrow> readSafeU64 r; Some (PutOp key v condition (Some ttl), r) } } }"

definition readCompareAndSet :: "ByteReader \<Rightarrow> (WriteOp \<times> ByteReader) option" where
  "readCompareAndSet r =
     do { (key, r) \<leftarrow> readKey r;
          (expected, r) \<leftarrow> readBlob MAX_VALUE_BYTES r;
          (v, r) \<leftarrow> readBlob MAX_VALUE_BYTES r;
          Some (CompareAndSetOp key expected v, r) }"

definition readWriteOp :: "ByteReader \<Rightarrow> (WriteOp \<times> ByteReader) option" where
  "readWriteOp r =
     do { (opcode, r) \<leftarrow> br_u8 r;
          if opcode = OP_PUT then readPut r
          else if opcode = OP_DELETE then do { (key, r) \<leftarrow> readKey r; Some (DeleteOp key, r) }
          else if opcode = OP_INCR
          then do { (key, r) \<leftarrow> readKey r; (delta, r) \<leftarrow> br_i64 r; Some (IncrementOp key delta, r) }
          else if opcode = OP_CAS then readCompareAndSet r
          else None }"

fun writeWriteResult :: "WriteResult \<Rightarrow> ByteWriter \<Rightarrow> ByteWriter option" where
  "writeWriteResult (WriteApplied e) w = do { w \<leftarrow> Some (bw_u8 RESULT_APPLIED w); writeEntry e w }"
| "writeWriteResult (WriteRejected reason) w =
     do { w \<leftarrow> Some (bw_u8 RESULT_REJECTED w); Some (bw_u8 (REASON_TO_BYTE reason) w) }"

definition readWriteResult :: "ByteReader \<Rightarrow> (WriteResult \<times> ByteReader) option" where
  "readWriteResult r =
     do { (marker, r) \<leftarrow> br_u8 r;
          if marker = RESULT_APPLIED then do { (e, r) \<leftarrow> readEntry r; Some (WriteApplied e, r) }
          else if marker \<noteq> RESULT_REJECTED then None
          else do { (b, r) \<leftarrow> br_u8 r; reason \<leftarrow> BYTE_TO_REASON b; Some (WriteRejected reason, r) } }"

section \<open>Compound fields\<close>

definition writePartitionField :: "nat \<Rightarrow> ByteWriter \<Rightarrow> ByteWriter option" where
  "writePartitionField pid w = do { assertU32 (int pid); Some (bw_u32 (int pid) w) }"

definition readPartitionField :: "ByteReader \<Rightarrow> (nat \<times> ByteReader) option" where
  "readPartitionField r = do { (v, r) \<leftarrow> br_u32 r; Some (nat v, r) }"

definition writeDigest :: "DigestLanes \<Rightarrow> ByteWriter \<Rightarrow> ByteWriter option" where
  "writeDigest digest w =
     do { assertU32 (uint (hi digest));
          assertU32 (uint (lo digest));
          w \<leftarrow> Some (bw_u32 (uint (hi digest)) w);
          Some (bw_u32 (uint (lo digest)) w) }"

definition readDigest :: "ByteReader \<Rightarrow> (DigestLanes \<times> ByteReader) option" where
  "readDigest r =
     do { (h, r) \<leftarrow> br_u32 r; (l, r) \<leftarrow> br_u32 r; Some (\<lparr>hi = word_of_int h, lo = word_of_int l\<rparr>, r) }"

definition writeDigests :: "DigestLanes list \<Rightarrow> ByteWriter \<Rightarrow> ByteWriter option" where
  "writeDigests digests w =
     (if length digests > REPAIR_BUCKETS then None
      else do { w \<leftarrow> Some (bw_u32 (int (length digests)) w); write_all writeDigest digests w })"

definition readDigests :: "ByteReader \<Rightarrow> (DigestLanes list \<times> ByteReader) option" where
  "readDigests r =
     do { (n, r) \<leftarrow> br_u32 r; if n > int REPAIR_BUCKETS then None else read_all readDigest (nat n) r }"

definition writeBuckets :: "nat list \<Rightarrow> ByteWriter \<Rightarrow> ByteWriter option" where
  "writeBuckets buckets w =
     (if length buckets > REPAIR_BUCKETS then None
      else do { w \<leftarrow> Some (bw_u32 (int (length buckets)) w); write_all writePartitionField buckets w })"

definition readBuckets :: "ByteReader \<Rightarrow> (nat list \<times> ByteReader) option" where
  "readBuckets r =
     do { (n, r) \<leftarrow> br_u32 r; if n > int REPAIR_BUCKETS then None else read_all readPartitionField (nat n) r }"

definition writeKeyVersion :: "KeyVersion \<Rightarrow> ByteWriter \<Rightarrow> ByteWriter option" where
  "writeKeyVersion v w = do { w \<leftarrow> writeKey (kv_key v) w; writeHybridTime (kv_timestamp v) w }"

definition readKeyVersion :: "ByteReader \<Rightarrow> (KeyVersion \<times> ByteReader) option" where
  "readKeyVersion r =
     do { (key, r) \<leftarrow> readKey r; (t, r) \<leftarrow> readHybridTime r; Some (\<lparr>kv_key = key, kv_timestamp = t\<rparr>, r) }"

definition writeKeyVersions :: "KeyVersion list \<Rightarrow> ByteWriter \<Rightarrow> ByteWriter option" where
  "writeKeyVersions versions w =
     (if length versions > MAX_CHUNK_ENTRIES then None
      else do { w \<leftarrow> Some (bw_u32 (int (length versions)) w); write_all writeKeyVersion versions w })"

definition readKeyVersions :: "ByteReader \<Rightarrow> (KeyVersion list \<times> ByteReader) option" where
  "readKeyVersions r =
     do { (n, r) \<leftarrow> br_u32 r; if n > int MAX_CHUNK_ENTRIES then None else read_all readKeyVersion (nat n) r }"

definition writeKeys :: "jsstr list \<Rightarrow> ByteWriter \<Rightarrow> ByteWriter option" where
  "writeKeys keys w =
     (if length keys > MAX_CHUNK_ENTRIES then None
      else do { w \<leftarrow> Some (bw_u32 (int (length keys)) w); write_all writeKey keys w })"

definition readKeys :: "ByteReader \<Rightarrow> (jsstr list \<times> ByteReader) option" where
  "readKeys r =
     do { (n, r) \<leftarrow> br_u32 r; if n > int MAX_CHUNK_ENTRIES then None else read_all readKey (nat n) r }"

fun writeOptionalKey :: "jsstr option \<Rightarrow> ByteWriter \<Rightarrow> ByteWriter option" where
  "writeOptionalKey None w = Some (bw_u8 0 w)"
| "writeOptionalKey (Some key) w = do { w \<leftarrow> Some (bw_u8 1 w); writeKey key w }"

definition readOptionalKey :: "ByteReader \<Rightarrow> (jsstr option \<times> ByteReader) option" where
  "readOptionalKey r =
     do { (present, r) \<leftarrow> br_u8 r;
          if present = 0 then Some (None, r)
          else if present \<noteq> 1 then None
          else do { (key, r) \<leftarrow> readKey r; Some (Some key, r) } }"

fun writeOptionalEntry :: "Entry option \<Rightarrow> ByteWriter \<Rightarrow> ByteWriter option" where
  "writeOptionalEntry None w = Some (bw_u8 0 w)"
| "writeOptionalEntry (Some e) w = do { w \<leftarrow> Some (bw_u8 1 w); writeEntry e w }"

definition readOptionalEntry :: "ByteReader \<Rightarrow> (Entry option \<times> ByteReader) option" where
  "readOptionalEntry r =
     do { (present, r) \<leftarrow> br_u8 r;
          if present = 0 then Some (None, r)
          else if present \<noteq> 1 then None
          else do { (e, r) \<leftarrow> readEntry r; Some (Some e, r) } }"

definition writeOwners :: "jsstr list \<Rightarrow> ByteWriter \<Rightarrow> ByteWriter option" where
  "writeOwners owners w =
     (if length owners = 0 \<or> length owners > MAX_OWNERS_PER_PARTITION then None
      else do { w \<leftarrow> Some (bw_u8 (int (length owners)) w); write_all writeName owners w })"

definition readOwners :: "ByteReader \<Rightarrow> (jsstr list \<times> ByteReader) option" where
  "readOwners r =
     do { (n, r) \<leftarrow> br_u8 r;
          if n = 0 \<or> n > int MAX_OWNERS_PER_PARTITION then None else read_all readName (nat n) r }"

definition writeTable :: "RoutingTableWire \<Rightarrow> ByteWriter \<Rightarrow> ByteWriter option" where
  "writeTable table w =
     do { assertU64 (rw_version table);
          if length (rw_partitions table) > MAX_WIRE_PARTITIONS then None
          else
            do { w \<leftarrow> Some (bw_u64 (rw_version table) w);
                 w \<leftarrow> Some (bw_u32 (int (length (rw_partitions table))) w);
                 write_all writeOwners (rw_partitions table) w } }"

definition readTable :: "ByteReader \<Rightarrow> (RoutingTableWire \<times> ByteReader) option" where
  "readTable r =
     do { (version, r) \<leftarrow> br_u64 r;
          (n, r) \<leftarrow> br_u32 r;
          if n > int MAX_WIRE_PARTITIONS then None
          else do { (partitions, r) \<leftarrow> read_all readOwners (nat n) r;
                    Some (\<lparr>rw_version = version, rw_partitions = partitions\<rparr>, r) } }"

definition writeChunk :: "FragmentChunk \<Rightarrow> ByteWriter \<Rightarrow> ByteWriter option" where
  "writeChunk chunk w =
     do { assertU32 (int (fc_partitionId chunk));
          if length (fc_entries chunk) > MAX_CHUNK_ENTRIES then None
          else
            do { w \<leftarrow> Some (bw_u32 (int (fc_partitionId chunk)) w);
                 w \<leftarrow> Some (bw_u8 (if fc_final chunk then 1 else 0) w);
                 w \<leftarrow> Some (bw_u32 (int (length (fc_entries chunk))) w);
                 write_all writeEntry (fc_entries chunk) w } }"

definition readChunk :: "ByteReader \<Rightarrow> (FragmentChunk \<times> ByteReader) option" where
  "readChunk r =
     do { (pid, r) \<leftarrow> br_u32 r;
          (finalByte, r) \<leftarrow> br_u8 r;
          if finalByte > 1 then None
          else
            do { (n, r) \<leftarrow> br_u32 r;
                 if n > int MAX_CHUNK_ENTRIES then None
                 else do { (entries, r) \<leftarrow> read_all readEntry (nat n) r;
                           Some (\<lparr>fc_partitionId = nat pid, fc_final = (finalByte = 1), fc_entries = entries\<rparr>, r) } } }"

definition writeOwnershipReport :: "OwnershipReport \<Rightarrow> ByteWriter \<Rightarrow> ByteWriter option" where
  "writeOwnershipReport report w =
     (if length (or_partitions report) > MAX_WIRE_PARTITIONS then None
      else
        do { w \<leftarrow> writeName (or_node report) w;
             w \<leftarrow> Some (bw_u32 (int (length (or_partitions report))) w);
             write_all writePartitionField (or_partitions report) w })"

definition readOwnershipReport :: "ByteReader \<Rightarrow> (OwnershipReport \<times> ByteReader) option" where
  "readOwnershipReport r =
     do { (nd, r) \<leftarrow> readName r;
          (n, r) \<leftarrow> br_u32 r;
          if n > int MAX_WIRE_PARTITIONS then None
          else do { (partitions, r) \<leftarrow> read_all readPartitionField (nat n) r;
                    Some (\<lparr>or_node = nd, or_partitions = partitions\<rparr>, r) } }"

section \<open>Messages\<close>

datatype KvMessage =
    ReadRequest jsstr
  | ReadResponse "Entry option"
  | WriteRequest WriteOp
  | WriteResponse WriteResult
  | Table RoutingTableWire
  | Chunk FragmentChunk
  | Report OwnershipReport
  | Replicate Entry
  | ReplicateAck
  | PeekRequest jsstr
  | Rebalancing nat
  | FragmentRequest nat "jsstr option"
  | FragmentPush FragmentChunk
  | FragmentAck
  | SyncDigest nat DigestLanes
  | BucketDigests nat "DigestLanes list"
  | KeyVersionsRequest nat "nat list"
  | KeyVersions nat "KeyVersion list"
  | EntriesRequest nat "jsstr list"

definition MSG_READ_REQUEST :: int where "MSG_READ_REQUEST = 0x01"
definition MSG_READ_RESPONSE :: int where "MSG_READ_RESPONSE = 0x02"
definition MSG_WRITE_REQUEST :: int where "MSG_WRITE_REQUEST = 0x03"
definition MSG_WRITE_RESPONSE :: int where "MSG_WRITE_RESPONSE = 0x04"
definition MSG_REPLICATE :: int where "MSG_REPLICATE = 0x05"
definition MSG_REPLICATE_ACK :: int where "MSG_REPLICATE_ACK = 0x06"
definition MSG_PEEK_REQUEST :: int where "MSG_PEEK_REQUEST = 0x07"
definition MSG_REBALANCING :: int where "MSG_REBALANCING = 0x08"
definition MSG_FRAGMENT_REQUEST :: int where "MSG_FRAGMENT_REQUEST = 0x09"
definition MSG_FRAGMENT_PUSH :: int where "MSG_FRAGMENT_PUSH = 0x0a"
definition MSG_FRAGMENT_ACK :: int where "MSG_FRAGMENT_ACK = 0x0b"
definition MSG_SYNC_DIGEST :: int where "MSG_SYNC_DIGEST = 0x0c"
definition MSG_BUCKET_DIGESTS :: int where "MSG_BUCKET_DIGESTS = 0x0d"
definition MSG_KEY_VERSIONS_REQUEST :: int where "MSG_KEY_VERSIONS_REQUEST = 0x0e"
definition MSG_KEY_VERSIONS :: int where "MSG_KEY_VERSIONS = 0x0f"
definition MSG_TABLE :: int where "MSG_TABLE = 0x10"
definition MSG_FRAGMENT_CHUNK :: int where "MSG_FRAGMENT_CHUNK = 0x11"
definition MSG_OWNERSHIP_REPORT :: int where "MSG_OWNERSHIP_REPORT = 0x12"
definition MSG_ENTRIES_REQUEST :: int where "MSG_ENTRIES_REQUEST = 0x13"

lemmas message_types = MSG_READ_REQUEST_def MSG_READ_RESPONSE_def MSG_WRITE_REQUEST_def MSG_WRITE_RESPONSE_def MSG_REPLICATE_def MSG_REPLICATE_ACK_def MSG_PEEK_REQUEST_def MSG_REBALANCING_def MSG_FRAGMENT_REQUEST_def MSG_FRAGMENT_PUSH_def MSG_FRAGMENT_ACK_def MSG_SYNC_DIGEST_def MSG_BUCKET_DIGESTS_def MSG_KEY_VERSIONS_REQUEST_def MSG_KEY_VERSIONS_def MSG_TABLE_def MSG_FRAGMENT_CHUNK_def MSG_OWNERSHIP_REPORT_def MSG_ENTRIES_REQUEST_def

definition writeEnvelope :: "int \<Rightarrow> ByteWriter \<Rightarrow> ByteWriter option" where
  "writeEnvelope type w = do { w \<leftarrow> Some (bw_u8 PROTOCOL_VERSION w); Some (bw_u8 type w) }"

fun encodeBody :: "KvMessage \<Rightarrow> ByteWriter \<Rightarrow> ByteWriter option" where
  "encodeBody (ReadRequest key) w = do { w \<leftarrow> writeEnvelope MSG_READ_REQUEST w; writeKey key w }"
| "encodeBody (ReadResponse e) w = do { w \<leftarrow> writeEnvelope MSG_READ_RESPONSE w; writeOptionalEntry e w }"
| "encodeBody (WriteRequest opn) w = do { w \<leftarrow> writeEnvelope MSG_WRITE_REQUEST w; writeWriteOp opn w }"
| "encodeBody (WriteResponse result) w = do { w \<leftarrow> writeEnvelope MSG_WRITE_RESPONSE w; writeWriteResult result w }"
| "encodeBody (Table table) w = do { w \<leftarrow> writeEnvelope MSG_TABLE w; writeTable table w }"
| "encodeBody (Chunk chunk) w = do { w \<leftarrow> writeEnvelope MSG_FRAGMENT_CHUNK w; writeChunk chunk w }"
| "encodeBody (Report report) w = do { w \<leftarrow> writeEnvelope MSG_OWNERSHIP_REPORT w; writeOwnershipReport report w }"
| "encodeBody (Replicate e) w = do { w \<leftarrow> writeEnvelope MSG_REPLICATE w; writeEntry e w }"
| "encodeBody ReplicateAck w = writeEnvelope MSG_REPLICATE_ACK w"
| "encodeBody (PeekRequest key) w = do { w \<leftarrow> writeEnvelope MSG_PEEK_REQUEST w; writeKey key w }"
| "encodeBody (Rebalancing pid) w = do { w \<leftarrow> writeEnvelope MSG_REBALANCING w; writePartitionField pid w }"
| "encodeBody (FragmentRequest pid afterKey) w =
     do { w \<leftarrow> writeEnvelope MSG_FRAGMENT_REQUEST w; w \<leftarrow> writePartitionField pid w; writeOptionalKey afterKey w }"
| "encodeBody (FragmentPush chunk) w = do { w \<leftarrow> writeEnvelope MSG_FRAGMENT_PUSH w; writeChunk chunk w }"
| "encodeBody FragmentAck w = writeEnvelope MSG_FRAGMENT_ACK w"
| "encodeBody (SyncDigest pid digest) w =
     do { w \<leftarrow> writeEnvelope MSG_SYNC_DIGEST w; w \<leftarrow> writePartitionField pid w; writeDigest digest w }"
| "encodeBody (BucketDigests pid digests) w =
     do { w \<leftarrow> writeEnvelope MSG_BUCKET_DIGESTS w; w \<leftarrow> writePartitionField pid w; writeDigests digests w }"
| "encodeBody (KeyVersionsRequest pid buckets) w =
     do { w \<leftarrow> writeEnvelope MSG_KEY_VERSIONS_REQUEST w; w \<leftarrow> writePartitionField pid w; writeBuckets buckets w }"
| "encodeBody (KeyVersions pid versions) w =
     do { w \<leftarrow> writeEnvelope MSG_KEY_VERSIONS w; w \<leftarrow> writePartitionField pid w; writeKeyVersions versions w }"
| "encodeBody (EntriesRequest pid keys) w =
     do { w \<leftarrow> writeEnvelope MSG_ENTRIES_REQUEST w; w \<leftarrow> writePartitionField pid w; writeKeys keys w }"

definition encodeMessage :: "KvMessage \<Rightarrow> bytes option" where
  "encodeMessage message = do { w \<leftarrow> encodeBody message (bw_new 64); Some (bw_finish w) }"

definition decodeBody :: "int \<Rightarrow> ByteReader \<Rightarrow> (KvMessage \<times> ByteReader) option" where
  "decodeBody type r =
     (if type = MSG_READ_REQUEST then do { (key, r) \<leftarrow> readKey r; Some (ReadRequest key, r) }
      else if type = MSG_READ_RESPONSE then do { (e, r) \<leftarrow> readOptionalEntry r; Some (ReadResponse e, r) }
      else if type = MSG_WRITE_REQUEST then do { (opn, r) \<leftarrow> readWriteOp r; Some (WriteRequest opn, r) }
      else if type = MSG_WRITE_RESPONSE then do { (result, r) \<leftarrow> readWriteResult r; Some (WriteResponse result, r) }
      else if type = MSG_TABLE then do { (table, r) \<leftarrow> readTable r; Some (Table table, r) }
      else if type = MSG_FRAGMENT_CHUNK then do { (chunk, r) \<leftarrow> readChunk r; Some (Chunk chunk, r) }
      else if type = MSG_OWNERSHIP_REPORT then do { (report, r) \<leftarrow> readOwnershipReport r; Some (Report report, r) }
      else if type = MSG_REPLICATE then do { (e, r) \<leftarrow> readEntry r; Some (Replicate e, r) }
      else if type = MSG_REPLICATE_ACK then Some (ReplicateAck, r)
      else if type = MSG_PEEK_REQUEST then do { (key, r) \<leftarrow> readKey r; Some (PeekRequest key, r) }
      else if type = MSG_REBALANCING then do { (pid, r) \<leftarrow> readPartitionField r; Some (Rebalancing pid, r) }
      else if type = MSG_FRAGMENT_REQUEST
      then do { (pid, r) \<leftarrow> readPartitionField r; (key, r) \<leftarrow> readOptionalKey r; Some (FragmentRequest pid key, r) }
      else if type = MSG_FRAGMENT_PUSH then do { (chunk, r) \<leftarrow> readChunk r; Some (FragmentPush chunk, r) }
      else if type = MSG_FRAGMENT_ACK then Some (FragmentAck, r)
      else if type = MSG_SYNC_DIGEST
      then do { (pid, r) \<leftarrow> readPartitionField r; (digest, r) \<leftarrow> readDigest r; Some (SyncDigest pid digest, r) }
      else if type = MSG_BUCKET_DIGESTS
      then do { (pid, r) \<leftarrow> readPartitionField r; (digests, r) \<leftarrow> readDigests r; Some (BucketDigests pid digests, r) }
      else if type = MSG_KEY_VERSIONS_REQUEST
      then do { (pid, r) \<leftarrow> readPartitionField r; (buckets, r) \<leftarrow> readBuckets r; Some (KeyVersionsRequest pid buckets, r) }
      else if type = MSG_KEY_VERSIONS
      then do { (pid, r) \<leftarrow> readPartitionField r; (versions, r) \<leftarrow> readKeyVersions r; Some (KeyVersions pid versions, r) }
      else if type = MSG_ENTRIES_REQUEST
      then do { (pid, r) \<leftarrow> readPartitionField r; (keys, r) \<leftarrow> readKeys r; Some (EntriesRequest pid keys, r) }
      else None)"

definition decodeMessage :: "bytes \<Rightarrow> KvMessage option" where
  "decodeMessage bs =
     do { (version, r) \<leftarrow> br_u8 (br_new bs);
          if version \<noteq> PROTOCOL_VERSION then None
          else do { (type, r) \<leftarrow> br_u8 r; (message, r) \<leftarrow> decodeBody type r; br_end r; Some message } }"

definition messageType :: "bytes \<Rightarrow> int option" where
  "messageType bs =
     do { (version, r) \<leftarrow> br_u8 (br_new bs);
          if version \<noteq> PROTOCOL_VERSION then None
          else do { (type, r) \<leftarrow> br_u8 r; Some type } }"

section \<open>Fields come back\<close>

lemma codec_write_assert:
  "(a = Some () \<Longrightarrow> codec_at wr rd x) \<Longrightarrow> codec_at (\<lambda>w. Option.bind a (\<lambda>_. wr w)) rd x"
  by (cases a) (simp_all add: codec_at_def)

lemma codec_read_option:
  "v = Some a \<Longrightarrow> codec_at wr (rb a) x \<Longrightarrow> codec_at wr (\<lambda>r. Option.bind v (\<lambda>a. rb a r)) x"
  by simp

text \<open>A text without a leading byte order mark.\<close>

definition unmarked :: "jsstr \<Rightarrow> bool" where
  "unmarked s \<longleftrightarrow> s = [] \<or> hd s \<noteq> bom"

lemma codec_text:
  assumes "unmarked s" and "isWellFormed s" and "0 \<notin> set s"
  shows "codec_at (\<lambda>w. Some (bw_raw (encode s) w))
    (\<lambda>r. Option.bind (br_take (nat (int (length (encode s)))) r) (\<lambda>(bs, r). Option.bind (decodeUtf8 bs) (\<lambda>t. Some (t, r)))) s"
proof -
  have "text_decode (encode s) = Some s" using text_decode_encode [OF assms(2)] assms(1) by (auto simp: unmarked_def)
  then have "decodeUtf8 (encode s) = Some s" using assms(3) by (simp add: decodeUtf8_def)
  then show ?thesis unfolding nat_int
    by (intro codec_last [OF codec_raw] codec_read_option) (auto intro: codec_return)
qed

lemma codec_name: "unmarked s \<Longrightarrow> codec_at (writeName s) readName s"
  unfolding writeName_def [abs_def] readName_def [abs_def]
  by (intro codec_write_if codec_bind [OF codec_u8] codec_read_if codec_text) (auto simp: wire_limits)

lemma codec_key: "unmarked s \<Longrightarrow> codec_at (writeKey s) readKey s"
  unfolding writeKey_def [abs_def] readKey_def [abs_def]
  by (intro codec_write_if codec_bind [OF codec_u16] codec_read_if codec_text) (auto simp: wire_limits)

lemma codec_blob: "limit < 2 ^ 32 \<Longrightarrow> codec_at (writeBlob limit bs) (readBlob limit) bs"
  unfolding writeBlob_def [abs_def] readBlob_def [abs_def]
  by (intro codec_write_if codec_bind [OF codec_u32] codec_read_if) (auto intro: codec_raw)

lemma codec_time:
  assumes "unmarked (node t)"
  shows "codec_at (writeHybridTime t) readHybridTime t"
proof -
  obtain wall l nd where t: "t = HybridTime wall l nd" by (cases t)
  show ?thesis
    unfolding writeHybridTime_def [abs_def] readHybridTime_def [abs_def] t HybridTime.sel
    by (intro codec_write_assert codec_bind [OF codec_u64] codec_read_if codec_bind [OF codec_u32]
        codec_last [OF codec_name] codec_return)
      (use assms in \<open>auto simp: t assertUnsignedInteger_def assertU32_def isSafeInteger_def wire_limits split: if_splits\<close>)
qed

lemma codec_safe: "0 \<le> v \<Longrightarrow> isSafeInteger v \<Longrightarrow> codec_at (\<lambda>w. Some (bw_u64 v w)) readSafeU64 v"
  unfolding readSafeU64_def [abs_def]
  by (intro codec_last [OF codec_u64] codec_read_if codec_return) (auto simp: isSafeInteger_def wire_limits)

lemma codec_expiry:
  assumes "c \<longleftrightarrow> x \<noteq> None" and "(case x of None \<Rightarrow> Some () | Some t \<Rightarrow> assertUnsignedInteger t) = Some ()"
  shows "codec_at (\<lambda>w. case x of None \<Rightarrow> Some w | Some t \<Rightarrow> Some (bw_u64 t w))
    (\<lambda>r. if c then Option.bind (readSafeU64 r) (\<lambda>(v, r). Some (Some v, r)) else Some (None, r)) x"
proof (cases x)
  case (Some t)
  then have "0 \<le> t" "isSafeInteger t" using assms(2) by (auto simp: assertUnsignedInteger_def split: if_splits)
  from codec_map [OF codec_safe [OF this], of Some] show ?thesis using Some assms(1) by simp
qed (use assms(1) codec_return in simp)

lemma codec_value:
  assumes "c \<longleftrightarrow> x = None"
  shows "codec_at (\<lambda>w. case x of None \<Rightarrow> Some w | Some v \<Rightarrow> writeBlob MAX_VALUE_BYTES v w)
    (\<lambda>r. if c then Some (None, r) else Option.bind (readBlob MAX_VALUE_BYTES r) (\<lambda>(v, r). Some (Some v, r))) x"
proof (cases x)
  case (Some v)
  have "codec_at (writeBlob MAX_VALUE_BYTES v) (readBlob MAX_VALUE_BYTES) v" by (rule codec_blob) (simp add: wire_limits)
  from codec_map [OF this, of Some] show ?thesis using Some assms by simp
qed (use assms codec_return in simp)

definition unmarked_entry :: "Entry \<Rightarrow> bool" where
  "unmarked_entry e \<longleftrightarrow> unmarked (e_key e) \<and> unmarked (node (e_timestamp e))"

lemma entry_flags:
  fixes d c :: bool
  defines "flags \<equiv> (if d then ENTRY_FLAG_DELETED else 0) OR (if c then ENTRY_FLAG_EXPIRES else 0)"
  shows "0 \<le> flags" "flags < 2 ^ 8" "flags AND NOT (ENTRY_FLAG_DELETED OR ENTRY_FLAG_EXPIRES) = 0"
    "flags AND ENTRY_FLAG_EXPIRES \<noteq> 0 \<longleftrightarrow> c" "flags AND ENTRY_FLAG_DELETED \<noteq> 0 \<longleftrightarrow> d"
  by (cases d; cases c; simp add: flags_def ENTRY_FLAG_DELETED_def ENTRY_FLAG_EXPIRES_def)+

lemma codec_entry:
  assumes "unmarked_entry e"
  shows "codec_at (writeEntry e) readEntry e"
proof -
  let ?flags = "(if e_deleted e then ENTRY_FLAG_DELETED else 0) OR (if e_expiresAt e \<noteq> None then ENTRY_FLAG_EXPIRES else 0)"
  have e: "\<lparr>e_key = e_key e, e_value = e_value e, e_timestamp = e_timestamp e, e_sequence = e_sequence e,
      e_expiresAt = e_expiresAt e, e_deleted = (?flags AND ENTRY_FLAG_DELETED \<noteq> 0)\<rparr> = e"
    unfolding entry_flags by simp
  have seq: "0 \<le> e_sequence e" "e_sequence e < 2 ^ 64" if "assertU64 (e_sequence e) = Some ()"
    using that by (auto simp: assertU64_def wire_limits split: if_splits)
  have marks: "unmarked (e_key e)" "unmarked (node (e_timestamp e))" using assms by (auto simp: unmarked_entry_def)
  show ?thesis
    unfolding writeEntry_def [abs_def] readEntry_def [abs_def]
    apply (rule codec_write_if)
    apply (rule codec_write_assert)+
    apply (rule codec_bind [OF codec_u8 [OF entry_flags(1,2)]])
    apply (rule codec_read_if)
     apply (simp only: entry_flags(3) simp_thms)
    apply (rule codec_bind [OF codec_key [OF marks(1)]])
    apply (rule codec_bind [OF codec_time [OF marks(2)]])
    apply (rule codec_bind [OF codec_u64 [OF seq]], assumption, assumption)
    apply (rule codec_bind [OF codec_expiry])
      apply (rule entry_flags(4))
     apply assumption
    apply (rule codec_last [OF codec_value])
     apply (simp only: entry_flags(5) not_not)
    apply (subst e)
    apply (rule codec_return)
    done
qed

section \<open>No field looks ahead\<close>

lemma stable_fields [stability]:
  "prefix_stable readName" "prefix_stable readKey" "prefix_stable (readBlob limit)" "prefix_stable readSafeU64"
  "prefix_stable readPartitionField" "prefix_stable readDigest"
  unfolding readName_def readKey_def readBlob_def readSafeU64_def readPartitionField_def readDigest_def
  by (intro stability)+

lemma stable_time [stability]: "prefix_stable readHybridTime"
  unfolding readHybridTime_def by (intro stability)

lemma stable_entry [stability]: "prefix_stable readEntry"
  unfolding readEntry_def by (intro stability)

lemma stable_key_version [stability]: "prefix_stable readKeyVersion"
  unfolding readKeyVersion_def by (intro stability)

lemma stable_op [stability]: "prefix_stable readWriteOp"
  unfolding readWriteOp_def readPut_def readCompareAndSet_def by (intro stability)

lemma stable_result [stability]: "prefix_stable readWriteResult"
  unfolding readWriteResult_def by (intro stability)

section \<open>Lists\<close>

interpretation key_codec: wire_codec writeKey readKey unmarked
  by unfold_locales (auto intro: codec_key stability)

interpretation name_codec: wire_codec writeName readName unmarked
  by unfold_locales (auto intro: codec_name stability)

interpretation entry_codec: wire_codec writeEntry readEntry unmarked_entry
  by unfold_locales (auto intro: codec_entry stability)

lemma codec_partition: "codec_at (writePartitionField pid) readPartitionField pid"
proof -
  have "codec_at (\<lambda>w. Some (bw_u32 (int pid) w)) (\<lambda>r. Option.bind (br_u32 r) (\<lambda>(v, r). Some (nat v, r))) pid"
    if "assertU32 (int pid) = Some ()"
    using codec_map [OF codec_u32, of "int pid" nat] that by (auto simp: assertU32_def split: if_splits)
  then show ?thesis unfolding writePartitionField_def [abs_def] readPartitionField_def [abs_def] by (rule codec_write_assert)
qed

interpretation partition_codec: wire_codec writePartitionField readPartitionField "\<lambda>_. True"
  by unfold_locales (auto intro: codec_partition stability)

lemma codec_digest: "codec_at (writeDigest d) readDigest d"
proof -
  have lanes: "0 \<le> uint x" "uint x < 2 ^ 32" for x :: "32 word" using uint_lt2p [of x] by simp_all
  have d: "\<lparr>hi = word_of_int (uint (hi d)), lo = word_of_int (uint (lo d))\<rparr> = d" by simp
  show ?thesis
    unfolding writeDigest_def [abs_def] readDigest_def [abs_def]
    apply (rule codec_write_assert)+
    apply (rule codec_bind [OF codec_u32 [OF lanes]])
    apply (rule codec_last [OF codec_u32 [OF lanes]])
    apply (subst d)
    apply (rule codec_return)
    done
qed

interpretation digest_codec: wire_codec writeDigest readDigest "\<lambda>_. True"
  by unfold_locales (auto intro: codec_digest stability)

definition unmarked_version :: "KeyVersion \<Rightarrow> bool" where
  "unmarked_version v \<longleftrightarrow> unmarked (kv_key v) \<and> unmarked (node (kv_timestamp v))"

lemma codec_key_version:
  assumes "unmarked_version v"
  shows "codec_at (writeKeyVersion v) readKeyVersion v"
proof -
  have m: "unmarked (kv_key v)" "unmarked (node (kv_timestamp v))" using assms by (auto simp: unmarked_version_def)
  have v: "\<lparr>kv_key = kv_key v, kv_timestamp = kv_timestamp v\<rparr> = v" by simp
  show ?thesis
    unfolding writeKeyVersion_def [abs_def] readKeyVersion_def [abs_def]
    apply (rule codec_bind [OF codec_key [OF m(1)]])
    apply (rule codec_last [OF codec_time [OF m(2)]])
    apply (subst v)
    apply (rule codec_return)
    done
qed

interpretation version_codec: wire_codec writeKeyVersion readKeyVersion unmarked_version
  by unfold_locales (auto intro: codec_key_version stability)

text \<open>A count in front of its items.\<close>

lemma codec_counted:
  assumes "wire_codec wr rd fit" and "\<forall>x \<in> set xs. fit x" and "limit < 2 ^ 32"
  shows "codec_at (\<lambda>w. if length xs > limit then None else Option.bind (Some (bw_u32 (int (length xs)) w)) (write_all wr xs))
    (\<lambda>r. Option.bind (br_u32 r) (\<lambda>(n, r). if n > int limit then None else read_all rd (nat n) r)) xs"
  apply (rule codec_write_if)
  apply (rule codec_bind [OF codec_u32])
  using assms(3) apply simp_all
  using wire_codec.undoes_all [OF assms(1,2)] by simp

lemma codec_lists:
  "codec_at (writeDigests ds) readDigests ds" "codec_at (writeBuckets bs) readBuckets bs"
  "\<forall>v \<in> set vs. unmarked_version v \<Longrightarrow> codec_at (writeKeyVersions vs) readKeyVersions vs"
  "\<forall>k \<in> set ks. unmarked k \<Longrightarrow> codec_at (writeKeys ks) readKeys ks"
  using codec_counted [OF digest_codec.wire_codec_axioms, of ds REPAIR_BUCKETS]
    codec_counted [OF partition_codec.wire_codec_axioms, of bs REPAIR_BUCKETS]
    codec_counted [OF version_codec.wire_codec_axioms, of vs MAX_CHUNK_ENTRIES]
    codec_counted [OF key_codec.wire_codec_axioms, of ks MAX_CHUNK_ENTRIES]
  unfolding writeDigests_def [abs_def] readDigests_def [abs_def] writeBuckets_def [abs_def] readBuckets_def [abs_def]
    writeKeyVersions_def [abs_def] readKeyVersions_def [abs_def] writeKeys_def [abs_def] readKeys_def [abs_def]
  by (simp_all add: REPAIR_BUCKETS_def MAX_CHUNK_ENTRIES_def)

section \<open>Tables, chunks and reports\<close>

lemma codec_owners:
  assumes "\<forall>n \<in> set owners. unmarked n"
  shows "codec_at (writeOwners owners) readOwners owners"
  unfolding writeOwners_def [abs_def] readOwners_def [abs_def]
  apply (rule codec_write_if)
  apply (rule codec_bind [OF codec_u8])
    apply (simp_all add: MAX_OWNERS_PER_PARTITION_def)
  using name_codec.undoes_all [OF assms] by simp

lemma stable_owners [stability]: "prefix_stable readOwners"
  unfolding readOwners_def by (intro stability name_codec.stable_all)

interpretation owners_codec: wire_codec writeOwners readOwners "\<lambda>owners. \<forall>n \<in> set owners. unmarked n"
  by unfold_locales (auto intro: codec_owners stability)

lemma codec_table:
  assumes "\<forall>owners \<in> set (rw_partitions t). \<forall>n \<in> set owners. unmarked n"
  shows "codec_at (writeTable t) readTable t"
proof -
  have t: "\<lparr>rw_version = rw_version t, rw_partitions = rw_partitions t\<rparr> = t" by simp
  have v: "0 \<le> rw_version t" "rw_version t < 2 ^ 64" if "assertU64 (rw_version t) = Some ()"
    using that by (auto simp: assertU64_def wire_limits split: if_splits)
  show ?thesis
    unfolding writeTable_def [abs_def] readTable_def [abs_def]
    apply (rule codec_write_assert, rule codec_write_if)
    apply (rule codec_bind [OF codec_u64 [OF v]], assumption, assumption)
    apply (rule codec_bind [OF codec_u32], simp, simp add: wire_limits)
    apply (rule codec_read_if, simp)
    apply (rule codec_last)
     apply (simp only: nat_int)
     apply (rule owners_codec.undoes_all [OF assms])
    apply (subst t, rule codec_return)
    done
qed

lemma codec_chunk:
  assumes "\<forall>e \<in> set (fc_entries c). unmarked_entry e"
  shows "codec_at (writeChunk c) readChunk c"
proof -
  have c: "\<lparr>fc_partitionId = nat (int (fc_partitionId c)), fc_final = ((if fc_final c then 1 else 0 :: int) = 1),
      fc_entries = fc_entries c\<rparr> = c"
    by simp
  have p: "0 \<le> int (fc_partitionId c)" "int (fc_partitionId c) < 2 ^ 32" if "assertU32 (int (fc_partitionId c)) = Some ()"
    using that by (auto simp: assertU32_def split: if_splits)
  show ?thesis
    unfolding writeChunk_def [abs_def] readChunk_def [abs_def]
    apply (rule codec_write_assert, rule codec_write_if)
    apply (rule codec_bind [OF codec_u32 [OF p]], assumption, assumption)
    apply (rule codec_bind [OF codec_u8], simp, simp)
    apply (rule codec_read_if, simp)
    apply (rule codec_bind [OF codec_u32], simp, simp add: wire_limits)
    apply (rule codec_read_if, simp)
    apply (rule codec_last)
     apply (simp only: nat_int)
     apply (rule entry_codec.undoes_all [OF assms])
    apply (subst c, rule codec_return)
    done
qed

lemma codec_report:
  assumes "unmarked (or_node rep)"
  shows "codec_at (writeOwnershipReport rep) readOwnershipReport rep"
proof -
  have rep: "\<lparr>or_node = or_node rep, or_partitions = or_partitions rep\<rparr> = rep" by simp
  show ?thesis
    unfolding writeOwnershipReport_def [abs_def] readOwnershipReport_def [abs_def]
    apply (rule codec_write_if)
    apply (rule codec_bind [OF codec_name [OF assms]])
    apply (rule codec_bind [OF codec_u32], simp, simp add: wire_limits)
    apply (rule codec_read_if, simp)
    apply (rule codec_last)
     apply (simp only: nat_int)
     apply (rule partition_codec.undoes_all, simp)
    apply (subst rep, rule codec_return)
    done
qed

lemma stable_compounds [stability]:
  "prefix_stable readTable" "prefix_stable readChunk" "prefix_stable readOwnershipReport"
  "prefix_stable readDigests" "prefix_stable readBuckets" "prefix_stable readKeyVersions" "prefix_stable readKeys"
  "prefix_stable readOptionalKey" "prefix_stable readOptionalEntry"
  unfolding readTable_def readChunk_def readOwnershipReport_def readDigests_def readBuckets_def readKeyVersions_def
    readKeys_def readOptionalKey_def readOptionalEntry_def
  by (intro stability owners_codec.stable_all entry_codec.stable_all partition_codec.stable_all digest_codec.stable_all
      version_codec.stable_all key_codec.stable_all)+

section \<open>Operations and results come back\<close>

lemma codec_tagged:
  assumes "0 \<le> tag" and "tag < 2 ^ 8" and "codec_at wr (rd tag) x"
  shows "codec_at (\<lambda>w. Option.bind (Some (bw_u8 tag w)) wr) (\<lambda>r. Option.bind (br_u8 r) (case_prod rd)) x"
  by (rule codec_bind [OF codec_u8 [OF assms(1,2)]]) (rule assms(3))

lemma codec_untagged:
  assumes "0 \<le> tag" and "tag < 2 ^ 8" and "rd tag = (\<lambda>r. Some (x, r))"
  shows "codec_at (\<lambda>w. Some (bw_u8 tag w)) (\<lambda>r. Option.bind (br_u8 r) (case_prod rd)) x"
  by (rule codec_last [OF codec_u8 [OF assms(1,2)]]) (simp add: assms(3) codec_return)

lemma codec_optional_key:
  assumes "\<forall>k. x = Some k \<longrightarrow> unmarked k"
  shows "codec_at (writeOptionalKey x) readOptionalKey x"
proof (cases x)
  case None
  have "writeOptionalKey None = (\<lambda>w. Some (bw_u8 0 w))" by (simp add: fun_eq_iff)
  then show ?thesis unfolding None readOptionalKey_def [abs_def] by (simp only:) (rule codec_untagged, simp_all)
next
  case (Some k)
  then have "codec_at (writeKey k) readKey k" using assms codec_key by blast
  note k = codec_map [OF this, of Some]
  have "writeOptionalKey (Some k) = (\<lambda>w. Option.bind (Some (bw_u8 1 w)) (writeKey k))" by (simp add: fun_eq_iff)
  then show ?thesis unfolding Some readOptionalKey_def [abs_def]
    by (simp only:) (rule codec_tagged, simp_all add: k)
qed

lemma codec_optional_entry:
  assumes "\<forall>e. x = Some e \<longrightarrow> unmarked_entry e"
  shows "codec_at (writeOptionalEntry x) readOptionalEntry x"
proof (cases x)
  case None
  have "writeOptionalEntry None = (\<lambda>w. Some (bw_u8 0 w))" by (simp add: fun_eq_iff)
  then show ?thesis unfolding None readOptionalEntry_def [abs_def] by (simp only:) (rule codec_untagged, simp_all)
next
  case (Some e)
  then have "codec_at (writeEntry e) readEntry e" using assms codec_entry by blast
  note e = codec_map [OF this, of Some]
  have "writeOptionalEntry (Some e) = (\<lambda>w. Option.bind (Some (bw_u8 1 w)) (writeEntry e))" by (simp add: fun_eq_iff)
  then show ?thesis unfolding Some readOptionalEntry_def [abs_def]
    by (simp only:) (rule codec_tagged, simp_all add: e)
qed

lemma codec_value_blob: "codec_at (writeBlob MAX_VALUE_BYTES v) (readBlob MAX_VALUE_BYTES) v"
  by (rule codec_blob) (simp add: wire_limits)

lemma codec_ttl:
  "codec_at (\<lambda>w. case ttl of None \<Rightarrow> Some w | Some t \<Rightarrow> Option.bind (assertUnsignedInteger t) (\<lambda>_. Some (bw_u64 t w)))
    (\<lambda>r. if (if ttl \<noteq> None then 1 else 0) = (0 :: int) then Some (PutOp k v c None, r)
          else Option.bind (readSafeU64 r) (\<lambda>(t, r). Some (PutOp k v c (Some t), r))) (PutOp k v c ttl)"
proof (cases ttl)
  case (Some t)
  have "codec_at (\<lambda>w. Some (bw_u64 t w)) readSafeU64 t" if "assertUnsignedInteger t = Some ()"
    using that by (intro codec_safe) (auto simp: assertUnsignedInteger_def split: if_splits)
  from codec_write_assert [OF codec_map [OF this, of "\<lambda>t. PutOp k v c (Some t)"]] show ?thesis using Some by simp
qed (use codec_return in simp)

lemma codec_put:
  assumes "unmarked k"
  shows "codec_at (writePut k v c ttl) readWriteOp (PutOp k v c ttl)"
proof -
  have c: "0 \<le> CONDITION_TO_BYTE c" "CONDITION_TO_BYTE c < 2 ^ 8" "BYTE_TO_CONDITION (CONDITION_TO_BYTE c) = Some c"
    by (cases c; simp add: BYTE_TO_CONDITION_def)+
  have t: "0 \<le> (if ttl \<noteq> None then 1 else 0 :: int)" "(if ttl \<noteq> None then 1 else 0 :: int) < 2 ^ 8" by simp_all
  show ?thesis
    unfolding writePut_def [abs_def] readWriteOp_def [abs_def]
    apply (rule codec_tagged, simp add: OP_PUT_def, simp add: OP_PUT_def)
    apply (simp only: if_True simp_thms)
    unfolding readPut_def [abs_def]
    apply (rule codec_tagged [OF c(1,2)])
    apply (rule codec_read_option [OF c(3)])
    apply (rule codec_tagged [OF t])
    apply (rule codec_read_if, simp)
    apply (rule codec_bind [OF codec_key [OF assms]])
    apply (rule codec_bind [OF codec_value_blob])
    apply (rule codec_ttl)
    done
qed

definition unmarked_op :: "WriteOp \<Rightarrow> bool" where
  "unmarked_op opn \<longleftrightarrow> unmarked (op_key opn)"

lemma codec_op:
  assumes "unmarked_op opn"
  shows "codec_at (writeWriteOp opn) readWriteOp opn"
proof (cases opn)
  case (PutOp k v c ttl)
  have "writeWriteOp opn = writePut k v c ttl" by (simp add: PutOp fun_eq_iff)
  then show ?thesis using codec_put assms PutOp by (simp add: unmarked_op_def)
next
  case (DeleteOp k)
  have w: "writeWriteOp (DeleteOp k) = (\<lambda>w. Option.bind (Some (bw_u8 OP_DELETE w)) (writeKey k))" by (simp add: fun_eq_iff)
  have "codec_at (writeKey k) readKey k" using assms codec_key by (simp add: unmarked_op_def DeleteOp)
  note k = codec_map [OF this, of DeleteOp]
  show ?thesis unfolding DeleteOp w readWriteOp_def [abs_def]
    by (rule codec_tagged) (simp_all add: k OP_PUT_def OP_DELETE_def)
next
  case (IncrementOp k delta)
  have w: "writeWriteOp (IncrementOp k delta) = writeIncrement k delta" by (simp add: fun_eq_iff)
  have k: "codec_at (writeKey k) readKey k" using assms codec_key by (simp add: unmarked_op_def IncrementOp)
  have d: "- (2 ^ 63) \<le> delta" "delta < 2 ^ 63" if "\<not> (delta < MIN_I64 \<or> delta > MAX_I64)"
    using that by (simp_all add: wire_limits)
  show ?thesis
    unfolding IncrementOp w readWriteOp_def [abs_def] writeIncrement_def [abs_def]
    apply (rule codec_write_if)
    apply (rule codec_tagged, simp add: OP_INCR_def, simp add: OP_INCR_def)
    apply (simp add: OP_PUT_def OP_DELETE_def OP_INCR_def)
    apply (rule codec_bind [OF k])
    apply (rule codec_last [OF codec_i64 [OF d]])
      apply simp_all
    apply (rule codec_return)
    done
next
  case (CompareAndSetOp k x v)
  have w: "writeWriteOp (CompareAndSetOp k x v) = writeCompareAndSet k x v" by (simp add: fun_eq_iff)
  have k: "codec_at (writeKey k) readKey k" using assms codec_key by (simp add: unmarked_op_def CompareAndSetOp)
  have "codec_at (\<lambda>w. Option.bind (writeKey k w) (\<lambda>w. Option.bind (writeBlob MAX_VALUE_BYTES x w) (writeBlob MAX_VALUE_BYTES v)))
      readCompareAndSet (CompareAndSetOp k x v)"
    unfolding readCompareAndSet_def [abs_def]
    apply (rule codec_bind [OF k])
    apply (rule codec_bind [OF codec_value_blob])
    apply (rule codec_last [OF codec_value_blob])
    apply (rule codec_return)
    done
  then show ?thesis
    unfolding CompareAndSetOp w readWriteOp_def [abs_def] writeCompareAndSet_def [abs_def]
    by (intro codec_tagged) (simp_all add: OP_PUT_def OP_DELETE_def OP_INCR_def OP_CAS_def)
qed

definition unmarked_result :: "WriteResult \<Rightarrow> bool" where
  "unmarked_result res \<longleftrightarrow> (\<forall>e. res = WriteApplied e \<longrightarrow> unmarked_entry e)"

lemma codec_result:
  assumes "unmarked_result res"
  shows "codec_at (writeWriteResult res) readWriteResult res"
proof (cases res)
  case (WriteApplied e)
  then have "codec_at (writeEntry e) readEntry e" using assms codec_entry by (auto simp: unmarked_result_def)
  note e = codec_map [OF this, of WriteApplied]
  have "writeWriteResult (WriteApplied e) = (\<lambda>w. Option.bind (Some (bw_u8 RESULT_APPLIED w)) (writeEntry e))"
    by (simp add: fun_eq_iff)
  then show ?thesis unfolding readWriteResult_def [abs_def] WriteApplied
    by (simp only:) (rule codec_tagged, simp_all add: e RESULT_APPLIED_def)
next
  case (WriteRejected f)
  have w: "writeWriteResult (WriteRejected f) = (\<lambda>w. Option.bind (Some (bw_u8 RESULT_REJECTED w)) (\<lambda>w. Some (bw_u8 (REASON_TO_BYTE f) w)))"
    by (simp add: fun_eq_iff)
  have f: "0 \<le> REASON_TO_BYTE f" "REASON_TO_BYTE f < 2 ^ 8" "BYTE_TO_REASON (REASON_TO_BYTE f) = Some f"
    by (cases f; simp add: BYTE_TO_REASON_def)+
  have "codec_at (\<lambda>w. Some (bw_u8 (REASON_TO_BYTE f) w))
      (\<lambda>r. Option.bind (br_u8 r) (\<lambda>(b, r). Option.bind (BYTE_TO_REASON b) (\<lambda>reason. Some (WriteRejected reason, r)))) (WriteRejected f)"
    by (rule codec_untagged [OF f(1,2)]) (simp add: f(3))
  then show ?thesis unfolding WriteRejected w readWriteResult_def [abs_def]
    by (intro codec_tagged) (simp_all add: RESULT_APPLIED_def RESULT_REJECTED_def)
qed

section \<open>Frames\<close>

definition read_frame :: "ByteReader \<Rightarrow> (KvMessage \<times> ByteReader) option" where
  "read_frame r =
     do { (version, r) \<leftarrow> br_u8 r;
          if version \<noteq> PROTOCOL_VERSION then None else do { (type, r) \<leftarrow> br_u8 r; decodeBody type r } }"

lemma decodeMessage_frame: "decodeMessage bs = do { (m, r) \<leftarrow> read_frame (br_new bs); br_end r; Some m }"
  unfolding decodeMessage_def read_frame_def
  by (cases "br_u8 (br_new bs)") (auto simp: Option.bind_assoc case_prod_beta')

lemma codec_envelope:
  assumes "0 \<le> type" and "type < 2 ^ 8" and "codec_at wr (decodeBody type) m"
  shows "codec_at (\<lambda>w. Option.bind (writeEnvelope type w) wr) read_frame m"
proof -
  have "codec_at (\<lambda>w. Option.bind (Some (bw_u8 PROTOCOL_VERSION w)) (\<lambda>w. Option.bind (Some (bw_u8 type w)) wr)) read_frame m"
    unfolding read_frame_def [abs_def]
    apply (rule codec_tagged, simp add: PROTOCOL_VERSION_def, simp add: PROTOCOL_VERSION_def)
    apply (rule codec_read_if, simp)
    apply (rule codec_tagged [OF assms(1,2)])
    apply (rule assms(3))
    done
  then show ?thesis by (simp add: writeEnvelope_def)
qed

lemma codec_envelope_only:
  assumes "0 \<le> type" and "type < 2 ^ 8" and "decodeBody type = (\<lambda>r. Some (m, r))"
  shows "codec_at (writeEnvelope type) read_frame m"
  using codec_envelope [OF assms(1,2), of Some m] assms(3) by (simp add: codec_return)

lemma codec_pair:
  assumes "codec_at wa ra p" and "codec_at wb rb q"
  shows "codec_at (\<lambda>w. Option.bind (wa w) wb)
    (\<lambda>r. Option.bind (ra r) (\<lambda>(a, r). Option.bind (rb r) (\<lambda>(b, r). Some (f a b, r)))) (f p q)"
  by (rule codec_bind [OF assms(1)]) (rule codec_map [OF assms(2)])

fun unmarked_message :: "KvMessage \<Rightarrow> bool" where
  "unmarked_message (ReadRequest key) \<longleftrightarrow> unmarked key"
| "unmarked_message (ReadResponse e) \<longleftrightarrow> (\<forall>x. e = Some x \<longrightarrow> unmarked_entry x)"
| "unmarked_message (WriteRequest opn) \<longleftrightarrow> unmarked_op opn"
| "unmarked_message (WriteResponse result) \<longleftrightarrow> unmarked_result result"
| "unmarked_message (Table t) \<longleftrightarrow> (\<forall>owners \<in> set (rw_partitions t). \<forall>n \<in> set owners. unmarked n)"
| "unmarked_message (Chunk c) \<longleftrightarrow> (\<forall>e \<in> set (fc_entries c). unmarked_entry e)"
| "unmarked_message (Report r) \<longleftrightarrow> unmarked (or_node r)"
| "unmarked_message (Replicate e) \<longleftrightarrow> unmarked_entry e"
| "unmarked_message (PeekRequest key) \<longleftrightarrow> unmarked key"
| "unmarked_message (FragmentRequest pid k) \<longleftrightarrow> (\<forall>x. k = Some x \<longrightarrow> unmarked x)"
| "unmarked_message (FragmentPush c) \<longleftrightarrow> (\<forall>e \<in> set (fc_entries c). unmarked_entry e)"
| "unmarked_message (KeyVersions pid vs) \<longleftrightarrow> (\<forall>v \<in> set vs. unmarked_version v)"
| "unmarked_message (EntriesRequest pid ks) \<longleftrightarrow> (\<forall>k \<in> set ks. unmarked k)"
| "unmarked_message _ \<longleftrightarrow> True"

lemma encodeBody_fun:
  "encodeBody (ReadRequest key) = (\<lambda>w. Option.bind (writeEnvelope MSG_READ_REQUEST w) (writeKey key))"
  "encodeBody (ReadResponse e) = (\<lambda>w. Option.bind (writeEnvelope MSG_READ_RESPONSE w) (writeOptionalEntry e))"
  "encodeBody (WriteRequest opn) = (\<lambda>w. Option.bind (writeEnvelope MSG_WRITE_REQUEST w) (writeWriteOp opn))"
  "encodeBody (WriteResponse result) = (\<lambda>w. Option.bind (writeEnvelope MSG_WRITE_RESPONSE w) (writeWriteResult result))"
  "encodeBody (Table t) = (\<lambda>w. Option.bind (writeEnvelope MSG_TABLE w) (writeTable t))"
  "encodeBody (Chunk c) = (\<lambda>w. Option.bind (writeEnvelope MSG_FRAGMENT_CHUNK w) (writeChunk c))"
  "encodeBody (Report rep) = (\<lambda>w. Option.bind (writeEnvelope MSG_OWNERSHIP_REPORT w) (writeOwnershipReport rep))"
  "encodeBody (Replicate en) = (\<lambda>w. Option.bind (writeEnvelope MSG_REPLICATE w) (writeEntry en))"
  "encodeBody ReplicateAck = writeEnvelope MSG_REPLICATE_ACK"
  "encodeBody (PeekRequest key) = (\<lambda>w. Option.bind (writeEnvelope MSG_PEEK_REQUEST w) (writeKey key))"
  "encodeBody (Rebalancing pid) = (\<lambda>w. Option.bind (writeEnvelope MSG_REBALANCING w) (writePartitionField pid))"
  "encodeBody (FragmentRequest pid k) = (\<lambda>w. Option.bind (writeEnvelope MSG_FRAGMENT_REQUEST w)
     (\<lambda>w. Option.bind (writePartitionField pid w) (writeOptionalKey k)))"
  "encodeBody (FragmentPush c) = (\<lambda>w. Option.bind (writeEnvelope MSG_FRAGMENT_PUSH w) (writeChunk c))"
  "encodeBody FragmentAck = writeEnvelope MSG_FRAGMENT_ACK"
  "encodeBody (SyncDigest pid d) = (\<lambda>w. Option.bind (writeEnvelope MSG_SYNC_DIGEST w)
     (\<lambda>w. Option.bind (writePartitionField pid w) (writeDigest d)))"
  "encodeBody (BucketDigests pid ds) = (\<lambda>w. Option.bind (writeEnvelope MSG_BUCKET_DIGESTS w)
     (\<lambda>w. Option.bind (writePartitionField pid w) (writeDigests ds)))"
  "encodeBody (KeyVersionsRequest pid bs) = (\<lambda>w. Option.bind (writeEnvelope MSG_KEY_VERSIONS_REQUEST w)
     (\<lambda>w. Option.bind (writePartitionField pid w) (writeBuckets bs)))"
  "encodeBody (KeyVersions pid vs) = (\<lambda>w. Option.bind (writeEnvelope MSG_KEY_VERSIONS w)
     (\<lambda>w. Option.bind (writePartitionField pid w) (writeKeyVersions vs)))"
  "encodeBody (EntriesRequest pid ks) = (\<lambda>w. Option.bind (writeEnvelope MSG_ENTRIES_REQUEST w)
     (\<lambda>w. Option.bind (writePartitionField pid w) (writeKeys ks)))"
  by (simp_all add: fun_eq_iff)

lemmas decode_types = decodeBody_def [abs_def] message_types

lemma codec_one:
  assumes "codec_at wr rd x" and "0 \<le> type" and "type < 2 ^ 8"
    and "decodeBody type = (\<lambda>r. Option.bind (rd r) (\<lambda>(a, r). Some (f a, r)))"
  shows "codec_at (\<lambda>w. Option.bind (writeEnvelope type w) wr) read_frame (f x)"
  by (rule codec_envelope [OF assms(2,3)]) (simp only: assms(4) codec_map [OF assms(1)])

lemma codec_two:
  assumes "codec_at wr rd x" and "0 \<le> type" and "type < 2 ^ 8"
    and "decodeBody type = (\<lambda>r. Option.bind (readPartitionField r) (\<lambda>(a, r). Option.bind (rd r) (\<lambda>(b, r). Some (f a b, r))))"
  shows "codec_at (\<lambda>w. Option.bind (writeEnvelope type w) (\<lambda>w. Option.bind (writePartitionField pid w) wr)) read_frame (f pid x)"
  by (rule codec_envelope [OF assms(2,3)]) (simp only: assms(4) codec_pair [OF codec_partition assms(1)])

lemma codec_message: "unmarked_message m \<Longrightarrow> codec_at (encodeBody m) read_frame m"
proof (induction m rule: unmarked_message.induct
    [case_names 1 2 3 4 5 6 7 8 9 10 11 12 13 other_1 other_2 other_3 other_4 other_5 other_6])
  case (1 key)
  then show ?case unfolding encodeBody_fun by (intro codec_one [OF codec_key]) (simp_all add: decode_types)
next
  case (2 e)
  then show ?case unfolding encodeBody_fun by (intro codec_one [OF codec_optional_entry]) (simp_all add: decode_types)
next
  case (3 opn)
  then show ?case unfolding encodeBody_fun by (intro codec_one [OF codec_op]) (simp_all add: decode_types)
next
  case (4 result)
  then show ?case unfolding encodeBody_fun by (intro codec_one [OF codec_result]) (simp_all add: decode_types)
next
  case (5 t)
  then show ?case unfolding encodeBody_fun by (intro codec_one [OF codec_table]) (simp_all add: decode_types)
next
  case (6 c)
  then show ?case unfolding encodeBody_fun by (intro codec_one [OF codec_chunk]) (simp_all add: decode_types)
next
  case (7 r)
  then show ?case unfolding encodeBody_fun by (intro codec_one [OF codec_report]) (simp_all add: decode_types)
next
  case (8 e)
  then show ?case unfolding encodeBody_fun by (intro codec_one [OF codec_entry]) (simp_all add: decode_types)
next
  case (9 key)
  then show ?case unfolding encodeBody_fun by (intro codec_one [OF codec_key]) (simp_all add: decode_types)
next
  case (10 pid k)
  then show ?case unfolding encodeBody_fun by (intro codec_two [OF codec_optional_key]) (simp_all add: decode_types)
next
  case (11 c)
  then show ?case unfolding encodeBody_fun by (intro codec_one [OF codec_chunk]) (simp_all add: decode_types)
next
  case (12 pid vs)
  then show ?case unfolding encodeBody_fun by (intro codec_two [OF codec_lists(3)]) (simp_all add: decode_types)
next
  case (13 pid ks)
  then show ?case unfolding encodeBody_fun by (intro codec_two [OF codec_lists(4)]) (simp_all add: decode_types)
next
  case other_1
  then show ?case unfolding encodeBody_fun by (intro codec_envelope_only) (simp_all add: decode_types)
next
  case (other_2 pid)
  then show ?case unfolding encodeBody_fun by (intro codec_one [OF codec_partition]) (simp_all add: decode_types)
next
  case other_3
  then show ?case unfolding encodeBody_fun by (intro codec_envelope_only) (simp_all add: decode_types)
next
  case (other_4 pid d)
  then show ?case unfolding encodeBody_fun by (intro codec_two [OF codec_digest]) (simp_all add: decode_types)
next
  case (other_5 pid ds)
  then show ?case unfolding encodeBody_fun by (intro codec_two [OF codec_lists(1)]) (simp_all add: decode_types)
next
  case (other_6 pid bs)
  then show ?case unfolding encodeBody_fun by (intro codec_two [OF codec_lists(2)]) (simp_all add: decode_types)
qed

lemma stable_body [stability]: "prefix_stable (decodeBody type)"
  unfolding decodeBody_def [abs_def] by (intro stability)

lemma stable_frame: "prefix_stable read_frame"
  unfolding read_frame_def by (intro stability)

lemma codec_decodes:
  assumes "codec_at (encodeBody m) read_frame m'" and "encodeMessage m = Some bs"
  shows "decodeMessage bs = Some m'"
proof -
  obtain w where w: "encodeBody m (bw_new 64) = Some w" "bs = bw_finish w"
    using assms(2) by (auto simp: encodeMessage_def Option.bind_eq_Some_conv)
  have new: "bw_ok (bw_new 64)" "bw_finish (bw_new 64) = []" using bw_new_ok by auto
  obtain r where "read_frame (br_new bs) = Some (m', r)" "br_rest r = []"
    using codec_atE [OF assms(1) new(1) w(1)] w(2) new(2) br_new_ok [of bs] by (metis append.right_neutral append_Nil)
  then show ?thesis using br_end_iff [of r] by (simp add: decodeMessage_frame)
qed

lemma frame_rest:
  assumes "decodeMessage bs = Some m"
  shows "\<exists>r. read_frame (br_new bs) = Some (m, r) \<and> br_rest r = []"
  using assms by (auto simp: decodeMessage_frame Option.bind_eq_Some_conv br_end_iff [symmetric])

lemma codec_marked_key:
  assumes "isWellFormed (bom # s)" and "0 \<notin> set s"
  shows "codec_at (writeKey (bom # s)) readKey s"
proof -
  have "text_decode (encode (bom # s)) = Some s" using text_decode_encode [OF assms(1)] by simp
  then have "decodeUtf8 (encode (bom # s)) = Some s" using assms(2) by (simp add: decodeUtf8_def)
  then have "codec_at (\<lambda>w. Some (bw_raw (encode (bom # s)) w)) (\<lambda>r. Option.bind (br_take (nat (int (length (encode (bom # s))))) r)
      (\<lambda>(bs, r). Option.bind (decodeUtf8 bs) (\<lambda>t. Some (t, r)))) s"
    unfolding nat_int by (intro codec_last [OF codec_raw] codec_read_option) (auto intro: codec_return)
  then show ?thesis
    unfolding writeKey_def [abs_def] readKey_def [abs_def]
    by (intro codec_write_if codec_bind [OF codec_u16] codec_read_if) (auto simp: wire_limits)
qed

lemma sample_request: "\<exists>bs. encodeMessage (ReadRequest (js ''k'')) = Some bs"
  by (simp add: encodeMessage_def writeEnvelope_def writeKey_def js_def encode_def utf8_bytes_def is_high_def is_low_def
      MAX_KEY_BYTES_def)

lemma sample_unmarked: "unmarked_message (ReadRequest (js ''k''))"
  by (simp add: unmarked_def js_def bom_def)

section \<open>Properties\<close>

text \<open>
  C21. What one node encodes another decodes: a frame of any of the nineteen messages
  decodes to that message, field by field, provided that no key and no node name in
  it starts with a byte order mark.
\<close>

theorem message_roundtrip:
  assumes "encodeMessage m = Some bs" and "unmarked_message m"
  shows "decodeMessage bs = Some m"
  by (rule codec_decodes [OF codec_message [OF assms(2)] assms(1)])

theorem message_roundtrip_witness:
  "\<exists>bs. encodeMessage (ReadRequest (js ''k'')) = Some bs \<and> decodeMessage bs = Some (ReadRequest (js ''k''))"
  using sample_request message_roundtrip [OF _ sample_unmarked] by blast

text \<open>
  A frame is accepted whole or not at all: whatever bytes follow an accepted
  frame, the longer frame is refused, and so is every proper prefix of an accepted
  frame.
\<close>

lemma frames_are_exact:
  assumes "decodeMessage bs = Some m"
  shows "(ext \<noteq> [] \<longrightarrow> decodeMessage (bs @ ext) = None) \<and> (n < length bs \<longrightarrow> decodeMessage (take n bs) = None)"
proof -
  have longer: "decodeMessage (cs @ x) = None" if dec: "decodeMessage cs = Some m'" and ne: "x \<noteq> []" for cs x m'
  proof -
    obtain r where r: "read_frame (br_new cs) = Some (m', r)" "br_rest r = []" using frame_rest [OF dec] by blast
    have ok: "br_ok r" and "read_frame (br_extend x (br_new cs)) = Some (m', br_extend x r)"
      using stable_frame r(1) br_new_ok unfolding prefix_stable_def by blast+
    moreover have "br_extend x (br_new cs) = br_new (cs @ x)" by (simp add: br_extend_def br_new_def)
    moreover have "br_rest (br_extend x r) = x" using ok r(2) by (simp add: br_rest_def br_extend_def br_ok_def)
    moreover have "br_end (br_extend x r) = None"
      using br_end_iff [of "br_extend x r"] calculation(4) ne by (cases "br_end (br_extend x r)") simp_all
    ultimately show ?thesis by (simp add: decodeMessage_frame)
  qed
  have "decodeMessage (take n bs) = None" if "n < length bs"
  proof (cases "decodeMessage (take n bs)")
    case (Some m')
    have "decodeMessage (take n bs @ drop n bs) = None" using that by (intro longer [OF Some]) simp
    then show ?thesis using assms by simp
  qed simp
  then show ?thesis using longer [OF assms] by blast
qed

text \<open>
  C40. The exception is real: a read request for the key U+FEFF a is accepted by the
  encoder and decodes to a read request for the key a.
\<close>

theorem byte_order_mark_is_lost:
  "\<exists>bs. encodeMessage (ReadRequest [0xFEFF, 0x61]) = Some bs \<and> decodeMessage bs = Some (ReadRequest [0x61])"
proof -
  have key: "bom # [0x61] = [0xFEFF, 0x61]" by (simp add: bom_def)
  have wf: "isWellFormed (bom # [0x61])" by (simp add: bom_def is_high_def is_low_def)
  have "codec_at (writeKey [0xFEFF, 0x61]) readKey [0x61]" unfolding key [symmetric] by (rule codec_marked_key [OF wf]) simp
  then have "codec_at (encodeBody (ReadRequest [0xFEFF, 0x61])) read_frame (ReadRequest [0x61])"
    unfolding encodeBody_fun by (intro codec_one) (simp_all add: decode_types)
  moreover obtain bs where "encodeMessage (ReadRequest [0xFEFF, 0x61]) = Some bs"
    by (simp add: encodeMessage_def writeEnvelope_def writeKey_def encode_def utf8_bytes_def is_high_def is_low_def
        MAX_KEY_BYTES_def)
  ultimately show ?thesis using codec_decodes by blast
qed

end
