(* ===== verification/Replicator.thy ===== *)
theory Replicator
  imports Recovery Wire
begin

text \<open>
  The node-level router of the store, \<open>src/kv/replication.ts\<close>: which node serves a
  write or a read, the refusal of conditional writes while a partition has several
  owners or recovers, the read that gathers every owner's version, its repair, and
  the dispatch of inbound messages.  The recovering predicate that the source takes
  as an option is an argument; \<open>reachable\<close> names the peers whose requests are answered,
  and each repair is delivered or lost.

  The theory shows that a gather returns the newest version among the owners it
  reaches and repairs the stale ones, that a promoted primary whose backups answer
  serves acknowledged writes before its pull has finished, and where a crash of the
  primary of a fragmented partition leaves an acknowledged write out of sight.
\<close>

section \<open>State and routing\<close>

datatype ReplicatorError =
    PartitionRebalancingError nat | ClusterUnavailableError | PlacementRangeError | KvProtocolError

record Replicator =
  rp_self :: jsstr
  rp_replicaCount :: int
  rp_mode :: ReplicationMode
  rp_writeQuorum :: int
  rp_groups :: "(nat, PrimaryBackup) jsmap"
  rp_table :: "RoutingTable option"
  rp_ring :: "PartitionRing option"

definition rp_new :: "jsstr \<Rightarrow> int \<Rightarrow> ReplicationMode \<Rightarrow> int \<Rightarrow> RangeError + Replicator" where
  "rp_new self writeQuorum mode replicaCount =
     (if \<not> isSafeInteger writeQuorum \<or> writeQuorum \<le> 0 then Inl RangeError
      else Inr \<lparr>rp_self = self, rp_replicaCount = replicaCount, rp_mode = mode, rp_writeQuorum = writeQuorum,
                rp_groups = [], rp_table = None, rp_ring = None\<rparr>)"

fun isConditional :: "WriteOp \<Rightarrow> bool" where
  "isConditional (PutOp _ _ condition _) \<longleftrightarrow> condition \<noteq> NoCondition"
| "isConditional (DeleteOp _) \<longleftrightarrow> False"
| "isConditional (IncrementOp _ _) \<longleftrightarrow> True"
| "isConditional (CompareAndSetOp _ _ _) \<longleftrightarrow> True"

definition rp_placementOf :: "nat \<Rightarrow> Replicator \<Rightarrow> ReplicatorError + PartitionPlacement" where
  "rp_placementOf p rp =
     (case (rp_table rp, rp_ring rp) of
        (Some table, Some ring) \<Rightarrow>
          (case rt_placement (int p) ring (rp_replicaCount rp) table of
             Inl _ \<Rightarrow> Inl PlacementRangeError
           | Inr placement \<Rightarrow> Inr placement)
      | _ \<Rightarrow> Inl ClusterUnavailableError)"

definition rp_backupsOf :: "nat \<Rightarrow> Replicator \<Rightarrow> ReplicatorError + jsstr list" where
  "rp_backupsOf p rp = (case rp_placementOf p rp of Inl err \<Rightarrow> Inl err | Inr placement \<Rightarrow> Inr (pl_backups placement))"

fun rp_refreshGroups ::
  "(nat \<times> PrimaryBackup) list \<Rightarrow> Replicator \<Rightarrow> (ReplicatorError + unit) \<times> Replicator" where
  "rp_refreshGroups [] rp = (Inr (), rp)"
| "rp_refreshGroups ((p, grp) # groups) rp =
     (case rp_backupsOf p rp of
        Inl err \<Rightarrow> (Inl err, rp)
      | Inr backups \<Rightarrow>
          rp_refreshGroups groups (rp\<lparr>rp_groups := js_set p (pb_memberChange backups grp) (rp_groups rp)\<rparr>))"

definition rp_install :: "RoutingTable \<Rightarrow> PartitionRing \<Rightarrow> Replicator \<Rightarrow> (ReplicatorError + unit) \<times> Replicator" where
  "rp_install table ring rp =
     (let rp = rp\<lparr>rp_table := Some table, rp_ring := Some ring\<rparr>
      in rp_refreshGroups (rp_groups rp) rp)"

definition rp_groupFor :: "nat \<Rightarrow> Replicator \<Rightarrow> ReplicatorError + (PrimaryBackup \<times> Replicator)" where
  "rp_groupFor p rp =
     (case js_get (rp_groups rp) p of
        Some existing \<Rightarrow> Inr (existing, rp)
      | None \<Rightarrow>
          let created = pb_new p (rp_writeQuorum rp) (rp_mode rp) in
          (case rp_backupsOf p rp of
             Inl err \<Rightarrow> Inl err
           | Inr backups \<Rightarrow>
               let created = pb_memberChange backups created
               in Inr (created, rp\<lparr>rp_groups := js_set p created (rp_groups rp)\<rparr>)))"

text \<open>Where a write goes: to the replication group of this node, or forwarded to the primary.\<close>

datatype WriteRoute = Propose PrimaryBackup | ForwardTo jsstr

definition rp_write :: "(nat \<Rightarrow> bool) \<Rightarrow> WriteOp \<Rightarrow> Engine \<Rightarrow> Replicator \<Rightarrow> ReplicatorError + (WriteRoute \<times> Replicator)" where
  "rp_write isRecovering opn en rp =
     (let p = en_partitionFor (op_key opn) en in
      case rp_placementOf p rp of
        Inl err \<Rightarrow> Inl err
      | Inr placement \<Rightarrow>
          if isConditional opn \<and> (length (pl_owners placement) > 1 \<or> isRecovering p)
          then Inl (PartitionRebalancingError p)
          else if pl_primary placement = rp_self rp
          then (case rp_groupFor p rp of Inl err \<Rightarrow> Inl err | Inr (grp, rp) \<Rightarrow> Inr (Propose grp, rp))
          else Inr (ForwardTo (pl_primary placement), rp))"

definition rp_serveWrite ::
  "(nat \<Rightarrow> bool) \<Rightarrow> WriteOp \<Rightarrow> Engine \<Rightarrow> Replicator \<Rightarrow> ReplicatorError + ((KvMessage + PrimaryBackup) \<times> Replicator)" where
  "rp_serveWrite isRecovering opn en rp =
     (let p = en_partitionFor (op_key opn) en in
      case rp_placementOf p rp of
        Inl err \<Rightarrow> Inl err
      | Inr placement \<Rightarrow>
          if isConditional opn \<and> (length (pl_owners placement) > 1 \<or> isRecovering p)
          then Inr (Inl (Rebalancing p), rp)
          else (case rp_groupFor p rp of Inl err \<Rightarrow> Inl err | Inr (grp, rp) \<Rightarrow> Inr (Inr grp, rp)))"

definition decodeWriteResponse :: "bytes \<Rightarrow> ReplicatorError + WriteResult" where
  "decodeWriteResponse bs =
     (case decodeMessage bs of
        Some (Rebalancing p) \<Rightarrow> Inl (PartitionRebalancingError p)
      | Some (WriteResponse result) \<Rightarrow> Inr result
      | _ \<Rightarrow> Inl KvProtocolError)"

definition decodePeek :: "bytes \<Rightarrow> ReplicatorError + Entry option" where
  "decodePeek bs =
     (case decodeMessage bs of
        None \<Rightarrow> Inl KvProtocolError
      | Some (ReadResponse e) \<Rightarrow> Inr e
      | Some _ \<Rightarrow> Inr None)"

definition decodeReadResponse :: "bytes \<Rightarrow> ReplicatorError + Entry option" where
  "decodeReadResponse bs = (case decodeMessage bs of Some (ReadResponse e) \<Rightarrow> Inr e | _ \<Rightarrow> Inl KvProtocolError)"

section \<open>Gathered reads\<close>

record OwnerRead =
  ow_owner :: jsstr
  ow_entry :: "Entry option"

definition rp_peekFrom :: "jsstr set \<Rightarrow> jsstr \<Rightarrow> jsstr \<Rightarrow> nodes \<Rightarrow> jsstr \<Rightarrow> Entry option" where
  "rp_peekFrom reachable self key ns owner =
     (if owner = self then en_peek key (ns self)
      else if owner \<in> reachable then en_peek key (ns owner) else None)"

definition gather_step :: "OwnerRead \<Rightarrow> Entry option \<Rightarrow> Entry option" where
  "gather_step rd winner =
     (if ow_entry rd \<noteq> None \<and> (winner = None \<or> supersedes (the (ow_entry rd)) (the winner)) then ow_entry rd else winner)"

text \<open>One repair per stale owner: a local merge, or a replicate frame that the carrier delivers or loses.\<close>

fun rp_readRepair :: "(jsstr \<Rightarrow> delivery) \<Rightarrow> jsstr \<Rightarrow> Entry \<Rightarrow> OwnerRead list \<Rightarrow> nodes \<Rightarrow> nodes" where
  "rp_readRepair net self winner [] ns = ns"
| "rp_readRepair net self winner (rd # reads) ns =
     (if ow_entry rd \<noteq> None \<and> \<not> supersedes winner (the (ow_entry rd)) then rp_readRepair net self winner reads ns
      else if ow_owner rd = self
      then rp_readRepair net self winner reads (ns(self := en_merge winner (ns self)))
      else rp_readRepair net self winner reads
             (ns(ow_owner rd := snd (pb_replicateOne (net (ow_owner rd)) winner (ns (ow_owner rd))))))"

definition rp_gather ::
  "jsstr set \<Rightarrow> (jsstr \<Rightarrow> delivery) \<Rightarrow> jsstr \<Rightarrow> jsstr \<Rightarrow> jsstr list \<Rightarrow> int \<Rightarrow> nodes \<Rightarrow> Entry option \<times> nodes" where
  "rp_gather reachable net self key owners nowMs ns =
     (let reads = map (\<lambda>owner. \<lparr>ow_owner = owner, ow_entry = rp_peekFrom reachable self key ns owner\<rparr>) owners in
      case fold gather_step reads None of
        None \<Rightarrow> (None, ns)
      | Some winner \<Rightarrow>
          (if isLiveValue winner nowMs then Some winner else None, rp_readRepair net self winner reads ns))"

datatype ReadRoute = Gather "jsstr list" | ReadGroup PrimaryBackup | ForwardReadTo jsstr

definition rp_servePrimaryRead ::
  "(nat \<Rightarrow> bool) \<Rightarrow> nat \<Rightarrow> Replicator \<Rightarrow> ReplicatorError + (ReadRoute \<times> Replicator)" where
  "rp_servePrimaryRead isRecovering p rp =
     (if isRecovering p
      then (case rp_placementOf p rp of
              Inl err \<Rightarrow> Inl err
            | Inr placement \<Rightarrow> Inr (Gather (rp_self rp # pl_backups placement), rp))
      else (case rp_groupFor p rp of Inl err \<Rightarrow> Inl err | Inr (grp, rp) \<Rightarrow> Inr (ReadGroup grp, rp)))"

definition rp_read :: "(nat \<Rightarrow> bool) \<Rightarrow> jsstr \<Rightarrow> Engine \<Rightarrow> Replicator \<Rightarrow> ReplicatorError + (ReadRoute \<times> Replicator)" where
  "rp_read isRecovering key en rp =
     (let p = en_partitionFor key en in
      case rp_placementOf p rp of
        Inl err \<Rightarrow> Inl err
      | Inr placement \<Rightarrow>
          if length (pl_owners placement) > 1 then Inr (Gather (pl_owners placement), rp)
          else if pl_primary placement = rp_self rp then rp_servePrimaryRead isRecovering p rp
          else Inr (ForwardReadTo (pl_primary placement), rp))"

text \<open>Following a route at this node.\<close>

fun rp_answer :: "jsstr set \<Rightarrow> (jsstr \<Rightarrow> delivery) \<Rightarrow> jsstr \<Rightarrow> jsstr \<Rightarrow> int \<Rightarrow> ReadRoute \<Rightarrow> nodes \<Rightarrow> Entry option \<times> nodes" where
  "rp_answer reachable net self key nowMs (Gather owners) ns = rp_gather reachable net self key owners nowMs ns"
| "rp_answer reachable net self key nowMs (ReadGroup grp) ns = (pb_read key nowMs (ns self), ns)"
| "rp_answer reachable net self key nowMs (ForwardReadTo primary) ns = (None, ns)"

section \<open>Inbound messages\<close>

datatype Inbound =
    Reply KvMessage
  | ServeProposal PrimaryBackup
  | ServeRead ReadRoute

definition rp_receive ::
  "(nat \<Rightarrow> bool) \<Rightarrow> bytes \<Rightarrow> Engine \<Rightarrow> Replicator \<Rightarrow> ReplicatorError + (Inbound \<times> Engine \<times> Replicator)" where
  "rp_receive isRecovering body en rp =
     (case decodeMessage body of
        Some (WriteRequest opn) \<Rightarrow>
          (case rp_serveWrite isRecovering opn en rp of
             Inl err \<Rightarrow> Inl err
           | Inr (Inl refusal, rp) \<Rightarrow> Inr (Reply refusal, en, rp)
           | Inr (Inr grp, rp) \<Rightarrow> Inr (ServeProposal grp, en, rp))
      | Some (ReadRequest key) \<Rightarrow>
          (case rp_servePrimaryRead isRecovering (en_partitionFor key en) rp of
             Inl err \<Rightarrow> Inl err
           | Inr (route, rp) \<Rightarrow> Inr (ServeRead route, en, rp))
      | Some (PeekRequest key) \<Rightarrow> Inr (Reply (ReadResponse (en_peek key en)), en, rp)
      | Some (Replicate entry) \<Rightarrow> Inr (Reply ReplicateAck, en_merge entry en, rp)
      | Some (FragmentRequest pid afterKey) \<Rightarrow> Inr (Reply (Chunk (ft_servePage pid afterKey en)), en, rp)
      | Some (FragmentPush chunk) \<Rightarrow> Inr (Reply FragmentAck, ft_applyChunk chunk en, rp)
      | _ \<Rightarrow> Inl KvProtocolError)"

section \<open>What a gather finds\<close>

lemma gather_step_grows:
  assumes "winner = Some x"
  shows "\<exists>d. gather_step rd winner = Some d \<and> e_timestamp x \<le> e_timestamp d"
  using assms by (auto simp: gather_step_def supersedes_iff)

lemma gather_step_takes:
  assumes "ow_entry rd = Some e"
  shows "\<exists>d. gather_step rd winner = Some d \<and> e_timestamp e \<le> e_timestamp d"
  using assms by (cases winner) (auto simp: gather_step_def supersedes_iff not_less)

lemma gather_fold_grows: "winner = Some x \<Longrightarrow> \<exists>d. fold gather_step reads winner = Some d \<and> e_timestamp x \<le> e_timestamp d"
proof (induction reads arbitrary: winner x)
  case (Cons rd reads)
  obtain d where d: "gather_step rd winner = Some d" "e_timestamp x \<le> e_timestamp d"
    using gather_step_grows [OF Cons.prems] by blast
  show ?case using Cons.IH [OF d(1)] d(2) order_trans by auto
qed simp

lemma gather_fold_max:
  assumes "rd \<in> set reads" and "ow_entry rd = Some e"
  shows "\<exists>d. fold gather_step reads winner = Some d \<and> e_timestamp e \<le> e_timestamp d"
  using assms(1)
proof (induction reads arbitrary: winner)
  case (Cons x reads)
  show ?case
  proof (cases "rd = x")
    case True
    obtain d where d: "gather_step x winner = Some d" "e_timestamp e \<le> e_timestamp d"
      using gather_step_takes [OF assms(2)] True by blast
    show ?thesis using gather_fold_grows [OF d(1), of reads] d(2) order_trans by auto
  next
    case False
    then show ?thesis using Cons by simp
  qed
qed simp

lemma gather_fold_from:
  "fold gather_step reads winner = Some d \<Longrightarrow> winner = Some d \<or> (\<exists>rd \<in> set reads. ow_entry rd = Some d)"
proof (induction reads arbitrary: winner)
  case (Cons x reads)
  have "fold gather_step reads (gather_step x winner) = Some d" using Cons.prems by simp
  from Cons.IH [OF this] show ?case by (auto simp: gather_step_def split: if_splits)
qed simp

lemma replicated_gains:
  assumes "sr_inv (en_store en)"
  shows "gains en (snd (pb_replicateOne d e en))" and "d \<noteq> Lost \<Longrightarrow> holds e (en_lookup (snd (pb_replicateOne d e en)))"
  using merge_gains [OF assms, of e] gains_refl [OF assms] by (cases d; simp)+

lemma repair_result:
  "\<forall>b. sr_inv (en_store (ns b)) \<Longrightarrow> (\<forall>b. gains (ns b) (rp_readRepair net self d reads ns b))
     \<and> (\<forall>rd \<in> set reads. \<not> (ow_entry rd \<noteq> None \<and> \<not> supersedes d (the (ow_entry rd))) \<and> (ow_owner rd = self \<or> net (ow_owner rd) \<noteq> Lost)
          \<longrightarrow> holds d (en_lookup (rp_readRepair net self d reads ns (ow_owner rd))))"
proof (induction reads arbitrary: ns)
  case Nil
  then show ?case using gains_refl by simp
next
  case (Cons rd reads)
  let ?stale = "\<lambda>rd. \<not> (ow_entry rd \<noteq> None \<and> \<not> supersedes d (the (ow_entry rd)))"
  let ?o = "ow_owner rd"
  show ?case
  proof (cases "?stale rd")
    case False
    then have run: "rp_readRepair net self d (rd # reads) ns = rp_readRepair net self d reads ns" by simp
    show ?thesis using Cons.IH [OF Cons.prems] False unfolding run by auto
  next
    case True
    define en where "en = (if ?o = self then en_merge d (ns self) else snd (pb_replicateOne (net ?o) d (ns ?o)))"
    have run: "rp_readRepair net self d (rd # reads) ns = rp_readRepair net self d reads (ns(?o := en))"
      using True by (auto simp: en_def)
    have inv: "sr_inv (en_store (ns b))" for b using Cons.prems by blast
    have en: "gains (ns ?o) en" "?o = self \<or> net ?o \<noteq> Lost \<Longrightarrow> holds d (en_lookup en)"
      using merge_gains [OF inv [of self], of d] replicated_gains [OF inv [of ?o], of "net ?o" d] by (auto simp: en_def)
    have one: "gains (ns b) ((ns(?o := en)) b)" for b using en(1) gains_refl [OF inv] by simp
    have inv': "\<forall>b. sr_inv (en_store ((ns(?o := en)) b))" using one gains_inv by blast
    have IH: "\<forall>b. gains ((ns(?o := en)) b) (rp_readRepair net self d reads (ns(?o := en)) b)"
      "\<forall>rd \<in> set reads. ?stale rd \<and> (ow_owner rd = self \<or> net (ow_owner rd) \<noteq> Lost)
          \<longrightarrow> holds d (en_lookup (rp_readRepair net self d reads (ns(?o := en)) (ow_owner rd)))"
      using Cons.IH [OF inv'] by blast+
    have "holds d (en_lookup (rp_readRepair net self d reads (ns(?o := en)) ?o))" if "?o = self \<or> net ?o \<noteq> Lost"
    proof -
      have "gains en (rp_readRepair net self d reads (ns(?o := en)) ?o)" using IH(1) [rule_format, of ?o] by simp
      then show ?thesis using en(2) [OF that] gains_holds by blast
    qed
    moreover have "gains (ns b) (rp_readRepair net self d reads (ns(?o := en)) b)" for b
      using gains_trans [OF one IH(1) [rule_format]] .
    ultimately show ?thesis using IH(2) unfolding run by auto
  qed
qed

lemma peekFrom_lookup: "w = self \<or> w \<in> reachable \<Longrightarrow> rp_peekFrom reachable self key ns w = en_lookup (ns w) key"
  by (auto simp: rp_peekFrom_def en_peek_def sr_lookup_def)

definition heard :: "jsstr set \<Rightarrow> jsstr \<Rightarrow> jsstr \<Rightarrow> bool" where
  "heard reachable self w \<longleftrightarrow> w = self \<or> w \<in> reachable"

lemma gather_result:
  assumes "\<forall>b. sr_inv (en_store (ns b))" and "rp_gather reachable net self key owners nowMs ns = (res, ns')"
  shows "(\<forall>b. gains (ns b) (ns' b)) \<and>
    ((\<forall>w \<in> set owners. heard reachable self w \<longrightarrow> en_lookup (ns w) key = None) \<and> res = None
     \<or> (\<exists>d. (\<exists>w \<in> set owners. heard reachable self w \<and> en_lookup (ns w) key = Some d)
          \<and> (\<forall>w \<in> set owners. \<forall>e. heard reachable self w \<and> en_lookup (ns w) key = Some e \<longrightarrow> e_timestamp e \<le> e_timestamp d)
          \<and> res = (if isLiveValue d nowMs then Some d else None)
          \<and> (\<forall>w \<in> set owners. w = self \<or> w \<in> reachable \<and> net w \<noteq> Lost \<longrightarrow> holds d (en_lookup (ns' w)))))"
proof -
  let ?read = "\<lambda>w. \<lparr>ow_owner = w, ow_entry = rp_peekFrom reachable self key ns w\<rparr>"
  let ?reads = "map ?read owners"
  have peek: "rp_peekFrom reachable self key ns w = (if heard reachable self w then en_lookup (ns w) key else None)" for w
    by (auto simp: heard_def peekFrom_lookup) (simp add: rp_peekFrom_def)
  show ?thesis
  proof (cases "fold gather_step ?reads None")
    case None
    have "en_lookup (ns w) key = None" if w: "w \<in> set owners" "heard reachable self w" for w
    proof (rule ccontr)
      assume "en_lookup (ns w) key \<noteq> None"
      then obtain e where "ow_entry (?read w) = Some e" using w(2) by (auto simp: peek)
      moreover have "?read w \<in> set ?reads" using w(1) by simp
      ultimately show False using gather_fold_max [of "?read w" ?reads e None] None by auto
    qed
    moreover have "res = None" "ns' = ns" using assms(2) None by (auto simp: rp_gather_def Let_def)
    ultimately show ?thesis using assms(1) gains_refl by blast
  next
    case (Some d)
    have out: "res = (if isLiveValue d nowMs then Some d else None)" "ns' = rp_readRepair net self d ?reads ns"
      using assms(2) Some by (auto simp: rp_gather_def Let_def)
    obtain w where w: "w \<in> set owners" "rp_peekFrom reachable self key ns w = Some d"
      using gather_fold_from [OF Some] by auto
    have from_w: "heard reachable self w" "en_lookup (ns w) key = Some d" using w(2) by (auto simp: peek split: if_splits)
    have most: "e_timestamp e \<le> e_timestamp d" if "v \<in> set owners" "heard reachable self v" "en_lookup (ns v) key = Some e" for v e
    proof -
      have "?read v \<in> set ?reads" "ow_entry (?read v) = Some e" using that by (auto simp: peek)
      then show ?thesis using gather_fold_max [of "?read v" ?reads e None] Some by auto
    qed
    have key: "e_key d = key" by (rule lookup_key [OF _ from_w(2)]) (use assms(1) in blast)
    have repair: "\<forall>b. gains (ns b) (ns' b)"
      "\<forall>rd \<in> set ?reads. \<not> (ow_entry rd \<noteq> None \<and> \<not> supersedes d (the (ow_entry rd))) \<and> (ow_owner rd = self \<or> net (ow_owner rd) \<noteq> Lost)
          \<longrightarrow> holds d (en_lookup (ns' (ow_owner rd)))"
      using repair_result [OF assms(1), of net self d ?reads] unfolding out(2) by blast+
    have "holds d (en_lookup (ns' v))" if v: "v \<in> set owners" "v = self \<or> v \<in> reachable \<and> net v \<noteq> Lost" for v
    proof (cases "rp_peekFrom reachable self key ns v \<noteq> None \<and> \<not> supersedes d (the (rp_peekFrom reachable self key ns v))")
      case True
      then obtain e where e: "en_lookup (ns v) key = Some e" "e_timestamp d \<le> e_timestamp e"
        by (auto simp: peek supersedes_iff not_less split: if_splits)
      then have "holds d (en_lookup (ns v))" using key by (auto simp: holds_def)
      then show ?thesis using repair(1) gains_holds by blast
    next
      case False
      then show ?thesis using repair(2) [rule_format, of "?read v"] v by auto
    qed
    then show ?thesis using repair(1) w(1) from_w most out(1) by blast
  qed
qed

section \<open>A sample cluster\<close>

text \<open>Three members, the partition of the sample key, its primary, its one backup and the third member.\<close>

lemma sample_cluster:
  obtains en ring p self b other where "en_new (js ''a'') 7 = Inr en" "sr_inv (en_store en)" "en_lookup en = Map.empty"
    "p = en_partitionFor (js ''k'') en" "p < 7" "pr_new (\<lambda>x. x) [js ''a'', js ''b'', js ''c''] 7 = Inr ring"
    "pr_primary ring (int p) = Inr self" "pr_backups ring (int p) 2 = Inr [b]" "b \<noteq> self" "other \<noteq> self" "other \<noteq> b"
proof -
  let ?ms = "[js ''a'', js ''b'', js ''c'']"
  obtain en where en: "en_new (js ''a'') 7 = Inr en" "sr_inv (en_store en)" using sample_node by blast
  have empty: "en_lookup en = Map.empty" using en(1) sr_new_inv [of 7] by (auto simp: en_new_def split: sum.splits)
  let ?p = "en_partitionFor (js ''k'') en"
  have "sr_partitionCount (en_store en) = 7" using en(1) by (auto simp: en_new_def sr_new_def split: sum.splits if_splits)
  then have p: "?p < 7" unfolding en_partitionFor_def sr_partitionFor_def partitionId_def by (simp add: isSafeInteger_def)
  obtain ring where ring: "pr_new (\<lambda>x. x) ?ms 7 = Inr ring" by (auto simp: pr_new_Inr isSafeInteger_def js_def)
  obtain bs self where bs: "pr_backups ring (int ?p) 2 = Inr bs" "pr_primary ring (int ?p) = Inr self"
    using ring_serves [OF ring, of "int ?p" 2] p by (auto simp: isSafeInteger_def)
  have "length bs = 1" "self \<notin> set bs" using backups_shape [OF ring bs] by (simp_all add: js_def)
  then obtain b where b: "bs = [b]" "b \<noteq> self" by (cases bs) auto
  have "\<exists>w. w \<noteq> self \<and> w \<noteq> b"
    using ex_new_if_finite [OF infinite_UNIV_listI, of "{self, b}"] by auto
  then show thesis using that [OF en empty refl p ring bs(2)] bs(1) b by auto
qed

section \<open>Properties\<close>

text \<open>
  C19. A gathered read returns the newest version that any owner it reaches holds, or
  nothing when that version is a tombstone or has expired; it loses nothing, and
  afterwards every owner its repair reaches holds that version or a newer one.
\<close>

theorem gather_reads_newest:
  assumes "\<forall>b. sr_inv (en_store (ns b))" and "rp_gather reachable net self key owners nowMs ns = (res, ns')"
  shows "(\<forall>b. gains (ns b) (ns' b)) \<and>
    ((\<forall>w \<in> set owners. heard reachable self w \<longrightarrow> en_lookup (ns w) key = None) \<and> res = None
     \<or> (\<exists>d. (\<exists>w \<in> set owners. heard reachable self w \<and> en_lookup (ns w) key = Some d)
          \<and> (\<forall>w \<in> set owners. \<forall>e. heard reachable self w \<and> en_lookup (ns w) key = Some e \<longrightarrow> e_timestamp e \<le> e_timestamp d)
          \<and> res = (if isLiveValue d nowMs then Some d else None)
          \<and> (\<forall>w \<in> set owners. w = self \<or> w \<in> reachable \<and> net w \<noteq> Lost \<longrightarrow> holds d (en_lookup (ns' w)))))"
  by (rule gather_result [OF assms])

theorem gather_reads_newest_witness:
  "\<exists>ns ns'. rp_gather {js ''b''} (\<lambda>_. Acked) (js ''a'') (js ''k'') [js ''a'', js ''b''] 5 ns = (Some sample_entry, ns')
     \<and> en_lookup (ns (js ''a'')) (js ''k'') = None \<and> holds sample_entry (en_lookup (ns' (js ''a'')))"
proof -
  obtain en where en: "en_new (js ''a'') 7 = Inr en" "sr_inv (en_store en)" using sample_node by blast
  have empty: "en_lookup en = Map.empty" using en(1) sr_new_inv [of 7] by (auto simp: en_new_def split: sum.splits)
  let ?ns = "(\<lambda>_. en)(js ''b'' := en_merge sample_entry en)"
  have ne: "js ''a'' \<noteq> js ''b''" by (simp add: js_def)
  have inv: "\<forall>b. sr_inv (en_store (?ns b))" using en(2) merge_gains(1) [OF en(2)] gains_inv by auto
  have found: "en_lookup (?ns (js ''b'')) (js ''k'') = Some sample_entry"
    using empty en(2) by (simp add: en_merge_def sr_apply_lww lww_put_def sample_entry_def)
  obtain res ns' where run: "rp_gather {js ''b''} (\<lambda>_. Acked) (js ''a'') (js ''k'') [js ''a'', js ''b''] 5 ?ns = (res, ns')"
    by fastforce
  have "res = Some sample_entry \<and> holds sample_entry (en_lookup (ns' (js ''a'')))"
    using gather_reads_newest [OF inv run] found ne empty
    by (auto simp: heard_def isLiveValue_def isExpired_def sample_entry_def)
  then show ?thesis using run ne empty by (intro exI [of _ ?ns] exI [of _ ns']) simp
qed

text \<open>
  C20. The recovery window is safe for reads: while a promoted primary is marked
  recovering, a read at it returns what any answering backup holds of the key, or a
  newer version, and leaves that version at the primary.
\<close>

theorem recovering_read_sees_backups:
  assumes "\<forall>b. sr_inv (en_store (ns b))" and "rp_placementOf p rp = Inr pl" and "pl_owners pl = [rp_self rp]"
    and "pl_primary pl = rp_self rp" and "rc_isRecovering p rc" and "en_partitionFor (e_key e) en = p"
    and "b \<in> set (pl_backups pl)" and "b \<in> reachable" and "holds e (en_lookup (ns b))"
    and "rp_read (\<lambda>q. rc_isRecovering q rc) (e_key e) en rp = Inr (route, rp')"
    and "rp_answer reachable net (rp_self rp) (e_key e) nowMs route ns = (res, ns')"
  shows "\<exists>d. e_timestamp e \<le> e_timestamp d \<and> res = (if isLiveValue d nowMs then Some d else None)
    \<and> holds d (en_lookup (ns' (rp_self rp))) \<and> (\<forall>w. gains (ns w) (ns' w))"
proof -
  have route: "route = Gather (rp_self rp # pl_backups pl)"
    using assms(2-6,10) by (auto simp: rp_read_def Let_def rp_servePrimaryRead_def)
  have run: "rp_gather reachable net (rp_self rp) (e_key e) (rp_self rp # pl_backups pl) nowMs ns = (res, ns')"
    using assms(11) route by simp
  obtain x where x: "en_lookup (ns b) (e_key e) = Some x" "e_timestamp e \<le> e_timestamp x"
    using assms(9) unfolding holds_def by blast
  have b: "b \<in> set (rp_self rp # pl_backups pl)" "heard reachable (rp_self rp) b"
    using assms(7,8) by (simp_all add: heard_def)
  have "\<not> (\<forall>w \<in> set (rp_self rp # pl_backups pl). heard reachable (rp_self rp) w \<longrightarrow> en_lookup (ns w) (e_key e) = None)"
    using b x(1) by force
  with gather_result [OF assms(1) run] obtain d where gains: "\<forall>w. gains (ns w) (ns' w)"
    and d: "\<forall>w \<in> set (rp_self rp # pl_backups pl). \<forall>e'. heard reachable (rp_self rp) w \<and> en_lookup (ns w) (e_key e) = Some e' \<longrightarrow> e_timestamp e' \<le> e_timestamp d"
      "res = (if isLiveValue d nowMs then Some d else None)"
      "\<forall>w \<in> set (rp_self rp # pl_backups pl). w = rp_self rp \<or> w \<in> reachable \<and> net w \<noteq> Lost \<longrightarrow> holds d (en_lookup (ns' w))"
    by blast
  have "e_timestamp x \<le> e_timestamp d" using d(1) b x(1) by blast
  then show ?thesis using x(2) d(2,3) gains by (intro exI [of _ d]) auto
qed

theorem recovering_read_sees_backups_witness:
  "\<exists>p rp pl rc en ns route rp' res ns'. rp_placementOf p rp = Inr pl \<and> rc_isRecovering p rc
    \<and> en_lookup (ns (rp_self rp)) (js ''k'') = None
    \<and> rp_read (\<lambda>q. rc_isRecovering q rc) (js ''k'') en rp = Inr (route, rp')
    \<and> rp_answer UNIV (\<lambda>_. Acked) (rp_self rp) (js ''k'') 5 route ns = (res, ns')
    \<and> (\<exists>d. e_timestamp sample_entry \<le> e_timestamp d \<and> res = (if isLiveValue d 5 then Some d else None))"
proof -
  obtain en ring p self b where s: "sr_inv (en_store en)" "en_lookup en = Map.empty" "p = en_partitionFor (js ''k'') en" "p < 7"
    "pr_new (\<lambda>x. x) [js ''a'', js ''b'', js ''c''] 7 = Inr ring" "pr_primary ring (int p) = Inr self"
    "pr_backups ring (int p) 2 = Inr [b]" "b \<noteq> self"
    using sample_cluster by metis
  obtain t where t: "rt_initial ring 1 = Inr t" using initial_defined [OF s(5), of 1] by auto
  have own: "rt_owners (int p) t = Inr [self]" using initial_owners [OF s(5) t, of p] s(4,6) by simp
  let ?rp = "\<lparr>rp_self = self, rp_replicaCount = 2, rp_mode = Sync, rp_writeQuorum = 2, rp_groups = [],
    rp_table = Some t, rp_ring = Some ring\<rparr>"
  let ?pl = "\<lparr>pl_owners = [self], pl_primary = self, pl_previousOwners = [], pl_backups = [b]\<rparr>"
  let ?rc = "(rc_new en self 2)\<lparr>rc_recovering := {p}\<rparr>" and ?ns = "(\<lambda>_. en)(b := en_merge sample_entry en)"
  have pl: "rp_placementOf p ?rp = Inr ?pl" using own s(7) by (simp add: rp_placementOf_def rt_placement_def)
  have rec: "rc_isRecovering p ?rc" by (simp add: rc_isRecovering_def)
  have key: "e_key sample_entry = js ''k''" by (simp add: sample_entry_def)
  have inv: "\<forall>w. sr_inv (en_store (?ns w))" using s(1) merge_gains(1) [OF s(1)] gains_inv by auto
  have held: "holds sample_entry (en_lookup (?ns b))" using merge_gains(2) [OF s(1)] by simp
  have read: "rp_read (\<lambda>q. rc_isRecovering q ?rc) (e_key sample_entry) en ?rp = Inr (Gather [self, b], ?rp)"
    using pl rec s(3) by (simp add: rp_read_def rp_servePrimaryRead_def key Let_def)
  obtain res ns' where ans: "rp_answer UNIV (\<lambda>_. Acked) self (e_key sample_entry) 5 (Gather [self, b]) ?ns = (res, ns')"
    by fastforce
  have "\<exists>d. e_timestamp sample_entry \<le> e_timestamp d \<and> res = (if isLiveValue d 5 then Some d else None)
    \<and> holds d (en_lookup (ns' (rp_self ?rp))) \<and> (\<forall>w. gains (?ns w) (ns' w))"
    by (rule recovering_read_sees_backups [OF inv pl _ _ rec _ _ _ held read, where reachable = UNIV and net = "\<lambda>_. Acked"])
      (use s(3) ans in \<open>simp_all add: key del: fun_upd_apply\<close>)
  then show ?thesis using pl rec s(2,8) read ans unfolding key
    by (intro exI [of _ p] exI [of _ ?rp] exI [of _ ?pl] exI [of _ ?rc] exI [of _ en] exI [of _ ?ns]) auto
qed

text \<open>
  C33. A fragmented partition has no such window: when its primary dies while a
  previous owner is still listed, the promoted node does not count as recovering,
  and a read gathers the listed owners only, so a write that only the dead primary
  and a backup had is not found although the backup answers.
\<close>

theorem fragmented_crash_hides_write:
  assumes "rp_placementOf p rp = Inr pl" and "length (pl_owners pl) > 1" and "en_partitionFor key en = p"
    and "\<forall>w \<in> set (pl_owners pl). en_lookup (ns w) key = None" and "\<forall>b. sr_inv (en_store (ns b))"
  shows "rc_isCrashPromotion members previous p pl (rp_self rp) = Inr False
    \<and> (\<exists>route rp'. rp_read isRecovering key en rp = Inr (route, rp')
         \<and> fst (rp_answer UNIV net (rp_self rp) key nowMs route ns) = None)"
proof -
  have "rp_read isRecovering key en rp = Inr (Gather (pl_owners pl), rp)" using assms(1-3) by (simp add: rp_read_def)
  moreover obtain res ns' where run: "rp_gather UNIV net (rp_self rp) key (pl_owners pl) nowMs ns = (res, ns')" by fastforce
  have "res = None" using gather_result [OF assms(5) run] assms(4) by force
  ultimately show ?thesis using run assms(2) by (simp add: rc_isCrashPromotion_def)
qed

theorem fragmented_crash_hides_write_witness:
  "\<exists>p rp pl b en ns t. rp_placementOf p rp = Inr pl \<and> pl_primary pl = rp_self rp \<and> b \<in> set (pl_backups pl)
    \<and> en_read (js ''k'') 5 (ns b) = Some sample_entry \<and> rt_primary (int p) t = Inr (js ''dead'')
    \<and> rc_isCrashPromotion [rp_self rp, b] (Some t) p pl (rp_self rp) = Inr False
    \<and> (\<exists>route rp'. rp_read (\<lambda>_. False) (js ''k'') en rp = Inr (route, rp')
         \<and> fst (rp_answer UNIV (\<lambda>_. Acked) (rp_self rp) (js ''k'') 5 route ns) = None)"
proof -
  obtain en ring p self b other where s: "sr_inv (en_store en)" "en_lookup en = Map.empty" "p = en_partitionFor (js ''k'') en"
    "p < 7" "pr_backups ring (int p) 2 = Inr [b]" "b \<noteq> self" "other \<noteq> self" "other \<noteq> b"
    using sample_cluster by metis
  let ?t = "\<lparr>rt_version = 2, rt_table = replicate 7 [other, self]\<rparr>"
  let ?old = "\<lparr>rt_version = 1, rt_table = replicate 7 [other, js ''dead'']\<rparr>"
  let ?rp = "\<lparr>rp_self = self, rp_replicaCount = 2, rp_mode = Sync, rp_writeQuorum = 2, rp_groups = [],
    rp_table = Some ?t, rp_ring = Some ring\<rparr>"
  let ?pl = "\<lparr>pl_owners = [other, self], pl_primary = self, pl_previousOwners = [other], pl_backups = [b]\<rparr>"
  let ?ns = "(\<lambda>_. en)(b := en_merge sample_entry en)"
  have safe: "isSafeInteger (int p)" using s(4) by (simp add: isSafeInteger_def)
  have pl: "rp_placementOf p ?rp = Inr ?pl"
    using s(4,5) safe by (simp add: rp_placementOf_def rt_placement_def rt_owners_def rt_requireId_def)
  have old: "rt_primary (int p) ?old = Inr (js ''dead'')"
    using s(4) safe by (simp add: rt_primary_def rt_owners_def rt_requireId_def)
  have inv: "\<forall>w. sr_inv (en_store (?ns w))" using s(1) merge_gains(1) [OF s(1)] gains_inv by auto
  have none: "\<forall>w \<in> set (pl_owners ?pl). en_lookup (?ns w) (js ''k'') = None" using s(2,6,8) by simp
  have "en_lookup (en_merge sample_entry en) (js ''k'') = Some sample_entry"
    using s(1,2) by (simp add: en_merge_def sr_apply_lww lww_put_def sample_entry_def)
  then have "en_read (js ''k'') 5 (?ns b) = Some sample_entry"
    by (auto simp: en_read_def sr_get_def sr_lookup_def sr_peek_def pt_get_def pt_peek_def isLiveValue_def isExpired_def
        sample_entry_def split: option.splits)
  then show ?thesis
    using fragmented_crash_hides_write [OF pl _ s(3) [symmetric] none inv, of "[self, b]" "Some ?old" "\<lambda>_. False" "\<lambda>_. Acked" 5]
      pl old
    by (intro exI [of _ p] exI [of _ ?rp] exI [of _ ?pl] exI [of _ b] exI [of _ en] exI [of _ ?ns] exI [of _ ?old]) (simp del: fun_upd_apply)
qed

end
