(* ===== verification/MembershipView.thy ===== *)
theory MembershipView
  imports JsMap Bytes Complex_Main "HOL-Library.Product_Lexorder"
begin

text \<open>
  The membership table of the SWIM engine, \<open>src/membership/view.ts\<close>: one record per member,
  replaced under incarnation and state precedence, the self-refutation rule, suspect
  confirmations, and guarded removal of terminal records.  Local times are rationals,
  the time before any update is \<^term>\<open>None\<close>.  Copies of metadata are equal values here, so
  a snapshot is the record without its confirmations.  The event that an operation hands
  to the callback is the one in its result.

  The theory shows the table's invariant, that a retained record is always the newest
  truth the table has seen, whatever the order, that remote truth about the node itself
  never replaces its own, and that departures are announced once.
\<close>

section \<open>States and updates\<close>

datatype MemberState = STATE_ALIVE | STATE_SUSPECT | STATE_DEAD | STATE_LEFT

text \<open>The wire number of a state, which is also its precedence at equal incarnation.\<close>

fun state_number :: "MemberState \<Rightarrow> nat" where
  "state_number STATE_ALIVE = 0"
| "state_number STATE_SUSPECT = 1"
| "state_number STATE_DEAD = 2"
| "state_number STATE_LEFT = 3"

lemma state_number_inj [simp]: "state_number s = state_number t \<longleftrightarrow> s = t"
  by (cases s; cases t) simp_all

instantiation MemberState :: linorder
begin

definition less_eq_MemberState :: "MemberState \<Rightarrow> MemberState \<Rightarrow> bool" where
  "s \<le> t \<longleftrightarrow> state_number s \<le> state_number t"

definition less_MemberState :: "MemberState \<Rightarrow> MemberState \<Rightarrow> bool" where
  "s < t \<longleftrightarrow> state_number s < state_number t"

instance
  by intro_classes (auto simp: less_eq_MemberState_def less_MemberState_def dest: antisym)

end

record MembershipUpdate =
  mu_state :: MemberState
  mu_selfOriginated :: bool
  mu_incarnation :: int
  mu_stateChangeTime :: int
  mu_member :: jsstr
  mu_reporter :: jsstr
  mu_metadata :: bytes

record MemberRecord = MembershipUpdate +
  mu_appliedAt :: rat

record StoredRecord = MemberRecord +
  mu_confirmations :: "jsstr list"

definition TERMINAL_RETENTION_MS :: rat where "TERMINAL_RETENTION_MS = 30000"
definition MAX_INCARNATION :: int where "MAX_INCARNATION = 0xffffffff"
definition MAX_MEMBERS :: nat where "MAX_MEMBERS = 1024"

definition compareMembershipUpdates :: "int \<Rightarrow> MemberState \<Rightarrow> int \<Rightarrow> MemberState \<Rightarrow> int" where
  "compareMembershipUpdates i s j t =
     (if i \<noteq> j then (if i > j then 1 else - 1) else if s = t then 0 else if s > t then 1 else - 1)"

definition isTerminalState :: "MemberState \<Rightarrow> bool" where
  "isTerminalState s \<longleftrightarrow> s = STATE_DEAD \<or> s = STATE_LEFT"

definition isProbeEligibleState :: "MemberState \<Rightarrow> bool" where
  "isProbeEligibleState s \<longleftrightarrow> s = STATE_ALIVE \<or> s = STATE_SUSPECT"

definition snapshot :: "StoredRecord \<Rightarrow> MemberRecord" where
  "snapshot r = MemberRecord.truncate r"

definition copyMembershipUpdate :: "'a MembershipUpdate_scheme \<Rightarrow> MembershipUpdate" where
  "copyMembershipUpdate u = MembershipUpdate.truncate u"

section \<open>Results\<close>

datatype MembershipEventType = Joined | LeftEvent | DeadEvent | Updated

record MembershipEvent =
  ev_type :: MembershipEventType
  ev_member :: MemberRecord
  ev_previous :: "MemberRecord option"

datatype ApplyResult =
    Applied MemberRecord "MembershipEvent option"
  | Confirmed jsstr int jsstr nat
  | Refuted MembershipUpdate MemberRecord "MembershipEvent option"
  | Ignored

datatype MembershipFault = IncarnationExhaustedError int | MembershipCapacityError

record ReapOperation =
  ro_member :: jsstr
  ro_state :: MemberState
  ro_incarnation :: int
  ro_dueAt :: rat

section \<open>The view\<close>

record MembershipView =
  mv_selfName :: jsstr
  mv_records :: "(jsstr, StoredRecord) jsmap"
  mv_lastAppliedAt :: "rat option"
  mv_eligibleCount :: int

definition mv_new :: "jsstr \<Rightarrow> MembershipView" where
  "mv_new selfName = \<lparr>mv_selfName = selfName, mv_records = [], mv_lastAppliedAt = None, mv_eligibleCount = 0\<rparr>"

definition mv_size :: "MembershipView \<Rightarrow> nat" where
  "mv_size v = length (mv_records v)"

definition mv_get :: "jsstr \<Rightarrow> MembershipView \<Rightarrow> MemberRecord option" where
  "mv_get name v = map_option snapshot (js_get (mv_records v) name)"

definition mv_stateOf :: "jsstr \<Rightarrow> MembershipView \<Rightarrow> (MemberState \<times> int) option" where
  "mv_stateOf name v = map_option (\<lambda>r. (mu_state r, mu_incarnation r)) (js_get (mv_records v) name)"

definition mv_eachMember :: "MembershipView \<Rightarrow> (jsstr \<times> MemberState) list" where
  "mv_eachMember v = map (\<lambda>r. (mu_member r, mu_state r)) (js_values (mv_records v))"

definition mv_self :: "MembershipView \<Rightarrow> MemberRecord option" where
  "mv_self v = mv_get (mv_selfName v) v"

definition mv_members :: "MembershipView \<Rightarrow> MemberRecord list" where
  "mv_members v = map snapshot (js_values (mv_records v))"

definition mv_updates :: "MembershipView \<Rightarrow> MembershipUpdate list" where
  "mv_updates v = map copyMembershipUpdate (js_values (mv_records v))"

definition mv_aliveOrSuspectCount :: "MembershipView \<Rightarrow> int" where
  "mv_aliveOrSuspectCount v = mv_eligibleCount v"

definition mv_confirmationReporters :: "jsstr \<Rightarrow> MembershipView \<Rightarrow> jsstr list" where
  "mv_confirmationReporters member v =
     (case js_get (mv_records v) member of
        None \<Rightarrow> []
      | Some r \<Rightarrow> if mu_state r = STATE_SUSPECT then mu_confirmations r else [])"

definition mv_isGossipEligible :: "jsstr \<Rightarrow> rat \<Rightarrow> MembershipView \<Rightarrow> bool" where
  "mv_isGossipEligible name now v \<longleftrightarrow>
     (case js_get (mv_records v) name of
        None \<Rightarrow> False
      | Some r \<Rightarrow> isProbeEligibleState (mu_state r)
          \<or> isTerminalState (mu_state r) \<and> now < mu_appliedAt r + TERMINAL_RETENTION_MS)"

definition eventType :: "StoredRecord option \<Rightarrow> StoredRecord \<Rightarrow> MembershipEventType option" where
  "eventType previous nxt =
     (if mu_state nxt = STATE_ALIVE then
        (case previous of
           None \<Rightarrow> Some Joined
         | Some p \<Rightarrow>
             if isTerminalState (mu_state p) then Some Joined
             else if mu_state p = STATE_ALIVE \<and> mu_metadata p \<noteq> mu_metadata nxt then Some Updated
             else None)
      else if isTerminalState (mu_state nxt) then
        (case previous of
           None \<Rightarrow> None
         | Some p \<Rightarrow>
             if isTerminalState (mu_state p) then None
             else Some (if mu_state nxt = STATE_DEAD then DeadEvent else LeftEvent))
      else None)"

definition mv_wouldRefute :: "MembershipUpdate \<Rightarrow> MembershipView \<Rightarrow> bool" where
  "mv_wouldRefute u v =
     (if mu_member u \<noteq> mv_selfName v then False
      else
        case js_get (mv_records v) (mu_member u) of
          None \<Rightarrow> mu_state u \<noteq> STATE_ALIVE
        | Some current \<Rightarrow>
            if mu_state u \<noteq> STATE_ALIVE then mu_incarnation u \<ge> mu_incarnation current
            else if mu_state current \<noteq> STATE_ALIVE then False
            else if mu_incarnation u > mu_incarnation current then True
            else mu_incarnation u = mu_incarnation current \<and> mu_metadata u \<noteq> mu_metadata current)"

definition max_time :: "rat \<Rightarrow> rat option \<Rightarrow> rat" where
  "max_time now lastAt = (case lastAt of None \<Rightarrow> now | Some t \<Rightarrow> max now t)"

definition stored_of :: "MembershipUpdate \<Rightarrow> rat \<Rightarrow> StoredRecord" where
  "stored_of u appliedAt =
     \<lparr>mu_state = mu_state u, mu_selfOriginated = mu_selfOriginated u, mu_incarnation = mu_incarnation u,
      mu_stateChangeTime = mu_stateChangeTime u, mu_member = mu_member u, mu_reporter = mu_reporter u,
      mu_metadata = mu_metadata u, mu_appliedAt = appliedAt,
      mu_confirmations = (if mu_state u = STATE_SUSPECT then [mu_reporter u] else [])\<rparr>"

definition mv_replace ::
  "MembershipUpdate \<Rightarrow> StoredRecord option \<Rightarrow> rat \<Rightarrow> MembershipView
     \<Rightarrow> MembershipFault + (MemberRecord \<times> MembershipEvent option) \<times> MembershipView" where
  "mv_replace incoming previous now v =
     (if previous = None \<and> length (mv_records v) \<ge> MAX_MEMBERS then Inl MembershipCapacityError
      else
        let previousEligible = (case previous of None \<Rightarrow> False | Some p \<Rightarrow> isProbeEligibleState (mu_state p));
            nextEligible = isProbeEligibleState (mu_state incoming);
            delta = (if previousEligible \<noteq> nextEligible then (if nextEligible then 1 else - 1) else 0);
            appliedAt = max_time now (mv_lastAppliedAt v);
            stored = stored_of incoming appliedAt;
            v = v\<lparr>mv_eligibleCount := mv_eligibleCount v + delta, mv_lastAppliedAt := Some appliedAt,
                  mv_records := js_set (mu_member incoming) stored (mv_records v)\<rparr>;
            event = map_option (\<lambda>t. \<lparr>ev_type = t, ev_member = snapshot stored, ev_previous = map_option snapshot previous\<rparr>)
                      (eventType previous stored)
        in Inr ((snapshot stored, event), v))"

definition mv_confirmationOrIgnored ::
  "MembershipUpdate \<Rightarrow> StoredRecord \<Rightarrow> MembershipView \<Rightarrow> ApplyResult \<times> MembershipView" where
  "mv_confirmationOrIgnored incoming current v =
     (if mu_state incoming \<noteq> STATE_SUSPECT \<or> mu_state current \<noteq> STATE_SUSPECT
         \<or> mu_incarnation incoming \<noteq> mu_incarnation current \<or> mu_reporter incoming \<in> set (mu_confirmations current)
      then (Ignored, v)
      else
        let current = current\<lparr>mu_confirmations := mu_confirmations current @ [mu_reporter incoming]\<rparr>
        in (Confirmed (mu_member incoming) (mu_incarnation incoming) (mu_reporter incoming)
              (length (mu_confirmations current) - 1),
            v\<lparr>mv_records := js_set (mu_member incoming) current (mv_records v)\<rparr>))"

definition mv_refute ::
  "MembershipUpdate \<Rightarrow> StoredRecord option \<Rightarrow> rat \<Rightarrow> int \<Rightarrow> MembershipView \<Rightarrow> MembershipFault + ApplyResult \<times> MembershipView" where
  "mv_refute accusation current now stateChangeTime v =
     (let base = max (mu_incarnation accusation) (case current of None \<Rightarrow> 0 | Some r \<Rightarrow> mu_incarnation r) in
      if base \<ge> MAX_INCARNATION then Inl (IncarnationExhaustedError base)
      else
        let alive = \<lparr>mu_state = STATE_ALIVE, mu_selfOriginated = True, mu_incarnation = base + 1,
                     mu_stateChangeTime = stateChangeTime, mu_member = mv_selfName v, mu_reporter = [],
                     mu_metadata = (case current of None \<Rightarrow> [] | Some r \<Rightarrow> if mu_state r = STATE_ALIVE then mu_metadata r else [])\<rparr>
        in (case mv_replace alive current now v of
              Inl e \<Rightarrow> Inl e
            | Inr ((record, event), v) \<Rightarrow> Inr (Refuted (copyMembershipUpdate accusation) record event, v)))"

definition mv_applied ::
  "MembershipUpdate \<Rightarrow> StoredRecord option \<Rightarrow> rat \<Rightarrow> MembershipView \<Rightarrow> MembershipFault + ApplyResult \<times> MembershipView" where
  "mv_applied incoming current now v =
     (case mv_replace incoming current now v of
        Inl e \<Rightarrow> Inl e
      | Inr ((record, event), v) \<Rightarrow> Inr (Applied record event, v))"

definition mv_apply :: "MembershipUpdate \<Rightarrow> rat \<Rightarrow> int \<Rightarrow> MembershipView \<Rightarrow> MembershipFault + ApplyResult \<times> MembershipView" where
  "mv_apply incoming now selfStateChangeTime v =
     (let current = js_get (mv_records v) (mu_member incoming) in
      if mv_wouldRefute incoming v then mv_refute incoming current now selfStateChangeTime v
      else
        case current of
          None \<Rightarrow> if isTerminalState (mu_state incoming) then Inr (Ignored, v) else mv_applied incoming None now v
        | Some c \<Rightarrow>
            if compareMembershipUpdates (mu_incarnation incoming) (mu_state incoming) (mu_incarnation c) (mu_state c) \<le> 0
            then Inr (mv_confirmationOrIgnored incoming c v)
            else mv_applied incoming (Some c) now v)"

definition mv_applyLocal :: "MembershipUpdate \<Rightarrow> rat \<Rightarrow> MembershipView \<Rightarrow> MembershipFault + ApplyResult \<times> MembershipView" where
  "mv_applyLocal u now v =
     (case js_get (mv_records v) (mu_member u) of
        None \<Rightarrow> mv_applied u None now v
      | Some c \<Rightarrow>
          if compareMembershipUpdates (mu_incarnation u) (mu_state u) (mu_incarnation c) (mu_state c) \<le> 0
          then Inr (mv_confirmationOrIgnored u c v)
          else mv_applied u (Some c) now v)"

definition mv_reapOperation :: "jsstr \<Rightarrow> MembershipView \<Rightarrow> ReapOperation option" where
  "mv_reapOperation name v =
     (case js_get (mv_records v) name of
        None \<Rightarrow> None
      | Some r \<Rightarrow>
          if \<not> isTerminalState (mu_state r) then None
          else Some \<lparr>ro_member = mu_member r, ro_state = mu_state r, ro_incarnation = mu_incarnation r,
                     ro_dueAt = mu_appliedAt r + TERMINAL_RETENTION_MS\<rparr>)"

definition mv_dueReaps :: "rat \<Rightarrow> MembershipView \<Rightarrow> ReapOperation list" where
  "mv_dueReaps now v =
     List.map_filter
       (\<lambda>r. if \<not> isTerminalState (mu_state r) then None
            else case mv_reapOperation (mu_member r) v of
                   None \<Rightarrow> None
                 | Some operation \<Rightarrow> if now \<ge> ro_dueAt operation then Some operation else None)
       (js_values (mv_records v))"

definition mv_reap :: "ReapOperation \<Rightarrow> MembershipView \<Rightarrow> bool \<times> MembershipView" where
  "mv_reap operation v =
     (case js_get (mv_records v) (ro_member operation) of
        None \<Rightarrow> (False, v)
      | Some current \<Rightarrow>
          if mu_state current \<noteq> ro_state operation \<or> mu_incarnation current \<noteq> ro_incarnation operation
             \<or> mu_appliedAt current + TERMINAL_RETENTION_MS \<noteq> ro_dueAt operation
          then (False, v)
          else (True, v\<lparr>mv_records := js_delete (ro_member operation) (mv_records v)\<rparr>))"

section \<open>Sequences of operations\<close>

text \<open>
  An operation that changes the table.  A fault leaves the table as it was, since every
  check comes before the first assignment.
\<close>

datatype ViewStep =
    RemoteTruth MembershipUpdate rat int
  | LocalTruth MembershipUpdate rat
  | Reaping ReapOperation

fun emitted :: "ApplyResult \<Rightarrow> MembershipEvent option" where
  "emitted (Applied _ event) = event"
| "emitted (Refuted _ _ event) = event"
| "emitted _ = None"

fun mv_step :: "ViewStep \<Rightarrow> MembershipView \<Rightarrow> MembershipEvent list \<times> MembershipView" where
  "mv_step (RemoteTruth u now changed) v =
     (case mv_apply u now changed v of Inl _ \<Rightarrow> ([], v) | Inr (res, v) \<Rightarrow> (case emitted res of None \<Rightarrow> [] | Some e \<Rightarrow> [e], v))"
| "mv_step (LocalTruth u now) v =
     (case mv_applyLocal u now v of Inl _ \<Rightarrow> ([], v) | Inr (res, v) \<Rightarrow> (case emitted res of None \<Rightarrow> [] | Some e \<Rightarrow> [e], v))"
| "mv_step (Reaping operation) v = ([], snd (mv_reap operation v))"

fun mv_run :: "ViewStep list \<Rightarrow> MembershipView \<Rightarrow> MembershipEvent list \<times> MembershipView" where
  "mv_run [] v = ([], v)"
| "mv_run (s # ss) v = (let (es, v) = mv_step s v; (fs, v) = mv_run ss v in (es @ fs, v))"

section \<open>Replacement\<close>

abbreviation prec :: "('a) MembershipUpdate_scheme \<Rightarrow> int \<times> MemberState" where
  "prec u \<equiv> (mu_incarnation u, mu_state u)"

lemma compare_pos: "0 < compareMembershipUpdates i s j t \<longleftrightarrow> (j, t) < (i, s)"
  by (auto simp: compareMembershipUpdates_def)

definition record_ok :: "rat option \<Rightarrow> jsstr \<Rightarrow> StoredRecord \<Rightarrow> bool" where
  "record_ok lastAt k r \<longleftrightarrow> mu_member r = k \<and> (\<exists>t. lastAt = Some t \<and> mu_appliedAt r \<le> t) \<and> distinct (mu_confirmations r)
     \<and> (if mu_state r = STATE_SUSPECT then mu_confirmations r \<noteq> [] \<and> hd (mu_confirmations r) = mu_reporter r
        else mu_confirmations r = [])"

definition eligible :: "(jsstr, StoredRecord) jsmap \<Rightarrow> int" where
  "eligible m = int (length (filter (\<lambda>r. isProbeEligibleState (mu_state r)) (js_values m)))"

definition mv_inv :: "MembershipView \<Rightarrow> bool" where
  "mv_inv v \<longleftrightarrow> js_ok (mv_records v) \<and> length (mv_records v) \<le> MAX_MEMBERS
     \<and> mv_eligibleCount v = eligible (mv_records v)
     \<and> (\<forall>k r. js_get (mv_records v) k = Some r \<longrightarrow> record_ok (mv_lastAppliedAt v) k r)"

lemma count_set:
  "eligible (js_set k r m) = eligible m
     - (case js_get m k of None \<Rightarrow> 0 | Some p \<Rightarrow> if isProbeEligibleState (mu_state p) then 1 else 0)
     + (if isProbeEligibleState (mu_state r) then 1 else 0)"
  by (induction m) (auto simp: eligible_def split: option.splits)

lemma count_delete:
  "js_ok m \<Longrightarrow> eligible (js_delete k m) = eligible m
     - (case js_get m k of None \<Rightarrow> 0 | Some p \<Rightarrow> if isProbeEligibleState (mu_state p) then 1 else 0)"
  by (induction m) (auto simp: eligible_def js_ok_Cons js_delete_absent split: option.splits if_splits)

lemma length_js_set: "length (js_set k r m) = (if k \<in> set (js_keys m) then length m else Suc (length m))"
  using js_keys_set [of k r m] by (metis length_append_singleton length_map)

lemma record_ok_stored: "record_ok (Some t) (mu_member u) (stored_of u t)"
  by (simp add: record_ok_def stored_of_def)

lemma record_ok_later: "record_ok lastAt k r \<Longrightarrow> record_ok (Some (max_time now lastAt)) k r"
  by (auto simp: record_ok_def max_time_def split: if_splits)

lemma replace_result:
  assumes "mv_inv v" and "js_get (mv_records v) (mu_member u) = previous" and "mv_replace u previous now v = Inr ((rec, ev), v')"
  shows "mv_inv v'" and "mv_selfName v' = mv_selfName v"
    and "mv_records v' = js_set (mu_member u) (stored_of u (max_time now (mv_lastAppliedAt v))) (mv_records v)"
    and "map_option ev_type ev = eventType previous (stored_of u (max_time now (mv_lastAppliedAt v)))"
    and "ev = Some e \<Longrightarrow> mu_member (ev_member e) = mu_member u"
proof -
  let ?t = "max_time now (mv_lastAppliedAt v)" and ?P = "\<lambda>r. isProbeEligibleState (mu_state r)"
  have v': "v' = v\<lparr>mv_eligibleCount := mv_eligibleCount v'\<rparr>\<lparr>mv_lastAppliedAt := Some ?t,
      mv_records := js_set (mu_member u) (stored_of u ?t) (mv_records v)\<rparr>"
    and count: "mv_eligibleCount v' = mv_eligibleCount v
      - (case previous of None \<Rightarrow> 0 | Some p \<Rightarrow> if ?P p then 1 else 0) + (if isProbeEligibleState (mu_state u) then 1 else 0)"
    and cap: "previous = None \<Longrightarrow> length (mv_records v) < MAX_MEMBERS"
    and "ev = map_option (\<lambda>t. \<lparr>ev_type = t, ev_member = snapshot (stored_of u ?t), ev_previous = map_option snapshot previous\<rparr>)
        (eventType previous (stored_of u ?t))"
    using assms(3) by (auto simp: mv_replace_def Let_def split: if_splits option.splits)
  then show "map_option ev_type ev = eventType previous (stored_of u ?t)" and "ev = Some e \<Longrightarrow> mu_member (ev_member e) = mu_member u"
    by (auto simp: option.map_comp comp_def option.map_ident snapshot_def stored_of_def MemberRecord.truncate_def)
  show self: "mv_selfName v' = mv_selfName v" and recs: "mv_records v' = js_set (mu_member u) (stored_of u ?t) (mv_records v)"
    by (subst v', simp)+
  have last: "mv_lastAppliedAt v' = Some ?t" by (subst v') simp
  have keys: "mu_member u \<in> set (js_keys (mv_records v)) \<longleftrightarrow> previous \<noteq> None"
    using assms(2) by (metis map_of_eq_None_iff list.set_map)
  have "length (mv_records v') \<le> MAX_MEMBERS"
    using assms(1) cap keys unfolding recs length_js_set by (auto simp: mv_inv_def)
  moreover have "mv_eligibleCount v' = eligible (mv_records v')"
    unfolding recs count_set assms(2) count using assms(1) by (simp add: mv_inv_def stored_of_def)
  moreover have "record_ok (mv_lastAppliedAt v') k r" if "js_get (mv_records v') k = Some r" for k r
    using that assms(1) record_ok_stored record_ok_later unfolding recs last by (auto simp: mv_inv_def split: if_splits)
  ultimately show "mv_inv v'" using assms(1) unfolding mv_inv_def recs by simp
qed

lemma confirm_result:
  assumes "mv_inv v" and "js_get (mv_records v) (mu_member u) = Some c" and "mv_confirmationOrIgnored u c v = (res, v')"
  shows "mv_inv v'" and "mv_selfName v' = mv_selfName v" and "emitted res = None"
    and "\<exists>cs. mv_records v' = mv_records v \<or> mv_records v' = js_set (mu_member u) (c\<lparr>mu_confirmations := cs\<rparr>) (mv_records v)"
proof -
  let ?c = "c\<lparr>mu_confirmations := mu_confirmations c @ [mu_reporter u]\<rparr>"
  have alt: "v' = v \<and> res = Ignored \<or> v' = v\<lparr>mv_records := js_set (mu_member u) ?c (mv_records v)\<rparr> \<and> emitted res = None
      \<and> mu_state c = STATE_SUSPECT \<and> mu_reporter u \<notin> set (mu_confirmations c)"
    using assms(3) by (auto simp: mv_confirmationOrIgnored_def Let_def split: if_splits)
  have ok: "record_ok (mv_lastAppliedAt v) (mu_member u) c" using assms(1,2) unfolding mv_inv_def by blast
  have key: "mu_member u \<in> set (js_keys (mv_records v))" using assms(2) by (metis map_of_eq_None_iff list.set_map option.distinct(1))
  have "mv_inv (v\<lparr>mv_records := js_set (mu_member u) ?c (mv_records v)\<rparr>)"
    if "mu_state c = STATE_SUSPECT" "mu_reporter u \<notin> set (mu_confirmations c)"
  proof -
    have "record_ok (mv_lastAppliedAt v) (mu_member u) ?c" using ok that by (auto simp: record_ok_def)
    then show ?thesis using assms(1,2) key by (auto simp: mv_inv_def length_js_set count_set)
  qed
  then show "mv_inv v'" using alt assms(1) by auto
  show "mv_selfName v' = mv_selfName v" and "emitted res = None" using alt by auto
  show "\<exists>cs. mv_records v' = mv_records v \<or> mv_records v' = js_set (mu_member u) (c\<lparr>mu_confirmations := cs\<rparr>) (mv_records v)"
    using alt by auto
qed

lemma reap_result:
  assumes "mv_inv v" and "isTerminalState (ro_state operation)"
  shows "mv_inv (snd (mv_reap operation v))" and "mv_selfName (snd (mv_reap operation v)) = mv_selfName v"
    and "k \<noteq> ro_member operation \<Longrightarrow> js_get (mv_records (snd (mv_reap operation v))) k = js_get (mv_records v) k"
proof -
  have "mv_inv (v\<lparr>mv_records := js_delete (ro_member operation) (mv_records v)\<rparr>)"
    if "js_get (mv_records v) (ro_member operation) = Some c" "mu_state c = ro_state operation" for c
  proof -
    have "length (js_delete (ro_member operation) (mv_records v)) \<le> MAX_MEMBERS"
      using assms(1) unfolding mv_inv_def js_delete_filter by (auto intro: order.trans [OF length_filter_le])
    then show ?thesis using assms that unfolding mv_inv_def
      by (auto simp: count_delete isTerminalState_def isProbeEligibleState_def)
  qed
  then show "mv_inv (snd (mv_reap operation v))" using assms(1) by (auto simp: mv_reap_def split: option.splits)
  show "mv_selfName (snd (mv_reap operation v)) = mv_selfName v"
    and "k \<noteq> ro_member operation \<Longrightarrow> js_get (mv_records (snd (mv_reap operation v))) k = js_get (mv_records v) k"
    by (auto simp: mv_reap_def split: option.splits)
qed

text \<open>The three ways an update goes: a fault, a replacement, or a confirmation that replaces nothing.\<close>

lemma applied_result:
  assumes "mv_inv v" and "mv_applied u (js_get (mv_records v) (mu_member u)) now v = Inr (res, v')"
  shows "mv_inv v'" and "mv_selfName v' = mv_selfName v"
    and "mv_records v' = js_set (mu_member u) (stored_of u (max_time now (mv_lastAppliedAt v))) (mv_records v)"
    and "map_option ev_type (emitted res)
      = eventType (js_get (mv_records v) (mu_member u)) (stored_of u (max_time now (mv_lastAppliedAt v)))"
    and "emitted res = Some e \<Longrightarrow> mu_member (ev_member e) = mu_member u"
proof -
  obtain rec ev where run: "mv_replace u (js_get (mv_records v) (mu_member u)) now v = Inr ((rec, ev), v')" "res = Applied rec ev"
    using assms(2) by (auto simp: mv_applied_def split: sum.splits)
  from replace_result [OF assms(1) refl run(1)] run(2)
  show "mv_inv v'" and "mv_selfName v' = mv_selfName v"
    and "mv_records v' = js_set (mu_member u) (stored_of u (max_time now (mv_lastAppliedAt v))) (mv_records v)"
    and "map_option ev_type (emitted res)
      = eventType (js_get (mv_records v) (mu_member u)) (stored_of u (max_time now (mv_lastAppliedAt v)))"
    and "emitted res = Some e \<Longrightarrow> mu_member (ev_member e) = mu_member u" by auto
qed

definition defense :: "MembershipUpdate \<Rightarrow> StoredRecord option \<Rightarrow> int \<Rightarrow> jsstr \<Rightarrow> MembershipUpdate" where
  "defense accusation current changed self =
     \<lparr>mu_state = STATE_ALIVE, mu_selfOriginated = True,
      mu_incarnation = max (mu_incarnation accusation) (case current of None \<Rightarrow> 0 | Some r \<Rightarrow> mu_incarnation r) + 1,
      mu_stateChangeTime = changed, mu_member = self, mu_reporter = [],
      mu_metadata = (case current of None \<Rightarrow> [] | Some r \<Rightarrow> if mu_state r = STATE_ALIVE then mu_metadata r else [])\<rparr>"

lemma refute_result:
  assumes "mv_inv v" and "mv_refute u (js_get (mv_records v) (mv_selfName v)) now changed v = Inr (res, v')"
  defines "d \<equiv> defense u (js_get (mv_records v) (mv_selfName v)) changed (mv_selfName v)"
  shows "mv_inv v'" and "mv_selfName v' = mv_selfName v"
    and "mv_records v' = js_set (mv_selfName v) (stored_of d (max_time now (mv_lastAppliedAt v))) (mv_records v)"
    and "map_option ev_type (emitted res)
      = eventType (js_get (mv_records v) (mv_selfName v)) (stored_of d (max_time now (mv_lastAppliedAt v)))"
    and "emitted res = Some e \<Longrightarrow> mu_member (ev_member e) = mv_selfName v"
proof -
  have d: "mu_member d = mv_selfName v" by (simp add: d_def defense_def)
  obtain rec ev where run: "mv_replace d (js_get (mv_records v) (mu_member d)) now v = Inr ((rec, ev), v')"
      "emitted res = ev"
    using assms(2) d by (auto simp: mv_refute_def Let_def d_def defense_def split: sum.splits if_splits)
  from replace_result [OF assms(1) refl run(1)] run(2)
  show "mv_inv v'" and "mv_selfName v' = mv_selfName v"
    and "mv_records v' = js_set (mv_selfName v) (stored_of d (max_time now (mv_lastAppliedAt v))) (mv_records v)"
    and "map_option ev_type (emitted res)
      = eventType (js_get (mv_records v) (mv_selfName v)) (stored_of d (max_time now (mv_lastAppliedAt v)))"
    and "emitted res = Some e \<Longrightarrow> mu_member (ev_member e) = mv_selfName v" unfolding d by auto
qed

lemma compare_pos_not:
  "compareMembershipUpdates (mu_incarnation u) (mu_state u) (mu_incarnation c) (mu_state c) \<le> 0 \<longleftrightarrow> \<not> prec c < prec u"
  using compare_pos [of "mu_incarnation u" "mu_state u" "mu_incarnation c" "mu_state c"] by linarith

lemma apply_cases:
  assumes "mv_apply u now changed v = Inr (res, v')"
  obtains (Refuting) "mu_member u = mv_selfName v" and "mv_wouldRefute u v"
      and "mv_refute u (js_get (mv_records v) (mv_selfName v)) now changed v = Inr (res, v')"
    | (Unknown) "js_get (mv_records v) (mu_member u) = None" and "isTerminalState (mu_state u)" and "res = Ignored" and "v' = v"
    | (Older) c where "js_get (mv_records v) (mu_member u) = Some c" and "prec u \<le> prec c" and "\<not> mv_wouldRefute u v"
      and "mv_confirmationOrIgnored u c v = (res, v')"
    | (Newer) "mv_applied u (js_get (mv_records v) (mu_member u)) now v = Inr (res, v')" and "\<not> mv_wouldRefute u v"
      and "\<forall>c. js_get (mv_records v) (mu_member u) = Some c \<longrightarrow> prec c < prec u"
      and "js_get (mv_records v) (mu_member u) = None \<longrightarrow> \<not> isTerminalState (mu_state u)"
proof (cases "mv_wouldRefute u v")
  case True
  then have "mu_member u = mv_selfName v" by (simp add: mv_wouldRefute_def split: if_splits)
  then show thesis using True assms that(1) by (simp add: mv_apply_def)
next
  case False
  show thesis
  proof (cases "js_get (mv_records v) (mu_member u)")
    case None
    show thesis
    proof (cases "isTerminalState (mu_state u)")
      case True
      then have "Ignored = res \<and> v = v'" using False assms None by (simp add: mv_apply_def)
      then show thesis by (intro that(2)) (use None True in simp_all)
    next
      case alive: False
      have "mv_applied u None now v = Inr (res, v')" using False alive assms None by (simp add: mv_apply_def)
      then show thesis by (intro that(4)) (use None False alive in simp_all)
    qed
  next
    case (Some c)
    show thesis
    proof (cases "prec c < prec u")
      case True
      have "mv_applied u (Some c) now v = Inr (res, v')"
        using False assms Some True compare_pos_not [of u c] by (auto simp: mv_apply_def split: if_splits)
      then show thesis by (intro that(4)) (use Some False True in simp_all)
    next
      case older: False
      have "mv_confirmationOrIgnored u c v = (res, v')"
        using False assms Some older compare_pos_not [of u c] by (auto simp: mv_apply_def split: if_splits)
      then show thesis by (intro that(3) [OF Some]) (use False older in \<open>simp_all only: not_less not_False_eq_True\<close>)
    qed
  qed
qed

lemma local_cases:
  assumes "mv_applyLocal u now v = Inr (res, v')"
  obtains (Older) c where "js_get (mv_records v) (mu_member u) = Some c" and "prec u \<le> prec c"
      and "mv_confirmationOrIgnored u c v = (res, v')"
    | (Newer) "mv_applied u (js_get (mv_records v) (mu_member u)) now v = Inr (res, v')"
      and "\<forall>c. js_get (mv_records v) (mu_member u) = Some c \<longrightarrow> prec c < prec u"
proof (cases "js_get (mv_records v) (mu_member u)")
  case None
  then show thesis using assms by (intro that(2)) (simp_all add: mv_applyLocal_def)
next
  case (Some c)
  show thesis
  proof (cases "prec c < prec u")
    case True
    have "mv_applied u (Some c) now v = Inr (res, v')"
      using assms Some True compare_pos_not [of u c] by (auto simp: mv_applyLocal_def split: if_splits)
    then show thesis by (intro that(2)) (use Some True in simp_all)
  next
    case False
    have "mv_confirmationOrIgnored u c v = (res, v')"
      using assms Some False compare_pos_not [of u c] by (auto simp: mv_applyLocal_def split: if_splits)
    then show thesis by (intro that(1) [OF Some]) (use False in \<open>simp_all only: not_less\<close>)
  qed
qed

lemma apply_inv:
  assumes "mv_inv v" and "mv_apply u now changed v = Inr (res, v')"
  shows "mv_inv v' \<and> mv_selfName v' = mv_selfName v"
  using assms(2)
proof (cases rule: apply_cases)
  case Refuting
  show ?thesis using refute_result(1,2) [OF assms(1) Refuting(3)] by simp
next
  case Unknown
  then show ?thesis using assms(1) by simp
next
  case (Older c)
  show ?thesis using confirm_result(1,2) [OF assms(1) Older(1,4)] by simp
next
  case Newer
  show ?thesis using applied_result(1,2) [OF assms(1) Newer(1)] by simp
qed

lemma applyLocal_inv:
  assumes "mv_inv v" and "mv_applyLocal u now v = Inr (res, v')"
  shows "mv_inv v' \<and> mv_selfName v' = mv_selfName v"
  using assms(2)
proof (cases rule: local_cases)
  case (Older c)
  show ?thesis using confirm_result(1,2) [OF assms(1) Older(1,3)] by simp
next
  case Newer
  show ?thesis using applied_result(1,2) [OF assms(1) Newer(1)] by simp
qed

fun legal_step :: "ViewStep \<Rightarrow> bool" where
  "legal_step (Reaping operation) \<longleftrightarrow> isTerminalState (ro_state operation)"
| "legal_step _ \<longleftrightarrow> True"

lemma mv_step_inv:
  assumes "mv_inv v" and "legal_step s"
  shows "mv_inv (snd (mv_step s v)) \<and> mv_selfName (snd (mv_step s v)) = mv_selfName v"
proof (cases s)
  case (RemoteTruth u now changed)
  show ?thesis
  proof (cases "mv_apply u now changed v")
    case (Inr p)
    then show ?thesis using RemoteTruth apply_inv [OF assms(1), of u now changed "fst p" "snd p"] by (simp add: case_prod_beta)
  qed (use RemoteTruth assms in simp)
next
  case (LocalTruth u now)
  show ?thesis
  proof (cases "mv_applyLocal u now v")
    case (Inr p)
    then show ?thesis using LocalTruth applyLocal_inv [OF assms(1), of u now "fst p" "snd p"] by (simp add: case_prod_beta)
  qed (use LocalTruth assms in simp)
next
  case (Reaping operation)
  then show ?thesis using assms reap_result(1,2) [of v operation] by simp
qed

lemma snd_mv_run_Cons: "snd (mv_run (s # ss) v) = snd (mv_run ss (snd (mv_step s v)))"
  by (simp add: case_prod_beta Let_def)

lemma mv_run_inv: "mv_inv v \<Longrightarrow> \<forall>s \<in> set ss. legal_step s \<Longrightarrow> mv_inv (snd (mv_run ss v)) \<and> mv_selfName (snd (mv_run ss v)) = mv_selfName v"
proof (induction ss arbitrary: v)
  case (Cons s ss)
  then show ?case using mv_step_inv [of v s] unfolding snd_mv_run_Cons by simp
qed simp

lemma mv_new_inv: "mv_inv (mv_new self)"
  by (simp add: mv_inv_def mv_new_def eligible_def MAX_MEMBERS_def)

section \<open>Precedence\<close>

fun truth_of :: "ViewStep \<Rightarrow> MembershipUpdate option" where
  "truth_of (RemoteTruth u _ _) = Some u"
| "truth_of (LocalTruth u _) = Some u"
| "truth_of (Reaping _) = None"

fun reaps :: "jsstr \<Rightarrow> ViewStep \<Rightarrow> bool" where
  "reaps m (Reaping operation) \<longleftrightarrow> ro_member operation = m"
| "reaps m _ \<longleftrightarrow> False"

lemma prec_stored [simp]: "prec (stored_of u t) = prec u" "mu_member (stored_of u t) = mu_member u"
  "mu_state (stored_of u t) = mu_state u" "mu_incarnation (stored_of u t) = mu_incarnation u" "mu_metadata (stored_of u t) = mu_metadata u"
  by (simp_all add: stored_of_def)

lemma retained_no_fault:
  assumes "js_get (mv_records v) (mu_member u) = Some r"
  shows "\<exists>res v'. mv_applied u (Some r) now v = Inr (res, v')"
  by (simp add: mv_applied_def mv_replace_def Let_def)

lemma older_keeps:
  assumes "mv_inv v" and "js_get (mv_records v) (mu_member u) = Some c" and "mv_confirmationOrIgnored u c v = (res, v')"
    and "js_get (mv_records v) m = Some r"
  shows "\<exists>r'. js_get (mv_records v') m = Some r' \<and> prec r' = prec r"
  using confirm_result(4) [OF assms(1-3)] assms(2,4) by auto

lemma step_prec:
  assumes inv: "mv_inv v" and r: "js_get (mv_records v) m = Some r" and m: "m \<noteq> mv_selfName v" and s: "legal_step s" "\<not> reaps m s"
  shows "\<exists>r'. js_get (mv_records (snd (mv_step s v))) m = Some r' \<and>
    prec r' = (case truth_of s of None \<Rightarrow> prec r | Some u \<Rightarrow> if mu_member u = m then max (prec r) (prec u) else prec r)"
proof (cases s)
  case (RemoteTruth u now changed)
  show ?thesis
  proof (cases "mv_apply u now changed v")
    case (Inl e)
    have "mu_member u \<noteq> m"
    proof
      assume u: "mu_member u = m"
      then have "\<not> mv_wouldRefute u v" using m by (simp add: mv_wouldRefute_def)
      then show False using Inl r u retained_no_fault [of v u r now] by (auto simp: mv_apply_def split: if_splits)
    qed
    then show ?thesis using RemoteTruth Inl r by simp
  next
    case (Inr p)
    obtain res v' where p: "p = (res, v')" by fastforce
    have run: "mv_apply u now changed v = Inr (res, v')" using Inr p by simp
    then have "\<exists>r'. js_get (mv_records v') m = Some r' \<and> prec r' = (if mu_member u = m then max (prec r) (prec u) else prec r)"
    proof (cases rule: apply_cases)
      case Refuting
      then show ?thesis using refute_result(3) [OF inv Refuting(3)] r m by auto
    next
      case Unknown
      then show ?thesis using r by auto
    next
      case (Older c)
      then show ?thesis using older_keeps [OF inv Older(1,4) r] r by (auto simp: max_absorb1)
    next
      case Newer
      then show ?thesis using applied_result(3) [OF inv Newer(1)] r by (auto simp: max_absorb2)
    qed
    then show ?thesis using RemoteTruth run by simp
  qed
next
  case (LocalTruth u now)
  show ?thesis
  proof (cases "mv_applyLocal u now v")
    case (Inl e)
    then have "mu_member u \<noteq> m" using r retained_no_fault [of v u r now] by (auto simp: mv_applyLocal_def split: if_splits)
    then show ?thesis using LocalTruth Inl r by simp
  next
    case (Inr p)
    obtain res v' where p: "p = (res, v')" by fastforce
    have run: "mv_applyLocal u now v = Inr (res, v')" using Inr p by simp
    then have "\<exists>r'. js_get (mv_records v') m = Some r' \<and> prec r' = (if mu_member u = m then max (prec r) (prec u) else prec r)"
    proof (cases rule: local_cases)
      case (Older c)
      then show ?thesis using older_keeps [OF inv Older(1,3) r] r by (auto simp: max_absorb1)
    next
      case Newer
      then show ?thesis using applied_result(3) [OF inv Newer(1)] r by (auto simp: max_absorb2)
    qed
    then show ?thesis using LocalTruth run by simp
  qed
next
  case (Reaping operation)
  then show ?thesis using reap_result(3) [OF inv, of operation m] r s by auto
qed

definition truths_about :: "jsstr \<Rightarrow> ViewStep list \<Rightarrow> MembershipUpdate set" where
  "truths_about m ss = {u. \<exists>s \<in> set ss. truth_of s = Some u \<and> mu_member u = m}"

lemma truths_about_Cons:
  "truths_about m (s # ss) = (case truth_of s of None \<Rightarrow> {} | Some u \<Rightarrow> if mu_member u = m then {u} else {}) \<union> truths_about m ss"
  by (auto simp: truths_about_def split: option.splits)

lemma finite_truths: "finite (truths_about m ss)"
proof -
  have "truths_about m ss \<subseteq> (\<lambda>s. the (truth_of s)) ` set ss" by (force simp: truths_about_def)
  then show ?thesis by (rule finite_subset) simp
qed

lemma run_prec:
  "mv_inv v \<Longrightarrow> js_get (mv_records v) m = Some r \<Longrightarrow> m \<noteq> mv_selfName v \<Longrightarrow> \<forall>s \<in> set ss. legal_step s \<and> \<not> reaps m s \<Longrightarrow>
   \<exists>r'. js_get (mv_records (snd (mv_run ss v))) m = Some r' \<and> prec r' = Max (insert (prec r) (prec ` truths_about m ss))"
proof (induction ss arbitrary: v r)
  case Nil
  then show ?case by (simp add: truths_about_def)
next
  case (Cons s ss)
  let ?v = "snd (mv_step s v)"
  have here: "legal_step s" "\<not> reaps m s" using Cons.prems(4) by simp_all
  obtain r1 where r1: "js_get (mv_records ?v) m = Some r1"
    "prec r1 = (case truth_of s of None \<Rightarrow> prec r | Some u \<Rightarrow> if mu_member u = m then max (prec r) (prec u) else prec r)"
    using step_prec [OF Cons.prems(1-3) here] by blast
  have v: "mv_inv ?v" "m \<noteq> mv_selfName ?v" using mv_step_inv [OF Cons.prems(1) here(1)] Cons.prems(3) by simp_all
  have rest: "\<forall>s \<in> set ss. legal_step s \<and> \<not> reaps m s" using Cons.prems(4) by simp
  obtain r2 where r2: "js_get (mv_records (snd (mv_run ss ?v))) m = Some r2" "prec r2 = Max (insert (prec r1) (prec ` truths_about m ss))"
    using Cons.IH [OF v(1) r1(1) v(2) rest] by blast
  have fin: "finite (prec ` truths_about m ss)" using finite_truths by simp
  have "Max (insert (prec r1) (prec ` truths_about m ss)) = Max (insert (prec r) (prec ` truths_about m (s # ss)))"
  proof (cases "prec ` truths_about m ss = {}")
    case True
    then show ?thesis using r1(2) by (auto simp: truths_about_Cons split: option.splits)
  next
    case False
    then have "Max (insert x (prec ` truths_about m ss)) = max x (Max (prec ` truths_about m ss))" for x using fin by simp
    then show ?thesis using r1(2) fin False by (auto simp: truths_about_Cons max.assoc split: option.splits)
  qed
  then show ?case using r2 unfolding snd_mv_run_Cons by metis
qed

section \<open>The node's own record\<close>

lemma apply_self:
  assumes inv: "mv_inv v" and r: "js_get (mv_records v) (mv_selfName v) = Some r" "mu_state r = STATE_ALIVE"
    and run: "mv_apply u now changed v = Inr (res, v')"
  shows "\<exists>r'. js_get (mv_records v') (mv_selfName v) = Some r' \<and> mu_state r' = STATE_ALIVE \<and> mu_metadata r' = mu_metadata r
    \<and> mu_incarnation r \<le> mu_incarnation r' \<and> (mv_wouldRefute u v \<longrightarrow> mu_incarnation u < mu_incarnation r')"
  using run
proof (cases rule: apply_cases)
  case Refuting
  then show ?thesis using refute_result(3) [OF inv Refuting(3)] r by (simp add: defense_def)
next
  case Unknown
  then show ?thesis using r by (auto simp: mv_wouldRefute_def)
next
  case (Older c)
  then show ?thesis using confirm_result(4) [OF inv Older(1,4)] r by auto
next
  case Newer
  show ?thesis
  proof (cases "mu_member u = mv_selfName v")
    case True
    then have "prec r < prec u" using Newer(3) r by simp
    moreover have "\<not> mu_incarnation r \<le> mu_incarnation u \<or> mu_state u = STATE_ALIVE \<and> mu_incarnation u \<le> mu_incarnation r"
      using Newer(2) r True by (auto simp: mv_wouldRefute_def split: if_splits)
    ultimately have False using r(2) by (auto simp: less_MemberState_def)
    then show ?thesis ..
  next
    case False
    then show ?thesis using applied_result(3) [OF inv Newer(1)] r Newer(2) by auto
  qed
qed

lemma self_no_fault:
  assumes r: "js_get (mv_records v) (mv_selfName v) = Some r" and u: "mu_member u = mv_selfName v" "mu_state u \<noteq> STATE_ALIVE"
    "mu_incarnation u < MAX_INCARNATION" and w: "mv_wouldRefute u v"
  shows "\<exists>res v'. mv_apply u now changed v = Inr (res, v')"
proof -
  have "mu_incarnation r \<le> mu_incarnation u" using w r u by (auto simp: mv_wouldRefute_def split: if_splits)
  then show ?thesis using r u w by (simp add: mv_apply_def mv_refute_def mv_replace_def Let_def)
qed

lemma remote_step_self:
  assumes inv: "mv_inv v" and r: "js_get (mv_records v) (mv_selfName v) = Some r" "mu_state r = STATE_ALIVE"
  shows "\<exists>r'. js_get (mv_records (snd (mv_step (RemoteTruth u now changed) v))) (mv_selfName v) = Some r' \<and> mu_state r' = STATE_ALIVE
    \<and> mu_metadata r' = mu_metadata r \<and> mu_incarnation r \<le> mu_incarnation r'
    \<and> (mu_member u = mv_selfName v \<and> mu_state u \<noteq> STATE_ALIVE \<and> mu_incarnation u < MAX_INCARNATION
         \<longrightarrow> mu_incarnation u < mu_incarnation r')"
proof (cases "mv_apply u now changed v")
  case (Inl e)
  have "mu_incarnation u < mu_incarnation r"
    if u: "mu_member u = mv_selfName v" "mu_state u \<noteq> STATE_ALIVE" "mu_incarnation u < MAX_INCARNATION"
    using self_no_fault [OF r(1) u, of now changed] Inl u r(1) by (auto simp: mv_wouldRefute_def not_le [symmetric])
  then show ?thesis using Inl r by simp
next
  case (Inr p)
  have run: "mv_apply u now changed v = Inr (fst p, snd p)" using Inr by simp
  obtain r' where r': "js_get (mv_records (snd p)) (mv_selfName v) = Some r'" "mu_state r' = STATE_ALIVE" "mu_metadata r' = mu_metadata r"
    "mu_incarnation r \<le> mu_incarnation r'" "mv_wouldRefute u v \<longrightarrow> mu_incarnation u < mu_incarnation r'"
    using apply_self [OF inv r run] by blast
  have "mu_incarnation u < mu_incarnation r'" if "mu_member u = mv_selfName v" "mu_state u \<noteq> STATE_ALIVE"
  proof (cases "mv_wouldRefute u v")
    case False
    then show ?thesis using that r(1) r'(4) by (auto simp: mv_wouldRefute_def split: if_splits)
  qed (use r'(5) in simp)
  then show ?thesis using r'(1-4) Inr by (auto simp: case_prod_beta)
qed

fun remote :: "ViewStep \<Rightarrow> bool" where
  "remote (RemoteTruth _ _ _) \<longleftrightarrow> True"
| "remote _ \<longleftrightarrow> False"

lemma remote_legal: "remote s \<Longrightarrow> legal_step s"
  by (cases s) auto

lemma run_self:
  "mv_inv v \<Longrightarrow> js_get (mv_records v) (mv_selfName v) = Some r \<Longrightarrow> mu_state r = STATE_ALIVE \<Longrightarrow> \<forall>s \<in> set ss. remote s \<Longrightarrow>
   \<exists>r'. js_get (mv_records (snd (mv_run ss v))) (mv_selfName v) = Some r' \<and> mu_state r' = STATE_ALIVE \<and> mu_metadata r' = mu_metadata r
     \<and> mu_incarnation r \<le> mu_incarnation r'
     \<and> (\<forall>u \<in> truths_about (mv_selfName v) ss. mu_state u \<noteq> STATE_ALIVE \<and> mu_incarnation u < MAX_INCARNATION
          \<longrightarrow> mu_incarnation u < mu_incarnation r')"
proof (induction ss arbitrary: v r)
  case Nil
  then show ?case by (simp add: truths_about_def)
next
  case (Cons s ss)
  obtain u now changed where s: "s = RemoteTruth u now changed" using Cons.prems(4) by (cases s) auto
  let ?v = "snd (mv_step s v)"
  obtain r1 where r1: "js_get (mv_records ?v) (mv_selfName v) = Some r1" "mu_state r1 = STATE_ALIVE" "mu_metadata r1 = mu_metadata r"
    "mu_incarnation r \<le> mu_incarnation r1" "mu_member u = mv_selfName v \<and> mu_state u \<noteq> STATE_ALIVE \<and> mu_incarnation u < MAX_INCARNATION
         \<longrightarrow> mu_incarnation u < mu_incarnation r1"
    using remote_step_self [OF Cons.prems(1-3)] unfolding s by blast
  have v: "mv_inv ?v" "mv_selfName ?v = mv_selfName v" using mv_step_inv [OF Cons.prems(1)] Cons.prems(4) remote_legal by simp_all
  have rest: "\<forall>s \<in> set ss. remote s" using Cons.prems(4) by simp
  obtain r2 where r2: "js_get (mv_records (snd (mv_run ss ?v))) (mv_selfName v) = Some r2" "mu_state r2 = STATE_ALIVE"
    "mu_metadata r2 = mu_metadata r1" "mu_incarnation r1 \<le> mu_incarnation r2"
    "\<forall>u \<in> truths_about (mv_selfName v) ss. mu_state u \<noteq> STATE_ALIVE \<and> mu_incarnation u < MAX_INCARNATION
          \<longrightarrow> mu_incarnation u < mu_incarnation r2"
    using Cons.IH [OF v(1), of r1] r1(1,2) rest unfolding v(2) by blast
  show ?case unfolding snd_mv_run_Cons
    by (rule exI [of _ r2]) (use r1 r2 in \<open>auto simp: truths_about_Cons s split: if_splits\<close>)
qed

section \<open>Properties\<close>

text \<open>
  The membership table keeps its invariant through every sequence of remote truths,
  local truths and reaps: at most 1,024 members, each under its own name, application
  times that never pass the last one, a count of alive and suspect members that is exact,
  and for every suspect its accusers, distinct, the first one first.
\<close>

lemma table_invariant:
  assumes "\<forall>s \<in> set ss. legal_step s"
  shows "mv_inv (snd (mv_run ss (mv_new self)))"
  using mv_run_inv [OF mv_new_inv assms] by blast

definition truth :: "jsstr \<Rightarrow> MemberState \<Rightarrow> int \<Rightarrow> jsstr \<Rightarrow> bytes \<Rightarrow> MembershipUpdate" where
  "truth m s i reporter metadata =
     \<lparr>mu_state = s, mu_selfOriginated = (s = STATE_ALIVE \<or> s = STATE_LEFT), mu_incarnation = i, mu_stateChangeTime = 0,
      mu_member = m, mu_reporter = reporter, mu_metadata = metadata\<rparr>"


definition sample_view :: MembershipView where
  "sample_view = snd (mv_run [LocalTruth (truth (js ''a'') STATE_ALIVE 0 [] [1]) 0, RemoteTruth (truth (js ''b'') STATE_ALIVE 0 [] [2]) 1 0]
     (mv_new (js ''a'')))"

lemma sample_view: "mv_inv sample_view" "mv_selfName sample_view = js ''a''" "mv_selfName sample_view \<noteq> js ''b''"
  "js_get (mv_records sample_view) (js ''a'') = Some (stored_of (truth (js ''a'') STATE_ALIVE 0 [] [1]) 0)"
  "js_get (mv_records sample_view) (js ''b'') = Some (stored_of (truth (js ''b'') STATE_ALIVE 0 [] [2]) 1)"
proof -
  have "mv_inv sample_view \<and> mv_selfName sample_view = js ''a''"
    using mv_run_inv [OF mv_new_inv, of "[LocalTruth (truth (js ''a'') STATE_ALIVE 0 [] [1]) 0, RemoteTruth (truth (js ''b'') STATE_ALIVE 0 [] [2]) 1 0]" "js ''a''"]
    unfolding sample_view_def by (simp only: list.set ball_simps legal_step.simps simp_thms) (simp add: mv_new_def del: mv_run.simps)
  then show "mv_inv sample_view" "mv_selfName sample_view = js ''a''" "mv_selfName sample_view \<noteq> js ''b''" by (simp_all add: js_def)
  show "js_get (mv_records sample_view) (js ''a'') = Some (stored_of (truth (js ''a'') STATE_ALIVE 0 [] [1]) 0)"
    "js_get (mv_records sample_view) (js ''b'') = Some (stored_of (truth (js ''b'') STATE_ALIVE 0 [] [2]) 1)"
    by (simp_all add: sample_view_def mv_new_def mv_applyLocal_def mv_apply_def mv_wouldRefute_def mv_applied_def mv_replace_def
        isTerminalState_def MAX_MEMBERS_def max_time_def truth_def js_def Let_def)
qed


text \<open>
  C15. What others say never replaces what a node says of itself: after any sequence of
  remote truths the node's own record is still alive with its own metadata, and its
  incarnation is above that of every accusation, so the accusation is answered.
\<close>

theorem accusations_are_answered:
  assumes "mv_inv v" and "js_get (mv_records v) (mv_selfName v) = Some r" and "mu_state r = STATE_ALIVE" and "\<forall>s \<in> set ss. remote s"
  shows "\<exists>r'. js_get (mv_records (snd (mv_run ss v))) (mv_selfName v) = Some r' \<and> mu_state r' = STATE_ALIVE
     \<and> mu_metadata r' = mu_metadata r \<and> mu_incarnation r \<le> mu_incarnation r'
     \<and> (\<forall>u \<in> truths_about (mv_selfName v) ss. mu_state u \<noteq> STATE_ALIVE \<and> mu_incarnation u < MAX_INCARNATION
          \<longrightarrow> mu_incarnation u < mu_incarnation r')"
  by (rule run_self [OF assms])

theorem accusations_are_answered_witness:
  "\<exists>r'. js_get (mv_records (snd (mv_run [RemoteTruth (truth (js ''a'') STATE_DEAD 4 [] []) 5 0] sample_view))) (js ''a'') = Some r'
     \<and> mu_state r' = STATE_ALIVE \<and> mu_metadata r' = [1] \<and> 4 < mu_incarnation r'"
proof -
  let ?ss = "[RemoteTruth (truth (js ''a'') STATE_DEAD 4 [] []) 5 0]" and ?r = "stored_of (truth (js ''a'') STATE_ALIVE 0 [] [1]) 0"
  have r: "js_get (mv_records sample_view) (mv_selfName sample_view) = Some ?r" using sample_view(2,4) by simp
  have ok: "mu_state ?r = STATE_ALIVE" "\<forall>s \<in> set ?ss. remote s" "mu_metadata ?r = [1]" by (simp_all add: truth_def)
  obtain r' where r': "js_get (mv_records (snd (mv_run ?ss sample_view))) (mv_selfName sample_view) = Some r'" "mu_state r' = STATE_ALIVE"
    "mu_metadata r' = mu_metadata ?r" "\<forall>u \<in> truths_about (mv_selfName sample_view) ?ss. mu_state u \<noteq> STATE_ALIVE
       \<and> mu_incarnation u < MAX_INCARNATION \<longrightarrow> mu_incarnation u < mu_incarnation r'"
    using accusations_are_answered [OF sample_view(1) r ok(1,2)] by blast
  have "truth (js ''a'') STATE_DEAD 4 [] [] \<in> truths_about (mv_selfName sample_view) ?ss"
    unfolding truths_about_def sample_view(2) by (simp add: truth_def)
  then have "4 < mu_incarnation r'" using r'(4) by (fastforce simp: truth_def MAX_INCARNATION_def)
  then show ?thesis using r'(1-3) ok(3) unfolding sample_view(2) by metis
qed

text \<open>
  C37. A member that is first heard of as suspect, or comes back as suspect after its
  departure, is never announced: neither the suspect truth nor the alive truth that
  answers it raises an event, although the table then holds the member alive.
\<close>

theorem suspect_first_is_silent:
  assumes "mv_inv v" and "m \<noteq> mv_selfName v" and "length (mv_records v) < MAX_MEMBERS"
    and "\<forall>c. js_get (mv_records v) m = Some c \<longrightarrow> isTerminalState (mu_state c) \<and> mu_incarnation c < i" and "i < j"
  shows "\<exists>v'. mv_run [RemoteTruth (truth m STATE_SUSPECT i reporter []) s c, RemoteTruth (truth m STATE_ALIVE j [] metadata) t d] v = ([], v')
    \<and> mv_stateOf m v' = Some (STATE_ALIVE, j)"
proof -
  let ?u = "truth m STATE_SUSPECT i reporter []" and ?w = "truth m STATE_ALIVE j [] metadata"
  have no: "\<not> mv_wouldRefute ?u v" using assms(2) by (simp add: mv_wouldRefute_def truth_def)
  have "\<exists>res v1. mv_apply ?u s c v = Inr (res, v1) \<and> mv_applied ?u (js_get (mv_records v) m) s v = Inr (res, v1)"
    using no assms(3,4)
    by (cases "js_get (mv_records v) m")
      (auto simp: mv_apply_def mv_applied_def mv_replace_def truth_def isTerminalState_def compareMembershipUpdates_def Let_def)
  then obtain res v1 where one: "mv_apply ?u s c v = Inr (res, v1)" "mv_applied ?u (js_get (mv_records v) (mu_member ?u)) s v = Inr (res, v1)"
    by (auto simp: truth_def)
  have silent: "emitted res = None"
    using applied_result(4) [OF assms(1) one(2)] by (simp add: eventType_def truth_def isTerminalState_def)
  let ?r = "stored_of ?u (max_time s (mv_lastAppliedAt v))"
  have v1: "mv_inv v1" "mv_selfName v1 = mv_selfName v" "js_get (mv_records v1) m = Some ?r"
    using applied_result(1-3) [OF assms(1) one(2)] by (simp_all add: truth_def)
  have "\<exists>res v2. mv_apply ?w t d v1 = Inr (res, v2) \<and> mv_applied ?w (js_get (mv_records v1) m) t v1 = Inr (res, v2)"
    using v1(2,3) assms(2,5)
    by (auto simp: mv_apply_def mv_applied_def mv_replace_def mv_wouldRefute_def truth_def compareMembershipUpdates_def Let_def)
  then obtain res2 v2 where two: "mv_apply ?w t d v1 = Inr (res2, v2)" "mv_applied ?w (js_get (mv_records v1) (mu_member ?w)) t v1 = Inr (res2, v2)"
    by (auto simp: truth_def)
  have "emitted res2 = None" and "js_get (mv_records v2) m = Some (stored_of ?w (max_time t (mv_lastAppliedAt v1)))"
    using applied_result(3,4) [OF v1(1) two(2)] v1(3) by (simp_all add: eventType_def truth_def isTerminalState_def)
  then show ?thesis using one(1) two(1) silent by (simp add: mv_stateOf_def truth_def)
qed

theorem suspect_first_is_silent_witness:
  "\<exists>v'. mv_run [RemoteTruth (truth (js ''c'') STATE_SUSPECT 3 (js ''b'') []) 5 0, RemoteTruth (truth (js ''c'') STATE_ALIVE 4 [] [7]) 6 0] sample_view
      = ([], v') \<and> mv_stateOf (js ''c'') v' = Some (STATE_ALIVE, 4)"
proof -
  have recs: "js_get (mv_records sample_view) (js ''c'') = None" "length (mv_records sample_view) = 2"
    by (simp_all add: sample_view_def mv_new_def mv_applyLocal_def mv_apply_def mv_wouldRefute_def mv_applied_def mv_replace_def
        isTerminalState_def MAX_MEMBERS_def max_time_def truth_def js_def Let_def)
  show ?thesis by (rule suspect_first_is_silent [OF sample_view(1)]) (use recs sample_view(2) in \<open>simp_all add: js_def MAX_MEMBERS_def\<close>)
qed

end
