(* ===== verification/MembershipWire.thy ===== *)
theory MembershipWire
  imports MembershipView Wire
begin

text \<open>
  The membership wire format, \<open>src/membership/wire.ts\<close>: membership records, the five
  packet messages, the synchronization chunks, and the splitter of the length-prefixed
  stream.  A protocol error is \<^term>\<open>None\<close>, and so is a write outside a buffer; the encoders
  compute a size first and then fill a zeroed buffer of it, as the code does, and
  the theory shows that the two agree.

  It shows that packets and records come back as they were sent, that the splitter gives
  the same frames however the carrier cuts the stream, and that a whole table sent as
  canonical chunks through it is read back.
\<close>

section \<open>Constants\<close>

definition mw_PROTOCOL_VERSION :: nat where "mw_PROTOCOL_VERSION = 1"
definition MESSAGE_PING :: nat where "MESSAGE_PING = 0x01"
definition MESSAGE_PING_REQ :: nat where "MESSAGE_PING_REQ = 0x02"
definition MESSAGE_ACK :: nat where "MESSAGE_ACK = 0x03"
definition MESSAGE_NACK :: nat where "MESSAGE_NACK = 0x04"
definition MESSAGE_GOSSIP :: nat where "MESSAGE_GOSSIP = 0x05"
definition MESSAGE_SYNC_REQUEST :: nat where "MESSAGE_SYNC_REQUEST = 0x10"
definition MESSAGE_SYNC_RESPONSE :: nat where "MESSAGE_SYNC_RESPONSE = 0x11"
definition MESSAGE_HEADER_BYTES :: nat where "MESSAGE_HEADER_BYTES = 4"
definition UPDATE_HEADER_BYTES :: nat where "UPDATE_HEADER_BYTES = 20"
definition SYNC_HEADER_BYTES :: nat where "SYNC_HEADER_BYTES = 14"
definition MAX_PACKET_BYTES :: nat where "MAX_PACKET_BYTES = 1400"
definition MAX_SYNC_MESSAGE_BYTES :: nat where "MAX_SYNC_MESSAGE_BYTES = 65539"
definition MAX_SYNC_EXCHANGE_BYTES :: nat where "MAX_SYNC_EXCHANGE_BYTES = 1048576"
definition mw_MAX_NAME_BYTES :: nat where "mw_MAX_NAME_BYTES = 255"
definition UPDATE_LIST_MAX_RECORDS :: nat where "UPDATE_LIST_MAX_RECORDS = 255"
definition MAX_METADATA_BYTES :: nat where "MAX_METADATA_BYTES = 512"

datatype ConnectionRole = ROLE_PACKET | ROLE_STREAM

lemmas mw_types = MESSAGE_PING_def MESSAGE_PING_REQ_def MESSAGE_ACK_def MESSAGE_NACK_def MESSAGE_GOSSIP_def
  MESSAGE_SYNC_REQUEST_def MESSAGE_SYNC_RESPONSE_def

lemmas mw_sizes = MESSAGE_HEADER_BYTES_def UPDATE_HEADER_BYTES_def SYNC_HEADER_BYTES_def MAX_PACKET_BYTES_def
  MAX_SYNC_MESSAGE_BYTES_def MAX_SYNC_EXCHANGE_BYTES_def mw_MAX_NAME_BYTES_def UPDATE_LIST_MAX_RECORDS_def MAX_METADATA_BYTES_def
  MAX_MEMBERS_def

section \<open>Buffers\<close>

definition set_bytes :: "nat \<Rightarrow> bytes \<Rightarrow> bytes \<Rightarrow> bytes option" where
  "set_bytes offset xs buf =
     (if offset + length xs > length buf then None else Some (take offset buf @ xs @ drop (offset + length xs) buf))"

definition get_uint :: "nat \<Rightarrow> nat \<Rightarrow> bytes \<Rightarrow> nat" where
  "get_uint width offset buf = get_be (take width (drop offset buf))"

definition assertUint :: "int \<Rightarrow> int \<Rightarrow> unit option" where
  "assertUint value maximum = (if value < 0 \<or> value > maximum then None else Some ())"

definition mw_assertU64 :: "int \<Rightarrow> bool \<Rightarrow> unit option" where
  "mw_assertU64 value nonzero = (if value < 0 \<or> value > 0xffffffffffffffff \<or> (nonzero \<and> value = 0) then None else Some ())"

section \<open>Names and records\<close>

definition mw_encodeName :: "jsstr \<Rightarrow> bool \<Rightarrow> bytes option" where
  "mw_encodeName name allowEmpty =
     (if 0 \<in> set name then None
      else
        let bytes = encode name in
        if (\<not> allowEmpty \<and> length bytes = 0) \<or> length bytes > mw_MAX_NAME_BYTES then None
        else if \<not> isWellFormed name then None
        else Some bytes)"

definition mw_decodeName :: "bytes \<Rightarrow> nat \<Rightarrow> nat \<Rightarrow> bool \<Rightarrow> jsstr option" where
  "mw_decodeName bytes offset len allowEmpty =
     (if (\<not> allowEmpty \<and> len = 0) \<or> len > mw_MAX_NAME_BYTES then None
      else do {
        value \<leftarrow> text_decode (take len (drop offset bytes));
        if 0 \<in> set value then None else Some value
      })"

record PreparedUpdate =
  pu_update :: MembershipUpdate
  pu_member :: bytes
  pu_reporter :: bytes
  pu_length :: nat

definition prepareUpdate :: "MembershipUpdate \<Rightarrow> PreparedUpdate option" where
  "prepareUpdate update = do {
     _ \<leftarrow> assertUint (mu_incarnation update) 0xffffffff;
     _ \<leftarrow> mw_assertU64 (mu_stateChangeTime update) False;
     member \<leftarrow> mw_encodeName (mu_member update) False;
     reporter \<leftarrow> mw_encodeName (mu_reporter update) True;
     if length (mu_metadata update) > MAX_METADATA_BYTES then None
     else if (if mu_state update = STATE_SUSPECT then length reporter = 0 else length reporter \<noteq> 0) then None
     else if (if mu_state update = STATE_ALIVE then False else length (mu_metadata update) \<noteq> 0) then None
     else if mu_selfOriginated update \<noteq> (mu_state update = STATE_ALIVE \<or> mu_state update = STATE_LEFT) then None
     else Some \<lparr>pu_update = update, pu_member = member, pu_reporter = reporter,
                pu_length = UPDATE_HEADER_BYTES + length member + length reporter + length (mu_metadata update)\<rparr>
   }"

definition writePreparedUpdate :: "bytes \<Rightarrow> nat \<Rightarrow> PreparedUpdate \<Rightarrow> (bytes \<times> nat) option" where
  "writePreparedUpdate bytes offset prepared = do {
     let update = pu_update prepared;
     bytes \<leftarrow> set_bytes offset (put_be 2 (pu_length prepared - 2)) bytes;
     bytes \<leftarrow> set_bytes (offset + 2) (put_be 1 (state_number (mu_state update))) bytes;
     bytes \<leftarrow> set_bytes (offset + 3) (put_be 1 (if mu_selfOriginated update then 1 else 0)) bytes;
     bytes \<leftarrow> set_bytes (offset + 4) (put_be 4 (nat (mu_incarnation update))) bytes;
     bytes \<leftarrow> set_bytes (offset + 8) (put_be 8 (nat (mu_stateChangeTime update))) bytes;
     bytes \<leftarrow> set_bytes (offset + 16) (put_be 1 (length (pu_member prepared))) bytes;
     bytes \<leftarrow> set_bytes (offset + 17) (put_be 1 (length (pu_reporter prepared))) bytes;
     bytes \<leftarrow> set_bytes (offset + 18) (put_be 2 (length (mu_metadata update))) bytes;
     let position = offset + UPDATE_HEADER_BYTES;
     bytes \<leftarrow> set_bytes position (pu_member prepared) bytes;
     let position = position + length (pu_member prepared);
     bytes \<leftarrow> set_bytes position (pu_reporter prepared) bytes;
     let position = position + length (pu_reporter prepared);
     bytes \<leftarrow> set_bytes position (mu_metadata update) bytes;
     Some (bytes, offset + pu_length prepared)
   }"

definition membershipUpdateSize :: "MembershipUpdate \<Rightarrow> nat option" where
  "membershipUpdateSize update = map_option pu_length (prepareUpdate update)"

definition encodeMembershipUpdate :: "MembershipUpdate \<Rightarrow> bytes option" where
  "encodeMembershipUpdate update = do {
     prepared \<leftarrow> prepareUpdate update;
     map_option fst (writePreparedUpdate (replicate (pu_length prepared) 0) 0 prepared)
   }"

definition state_of :: "nat \<Rightarrow> MemberState" where
  "state_of n = (if n = 0 then STATE_ALIVE else if n = 1 then STATE_SUSPECT else if n = 2 then STATE_DEAD else STATE_LEFT)"

definition decodeMembershipUpdateAt :: "bytes \<Rightarrow> nat \<Rightarrow> nat \<Rightarrow> (MembershipUpdate \<times> nat) option" where
  "decodeMembershipUpdateAt bytes offset limit =
     (if limit - offset < UPDATE_HEADER_BYTES then None
      else
        let recordLength = get_uint 2 offset bytes; totalLength = recordLength + 2 in
        if totalLength < UPDATE_HEADER_BYTES \<or> totalLength > limit - offset then None
        else
          let end' = offset + totalLength;
              state = get_uint 1 (offset + 2) bytes;
              flags = get_uint 1 (offset + 3) bytes;
              memberLength = get_uint 1 (offset + 16) bytes;
              reporterLength = get_uint 1 (offset + 17) bytes;
              metadataLength = get_uint 2 (offset + 18) bytes
          in
          if state > state_number STATE_LEFT then None
          else if flags AND 0xfe \<noteq> 0 then None
          else if memberLength = 0 then None
          else if metadataLength > MAX_METADATA_BYTES then None
          else if totalLength \<noteq> UPDATE_HEADER_BYTES + memberLength + reporterLength + metadataLength then None
          else if (flags = 1) \<noteq> (state_of state = STATE_ALIVE \<or> state_of state = STATE_LEFT) then None
          else if (if state_of state = STATE_SUSPECT then reporterLength = 0 else reporterLength \<noteq> 0) then None
          else if state_of state \<noteq> STATE_ALIVE \<and> metadataLength \<noteq> 0 then None
          else do {
            let memberOffset = offset + UPDATE_HEADER_BYTES;
            let reporterOffset = memberOffset + memberLength;
            let metadataOffset = reporterOffset + reporterLength;
            member \<leftarrow> mw_decodeName bytes memberOffset memberLength False;
            reporter \<leftarrow> mw_decodeName bytes reporterOffset reporterLength True;
            Some (\<lparr>mu_state = state_of state, mu_selfOriginated = (flags = 1), mu_incarnation = int (get_uint 4 (offset + 4) bytes),
                   mu_stateChangeTime = int (get_uint 8 (offset + 8) bytes), mu_member = member, mu_reporter = reporter,
                   mu_metadata = (if metadataLength = 0 then [] else take metadataLength (drop metadataOffset bytes))\<rparr>, end')
          })"

definition decodeMembershipUpdate :: "bytes \<Rightarrow> MembershipUpdate option" where
  "decodeMembershipUpdate bytes = do {
     (update, end') \<leftarrow> decodeMembershipUpdateAt bytes 0 (length bytes);
     if end' \<noteq> length bytes then None else Some update
   }"

section \<open>Messages\<close>

datatype PacketMessage =
    PingMessage (pk_sequence: int) (pk_owner: jsstr) (pk_relay: jsstr) (pk_updates: "MembershipUpdate list")
  | PingReqMessage (pk_sequence: int) (pk_owner: jsstr) (pk_target: jsstr) (pk_updates: "MembershipUpdate list")
  | AckMessage (pk_sequence: int) (pk_owner: jsstr) (pk_target: jsstr) (pk_updates: "MembershipUpdate list")
  | NackMessage (pk_sequence: int) (pk_owner: jsstr) (pk_target: jsstr) (pk_helper: jsstr) (pk_updates: "MembershipUpdate list")
  | GossipMessage (pk_updates: "MembershipUpdate list")

datatype SyncMessageType = SyncRequest | SyncResponse

record SyncMessage =
  sy_type :: SyncMessageType
  sy_exchangeId :: int
  sy_chunkIndex :: int
  sy_chunkCount :: int
  sy_updates :: "MembershipUpdate list"

datatype MembershipMessage = Packet PacketMessage | SyncChunk SyncMessage

fun packet_type :: "PacketMessage \<Rightarrow> nat" where
  "packet_type (PingMessage _ _ _ _) = MESSAGE_PING"
| "packet_type (PingReqMessage _ _ _ _) = MESSAGE_PING_REQ"
| "packet_type (AckMessage _ _ _ _) = MESSAGE_ACK"
| "packet_type (NackMessage _ _ _ _ _) = MESSAGE_NACK"
| "packet_type (GossipMessage _) = MESSAGE_GOSSIP"

definition sync_type :: "SyncMessageType \<Rightarrow> nat" where
  "sync_type t = (case t of SyncRequest \<Rightarrow> MESSAGE_SYNC_REQUEST | SyncResponse \<Rightarrow> MESSAGE_SYNC_RESPONSE)"

record PreparedPacketNames =
  pn_names :: "bytes list"
  pn_baseLength :: nat

fun packet_names :: "PacketMessage \<Rightarrow> bytes list option" where
  "packet_names (PingMessage _ owner relay _) = do {
     o' \<leftarrow> mw_encodeName owner False; r \<leftarrow> mw_encodeName relay True; Some [o', r] }"
| "packet_names (PingReqMessage _ owner target _) = do {
     o' \<leftarrow> mw_encodeName owner False; t \<leftarrow> mw_encodeName target False; Some [o', t] }"
| "packet_names (AckMessage _ owner target _) = do {
     o' \<leftarrow> mw_encodeName owner False; t \<leftarrow> mw_encodeName target False; Some [o', t] }"
| "packet_names (NackMessage _ owner target helper _) = do {
     o' \<leftarrow> mw_encodeName owner False; t \<leftarrow> mw_encodeName target False; h \<leftarrow> mw_encodeName helper False; Some [o', t, h] }"
| "packet_names (GossipMessage _) = Some []"

definition preparePacketNames :: "PacketMessage \<Rightarrow> PreparedPacketNames option" where
  "preparePacketNames message = do {
     names \<leftarrow> packet_names message;
     Some \<lparr>pn_names = names,
           pn_baseLength = fold (\<lambda>name baseLength. baseLength + (1 + length name)) names (if is_GossipMessage message then 1 else 5)\<rparr>
   }"

definition packetOverheadLength :: "PacketMessage \<Rightarrow> nat option" where
  "packetOverheadLength message = map_option (\<lambda>base. MESSAGE_HEADER_BYTES + pn_baseLength base) (preparePacketNames message)"

fun prepareUpdates :: "MembershipUpdate list \<Rightarrow> nat \<Rightarrow> (PreparedUpdate list \<times> nat) option" where
  "prepareUpdates [] bodyLength = Some ([], bodyLength)"
| "prepareUpdates (update # updates) bodyLength = do {
     prepared \<leftarrow> prepareUpdate update;
     (rest, bodyLength) \<leftarrow> prepareUpdates updates (bodyLength + pu_length prepared);
     Some (prepared # rest, bodyLength)
   }"

record PreparedPacketBody = PreparedPacketNames +
  pb_updates :: "PreparedUpdate list"
  pb_bodyLength :: nat

definition preparePacketBody :: "PacketMessage \<Rightarrow> PreparedPacketBody option" where
  "preparePacketBody message = do {
     base \<leftarrow> preparePacketNames message;
     if length (pk_updates message) > UPDATE_LIST_MAX_RECORDS then None
     else do {
       (updates, bodyLength) \<leftarrow> prepareUpdates (pk_updates message) (pn_baseLength base);
       Some \<lparr>pn_names = pn_names base, pn_baseLength = pn_baseLength base, pb_updates = updates, pb_bodyLength = bodyLength\<rparr>
     }
   }"

fun write_names :: "bytes list \<Rightarrow> bytes \<Rightarrow> nat \<Rightarrow> (bytes \<times> nat) option" where
  "write_names [] bytes offset = Some (bytes, offset)"
| "write_names (name # names) bytes offset = do {
     bytes \<leftarrow> set_bytes offset (put_be 1 (length name)) bytes;
     bytes \<leftarrow> set_bytes (offset + 1) name bytes;
     write_names names bytes (offset + (1 + length name))
   }"

fun write_updates :: "PreparedUpdate list \<Rightarrow> bytes \<Rightarrow> nat \<Rightarrow> (bytes \<times> nat) option" where
  "write_updates [] bytes offset = Some (bytes, offset)"
| "write_updates (update # updates) bytes offset = do {
     (bytes, offset) \<leftarrow> writePreparedUpdate bytes offset update;
     write_updates updates bytes offset
   }"

definition writePacketBody :: "PacketMessage \<Rightarrow> PreparedPacketBody \<Rightarrow> bytes \<Rightarrow> bytes option" where
  "writePacketBody message prepared bytes = do {
     let offset = MESSAGE_HEADER_BYTES;
     (bytes, offset) \<leftarrow>
       (if is_GossipMessage message then Some (bytes, offset)
        else do {
          _ \<leftarrow> assertUint (pk_sequence message) 0xffffffff;
          bytes \<leftarrow> set_bytes offset (put_be 4 (nat (pk_sequence message))) bytes;
          Some (bytes, offset + 4)
        });
     (bytes, offset) \<leftarrow> write_names (pn_names prepared) bytes offset;
     bytes \<leftarrow> set_bytes offset (put_be 1 (length (pb_updates prepared))) bytes;
     map_option fst (write_updates (pb_updates prepared) bytes (offset + 1))
   }"

definition addDistinctMember :: "jsstr set \<Rightarrow> jsstr \<Rightarrow> jsstr set option" where
  "addDistinctMember names member = (if member \<in> names then None else Some (insert member names))"

fun prepareSyncUpdates :: "MembershipUpdate list \<Rightarrow> jsstr set \<Rightarrow> nat \<Rightarrow> (PreparedUpdate list \<times> nat) option" where
  "prepareSyncUpdates [] names bodyLength = Some ([], bodyLength)"
| "prepareSyncUpdates (update # updates) names bodyLength = do {
     names \<leftarrow> addDistinctMember names (mu_member update);
     prepared \<leftarrow> prepareUpdate update;
     (rest, bodyLength) \<leftarrow> prepareSyncUpdates updates names (bodyLength + pu_length prepared);
     Some (prepared # rest, bodyLength)
   }"

definition prepareSyncBody :: "SyncMessage \<Rightarrow> (PreparedUpdate list \<times> nat) option" where
  "prepareSyncBody message = do {
     _ \<leftarrow> mw_assertU64 (sy_exchangeId message) True;
     _ \<leftarrow> assertUint (sy_chunkIndex message) 0xffff;
     _ \<leftarrow> assertUint (sy_chunkCount message) 0xffff;
     if sy_chunkCount message = 0 \<or> sy_chunkIndex message \<ge> sy_chunkCount message then None
     else if length (sy_updates message) > MAX_MEMBERS then None
     else prepareSyncUpdates (sy_updates message) {} SYNC_HEADER_BYTES
   }"

definition allocateMessage :: "nat \<Rightarrow> nat \<Rightarrow> bool \<Rightarrow> bytes option" where
  "allocateMessage type bodyLength packet =
     (if bodyLength > 0xffff then None
      else
        let totalLength = MESSAGE_HEADER_BYTES + bodyLength in
        if packet \<and> totalLength > MAX_PACKET_BYTES then None
        else do {
          bytes \<leftarrow> set_bytes 0 (put_be 1 mw_PROTOCOL_VERSION) (replicate totalLength 0);
          bytes \<leftarrow> set_bytes 1 (put_be 1 type) bytes;
          set_bytes 2 (put_be 2 bodyLength) bytes
        })"

fun mw_encodeMessage :: "MembershipMessage \<Rightarrow> bytes option" where
  "mw_encodeMessage (SyncChunk message) = do {
     (updates, bodyLength) \<leftarrow> prepareSyncBody message;
     bytes \<leftarrow> allocateMessage (sync_type (sy_type message)) bodyLength False;
     bytes \<leftarrow> set_bytes 4 (put_be 8 (nat (sy_exchangeId message))) bytes;
     bytes \<leftarrow> set_bytes 12 (put_be 2 (nat (sy_chunkIndex message))) bytes;
     bytes \<leftarrow> set_bytes 14 (put_be 2 (nat (sy_chunkCount message))) bytes;
     bytes \<leftarrow> set_bytes 16 (put_be 2 (length updates)) bytes;
     map_option fst (write_updates updates bytes (SYNC_HEADER_BYTES + MESSAGE_HEADER_BYTES))
   }"
| "mw_encodeMessage (Packet message) = do {
     body \<leftarrow> preparePacketBody message;
     bytes \<leftarrow> allocateMessage (packet_type message) (pb_bodyLength body) True;
     writePacketBody message body bytes
   }"

definition mw_readName :: "bytes \<Rightarrow> nat \<Rightarrow> nat \<Rightarrow> bool \<Rightarrow> (jsstr \<times> nat) option" where
  "mw_readName bytes offset limit allowEmpty =
     (if offset \<ge> limit then None
      else
        let len = unat (bytes ! offset); end' = offset + 1 + len in
        if end' > limit then None
        else do {
          value \<leftarrow> mw_decodeName bytes (offset + 1) len allowEmpty;
          Some (value, end')
        })"

fun decodeUpdateList :: "bytes \<Rightarrow> nat \<Rightarrow> nat \<Rightarrow> nat \<Rightarrow> MembershipUpdate list option" where
  "decodeUpdateList bytes offset limit 0 = (if offset \<noteq> limit then None else Some [])"
| "decodeUpdateList bytes offset limit (Suc n) = do {
     (update, offset) \<leftarrow> decodeMembershipUpdateAt bytes offset limit;
     updates \<leftarrow> decodeUpdateList bytes offset limit n;
     Some (update # updates)
   }"

definition decodeProbeHeader :: "bytes \<Rightarrow> nat \<Rightarrow> nat \<Rightarrow> (int \<times> jsstr \<times> nat) option" where
  "decodeProbeHeader bytes bodyOffset limit =
     (if limit - bodyOffset < 4 then None
      else do {
        let sequence = int (get_uint 4 bodyOffset bytes);
        (owner, end') \<leftarrow> mw_readName bytes (bodyOffset + 4) limit False;
        Some (sequence, owner, end')
      })"

definition decodeCountedPacketUpdates :: "bytes \<Rightarrow> nat \<Rightarrow> nat \<Rightarrow> MembershipUpdate list option" where
  "decodeCountedPacketUpdates bytes offset limit =
     (if offset \<ge> limit then None else decodeUpdateList bytes (offset + 1) limit (unat (bytes ! offset)))"

definition decodeGossipMessage :: "bytes \<Rightarrow> nat \<Rightarrow> nat \<Rightarrow> PacketMessage option" where
  "decodeGossipMessage bytes bodyOffset limit = map_option GossipMessage (decodeCountedPacketUpdates bytes bodyOffset limit)"

definition decodePingMessage :: "bytes \<Rightarrow> nat \<Rightarrow> nat \<Rightarrow> PacketMessage option" where
  "decodePingMessage bytes bodyOffset limit = do {
     (sequence, owner, end') \<leftarrow> decodeProbeHeader bytes bodyOffset limit;
     (relay, end') \<leftarrow> mw_readName bytes end' limit True;
     updates \<leftarrow> decodeCountedPacketUpdates bytes end' limit;
     Some (PingMessage sequence owner relay updates)
   }"

definition decodeTargetMessage :: "nat \<Rightarrow> bytes \<Rightarrow> nat \<Rightarrow> nat \<Rightarrow> PacketMessage option" where
  "decodeTargetMessage type bytes bodyOffset limit = do {
     (sequence, owner, end') \<leftarrow> decodeProbeHeader bytes bodyOffset limit;
     (target, end') \<leftarrow> mw_readName bytes end' limit False;
     updates \<leftarrow> decodeCountedPacketUpdates bytes end' limit;
     Some ((if type = MESSAGE_PING_REQ then PingReqMessage else AckMessage) sequence owner target updates)
   }"

definition decodeNackMessage :: "bytes \<Rightarrow> nat \<Rightarrow> nat \<Rightarrow> PacketMessage option" where
  "decodeNackMessage bytes bodyOffset limit = do {
     (sequence, owner, end') \<leftarrow> decodeProbeHeader bytes bodyOffset limit;
     (target, end') \<leftarrow> mw_readName bytes end' limit False;
     (helper, end') \<leftarrow> mw_readName bytes end' limit False;
     updates \<leftarrow> decodeCountedPacketUpdates bytes end' limit;
     Some (NackMessage sequence owner target helper updates)
   }"

definition decodePacketBody :: "nat \<Rightarrow> bytes \<Rightarrow> nat \<Rightarrow> nat \<Rightarrow> PacketMessage option" where
  "decodePacketBody type bytes bodyOffset limit =
     (if type = MESSAGE_PING then decodePingMessage bytes bodyOffset limit
      else if type = MESSAGE_PING_REQ \<or> type = MESSAGE_ACK then decodeTargetMessage type bytes bodyOffset limit
      else if type = MESSAGE_NACK then decodeNackMessage bytes bodyOffset limit
      else decodeGossipMessage bytes bodyOffset limit)"

definition decodeEnvelope :: "bytes \<Rightarrow> (nat \<times> nat \<times> nat) option" where
  "decodeEnvelope bytes =
     (if length bytes < MESSAGE_HEADER_BYTES then None
      else if get_uint 1 0 bytes \<noteq> mw_PROTOCOL_VERSION then None
      else
        let type = get_uint 1 1 bytes; bodyLength = get_uint 2 2 bytes in
        if bodyLength + MESSAGE_HEADER_BYTES \<noteq> length bytes then None
        else Some (type, MESSAGE_HEADER_BYTES, length bytes))"

definition assertEnvelopeForRole :: "bytes \<Rightarrow> ConnectionRole \<Rightarrow> unit option" where
  "assertEnvelopeForRole bytes role = do {
     (type, _, _) \<leftarrow> decodeEnvelope bytes;
     let legalForPacket = type \<in> {MESSAGE_PING, MESSAGE_PING_REQ, MESSAGE_ACK, MESSAGE_NACK, MESSAGE_GOSSIP};
     let legalForStream = type \<in> {MESSAGE_SYNC_REQUEST, MESSAGE_SYNC_RESPONSE};
     if (if role = ROLE_PACKET then \<not> legalForPacket else \<not> legalForStream) then None else Some ()
   }"

fun distinct_members :: "MembershipUpdate list \<Rightarrow> jsstr set \<Rightarrow> jsstr set option" where
  "distinct_members [] names = Some names"
| "distinct_members (update # updates) names = do {
     names \<leftarrow> addDistinctMember names (mu_member update);
     distinct_members updates names
   }"

definition decodeSyncBody :: "SyncMessageType \<Rightarrow> bytes \<Rightarrow> nat \<Rightarrow> SyncMessage option" where
  "decodeSyncBody type bytes offset =
     (if length bytes - offset < SYNC_HEADER_BYTES then None
      else
        let exchangeId = int (get_uint 8 offset bytes); chunkIndex = int (get_uint 2 (offset + 8) bytes);
            chunkCount = int (get_uint 2 (offset + 10) bytes); memberCount = get_uint 2 (offset + 12) bytes
        in
        if exchangeId = 0 then None
        else if chunkCount = 0 \<or> chunkIndex \<ge> chunkCount then None
        else if memberCount > MAX_MEMBERS then None
        else do {
          updates \<leftarrow> decodeUpdateList bytes (offset + SYNC_HEADER_BYTES) (length bytes) memberCount;
          _ \<leftarrow> distinct_members updates {};
          Some \<lparr>sy_type = type, sy_exchangeId = exchangeId, sy_chunkIndex = chunkIndex, sy_chunkCount = chunkCount,
                sy_updates = updates\<rparr>
        })"

definition mw_decodeMessage :: "bytes \<Rightarrow> MembershipMessage option" where
  "mw_decodeMessage bytes = do {
     (type, bodyOffset, limit) \<leftarrow> decodeEnvelope bytes;
     if type \<ge> MESSAGE_PING \<and> type \<le> MESSAGE_GOSSIP
     then (if length bytes > MAX_PACKET_BYTES then None else map_option Packet (decodePacketBody type bytes bodyOffset limit))
     else if type = MESSAGE_SYNC_REQUEST then map_option SyncChunk (decodeSyncBody SyncRequest bytes bodyOffset)
     else if type = MESSAGE_SYNC_RESPONSE then map_option SyncChunk (decodeSyncBody SyncResponse bytes bodyOffset)
     else None
   }"

definition decodePacketMessage :: "bytes \<Rightarrow> PacketMessage option" where
  "decodePacketMessage bytes = do {
     message \<leftarrow> mw_decodeMessage bytes;
     case message of SyncChunk _ \<Rightarrow> None | Packet packet \<Rightarrow> Some packet
   }"

definition decodeSyncMessage :: "bytes \<Rightarrow> SyncMessage option" where
  "decodeSyncMessage bytes = do {
     message \<leftarrow> mw_decodeMessage bytes;
     case message of Packet _ \<Rightarrow> None | SyncChunk sync \<Rightarrow> Some sync
   }"

section \<open>Records come back\<close>

text \<open>What a prepared record occupies.\<close>

definition record_head :: "PreparedUpdate \<Rightarrow> bytes" where
  "record_head p =
     put_be 2 (pu_length p - 2) @ put_be 1 (state_number (mu_state (pu_update p)))
     @ put_be 1 (if mu_selfOriginated (pu_update p) then 1 else 0) @ put_be 4 (nat (mu_incarnation (pu_update p)))
     @ put_be 8 (nat (mu_stateChangeTime (pu_update p))) @ put_be 1 (length (pu_member p)) @ put_be 1 (length (pu_reporter p))
     @ put_be 2 (length (mu_metadata (pu_update p)))"

definition record_bytes :: "PreparedUpdate \<Rightarrow> bytes" where
  "record_bytes p = record_head p @ pu_member p @ pu_reporter p @ mu_metadata (pu_update p)"

lemma length_record_head [simp]: "length (record_head p) = 20"
  by (simp add: record_head_def)

text \<open>A buffer whose first bytes are written and whose last ones are still zero.\<close>

definition filled :: "bytes \<Rightarrow> nat \<Rightarrow> bytes" where
  "filled xs n = xs @ replicate n 0"

lemma set_bytes_filled [simp]:
  "k = length pre \<Longrightarrow> length xs \<le> n \<Longrightarrow> set_bytes k xs (filled pre n) = Some (filled (pre @ xs) (n - length xs))"
  by (simp add: set_bytes_def filled_def)

lemma filled_ends: "filled [] n = replicate n 0" "filled xs 0 = xs"
  by (simp_all add: filled_def)

lemma name_encoded:
  assumes "mw_encodeName name e = Some bs"
  shows "bs = encode name \<and> length bs \<le> 255 \<and> (e \<or> 0 < length bs) \<and> 0 \<notin> set name \<and> isWellFormed name"
  using assms by (auto simp: mw_encodeName_def mw_sizes Let_def split: if_splits)

lemma name_decoded:
  assumes "mw_encodeName name e = Some bs" and "unmarked name" and "take (length bs) (drop offset buf) = bs"
  shows "mw_decodeName buf offset (length bs) e = Some name"
proof -
  have bs: "bs = encode name" "length bs \<le> 255" "e \<or> 0 < length bs" "0 \<notin> set name" "isWellFormed name"
    using name_encoded [OF assms(1)] by auto
  have "text_decode bs = Some name" using text_decode_encode [OF bs(5)] assms(2) bs(1) by (auto simp: unmarked_def)
  then show ?thesis using bs assms(3) by (auto simp: mw_decodeName_def mw_sizes)
qed

lemma prepared_facts:
  assumes "prepareUpdate u = Some p"
  shows "pu_update p = u" "mw_encodeName (mu_member u) False = Some (pu_member p)" "mw_encodeName (mu_reporter u) True = Some (pu_reporter p)"
    "length (mu_metadata u) \<le> 512" "mu_state u = STATE_SUSPECT \<longleftrightarrow> pu_reporter p \<noteq> []" "mu_state u = STATE_ALIVE \<or> mu_metadata u = []"
    "mu_selfOriginated u \<longleftrightarrow> mu_state u = STATE_ALIVE \<or> mu_state u = STATE_LEFT"
    "pu_length p = 20 + length (pu_member p) + length (pu_reporter p) + length (mu_metadata u)"
    "0 \<le> mu_incarnation u" "mu_incarnation u < 2 ^ 32" "0 \<le> mu_stateChangeTime u" "mu_stateChangeTime u < 2 ^ 64"
    "0 < length (pu_member p)" "length (pu_member p) \<le> 255" "length (pu_reporter p) \<le> 255"
  using assms name_encoded [of "mu_member u" False "pu_member p"] name_encoded [of "mu_reporter u" True "pu_reporter p"]
  by (auto simp: prepareUpdate_def assertUint_def mw_assertU64_def mw_sizes Let_def bind_eq_Some_conv split: if_splits)

lemma length_record: "prepareUpdate u = Some p \<Longrightarrow> length (record_bytes p) = pu_length p"
  by (simp add: record_bytes_def prepared_facts)

lemma record_written:
  assumes "prepareUpdate u = Some p"
  shows "writePreparedUpdate (filled pre (pu_length p + n)) (length pre) p
    = Some (filled (pre @ record_bytes p) n, length (pre @ record_bytes p))"
  using prepared_facts(1,8) [OF assms] length_record [OF assms]
  by (simp add: writePreparedUpdate_def Let_def mw_sizes) (simp add: record_bytes_def record_head_def)

lemma state_of_number [simp]: "state_of (state_number s) = s" "state_number s \<le> 3"
  by (cases s; simp add: state_of_def)+

definition mw_unmarked :: "MembershipUpdate \<Rightarrow> bool" where
  "mw_unmarked u \<longleftrightarrow> unmarked (mu_member u) \<and> unmarked (mu_reporter u)"

lemma record_fields:
  assumes "prepareUpdate u = Some p"
  shows "get_uint 2 (length pre) (pre @ record_bytes p @ post) = pu_length p - 2"
    "get_uint 1 (length pre + 2) (pre @ record_bytes p @ post) = state_number (mu_state u)"
    "get_uint 1 (length pre + 3) (pre @ record_bytes p @ post) = (if mu_selfOriginated u then 1 else 0)"
    "get_uint 4 (length pre + 4) (pre @ record_bytes p @ post) = nat (mu_incarnation u)"
    "get_uint 8 (length pre + 8) (pre @ record_bytes p @ post) = nat (mu_stateChangeTime u)"
    "get_uint 1 (length pre + 16) (pre @ record_bytes p @ post) = length (pu_member p)"
    "get_uint 1 (length pre + 17) (pre @ record_bytes p @ post) = length (pu_reporter p)"
    "get_uint 2 (length pre + 18) (pre @ record_bytes p @ post) = length (mu_metadata u)"
    "take (length (pu_member p)) (drop (length pre + 20) (pre @ record_bytes p @ post)) = pu_member p"
    "take (length (pu_reporter p)) (drop (length pre + 20 + length (pu_member p)) (pre @ record_bytes p @ post)) = pu_reporter p"
    "take (length (mu_metadata u)) (drop (length pre + 20 + length (pu_member p) + length (pu_reporter p)) (pre @ record_bytes p @ post))
       = mu_metadata u"
proof -
  note f = prepared_facts [OF assms]
  have small: "state_number (mu_state u) < 256" using state_of_number(2) [of "mu_state u"] by linarith
  have fits: "nat (mu_incarnation u) mod 4294967296 = nat (mu_incarnation u)"
    "nat (mu_stateChangeTime u) mod 18446744073709551616 = nat (mu_stateChangeTime u)" "(pu_length p - 2) mod 65536 = pu_length p - 2"
    "length (mu_metadata u) mod 65536 = length (mu_metadata u)"
    using f by (auto simp: nat_less_iff intro!: mod_less)
  show "get_uint 2 (length pre) (pre @ record_bytes p @ post) = pu_length p - 2"
    by (simp add: get_uint_def record_bytes_def record_head_def fits)
  show "get_uint 1 (length pre + 2) (pre @ record_bytes p @ post) = state_number (mu_state u)"
    using small f(1) by (simp add: get_uint_def record_bytes_def record_head_def)
  show "get_uint 1 (length pre + 3) (pre @ record_bytes p @ post) = (if mu_selfOriginated u then 1 else 0)"
    using f(1) by (simp add: get_uint_def record_bytes_def record_head_def)
  show "get_uint 4 (length pre + 4) (pre @ record_bytes p @ post) = nat (mu_incarnation u)"
    using f(1) by (simp add: get_uint_def record_bytes_def record_head_def fits)
  show "get_uint 8 (length pre + 8) (pre @ record_bytes p @ post) = nat (mu_stateChangeTime u)"
    using f(1) by (simp add: get_uint_def record_bytes_def record_head_def fits)
  show "get_uint 1 (length pre + 16) (pre @ record_bytes p @ post) = length (pu_member p)"
    using f(14) by (simp add: get_uint_def record_bytes_def record_head_def)
  show "get_uint 1 (length pre + 17) (pre @ record_bytes p @ post) = length (pu_reporter p)"
    using f(15) by (simp add: get_uint_def record_bytes_def record_head_def)
  show "get_uint 2 (length pre + 18) (pre @ record_bytes p @ post) = length (mu_metadata u)"
    using f(1) by (simp add: get_uint_def record_bytes_def record_head_def fits)
qed (use prepared_facts [OF assms] in \<open>simp_all add: record_bytes_def\<close>)

lemma record_decoded:
  assumes p: "prepareUpdate u = Some p" and names: "mw_unmarked u" and room: "length pre + pu_length p \<le> limit"
  shows "decodeMembershipUpdateAt (pre @ record_bytes p @ post) (length pre) limit = Some (u, length (pre @ record_bytes p))"
proof -
  note f = prepared_facts [OF p]
  let ?b = "pre @ record_bytes p @ post"
  have m: "mw_decodeName ?b (length pre + 20) (length (pu_member p)) False = Some (mu_member u)"
    by (rule name_decoded [OF f(2) _ record_fields(9) [OF p]]) (use names in \<open>simp add: mw_unmarked_def\<close>)
  have r: "mw_decodeName ?b (length pre + 20 + length (pu_member p)) (length (pu_reporter p)) True = Some (mu_reporter u)"
    by (rule name_decoded [OF f(3) _ record_fields(10) [OF p]]) (use names in \<open>simp add: mw_unmarked_def\<close>)
  have flags: "(if mu_selfOriginated u then 1 else 0 :: nat) AND 0xfe = 0" by simp
  have "limit - length pre \<ge> pu_length p" using room by simp
  moreover have "pu_length p - 2 + 2 = pu_length p" "20 \<le> pu_length p" using f(8) by auto
  moreover have "state_number (mu_state u) \<le> state_number STATE_LEFT" by simp
  moreover have "\<not> (if mu_state u = STATE_SUSPECT then length (pu_reporter p) = 0 else length (pu_reporter p) \<noteq> 0)" using f(5) by simp
  moreover have "\<not> (mu_state u \<noteq> STATE_ALIVE \<and> length (mu_metadata u) \<noteq> 0)" using f(6) by auto
  moreover have "((if mu_selfOriginated u then 1 else 0 :: nat) = 1) = (mu_state u = STATE_ALIVE \<or> mu_state u = STATE_LEFT)" using f(7) by simp
  moreover have "\<not> 3 < state_number (mu_state u)" using state_of_number(2) [of "mu_state u"] by linarith
  moreover have "\<lparr>mu_state = mu_state u, mu_selfOriginated = (mu_state u = STATE_ALIVE \<or> mu_state u = STATE_LEFT),
      mu_incarnation = mu_incarnation u, mu_stateChangeTime = mu_stateChangeTime u, mu_member = mu_member u,
      mu_reporter = mu_reporter u, mu_metadata = mu_metadata u\<rparr> = u" using f(7) by (cases u) simp
  ultimately show ?thesis
    using f(4,8,9,11,13) m r flags length_record [OF p]
    unfolding decodeMembershipUpdateAt_def record_fields [OF p] mw_sizes Let_def by (simp add: record_fields [OF p])
qed

section \<open>Messages come back\<close>

definition name_field :: "bytes \<Rightarrow> bytes" where
  "name_field name = put_be 1 (length name) @ name"

lemma length_name_field [simp]: "length (name_field name) = Suc (length name)"
  by (simp add: name_field_def)

lemma names_written:
  "write_names names (filled pre (sum_list (map (\<lambda>b. Suc (length b)) names) + n)) (length pre)
     = Some (filled (pre @ concat (map name_field names)) n, length (pre @ concat (map name_field names)))"
proof (induction names arbitrary: pre)
  case (Cons b names)
  show ?case using Cons [of "pre @ name_field b"] by (simp add: name_field_def add.assoc)
qed simp

lemma updates_written:
  assumes "list_all2 (\<lambda>u p. prepareUpdate u = Some p) us ps"
  shows "write_updates ps (filled pre (sum_list (map pu_length ps) + n)) (length pre)
     = Some (filled (pre @ concat (map record_bytes ps)) n, length (pre @ concat (map record_bytes ps)))"
  using assms
proof (induction us ps arbitrary: pre rule: list_all2_induct)
  case (Cons u us p ps)
  show ?case using record_written [OF Cons(1), of pre "sum_list (map pu_length ps) + n"] Cons(3) [of "pre @ record_bytes p"]
    by (simp add: add.assoc)
qed simp

lemma prepared_updates:
  "prepareUpdates us n = Some (ps, k) \<longleftrightarrow> list_all2 (\<lambda>u p. prepareUpdate u = Some p) us ps \<and> k = n + sum_list (map pu_length ps)"
  by (induction us arbitrary: n ps k) (auto simp: bind_eq_Some_conv list_all2_Cons1)

lemma prepared_sync_updates:
  "prepareSyncUpdates us names n = Some (ps, k) \<longleftrightarrow>
     distinct (map mu_member us) \<and> mu_member ` set us \<inter> names = {}
     \<and> list_all2 (\<lambda>u p. prepareUpdate u = Some p) us ps \<and> k = n + sum_list (map pu_length ps)"
  by (induction us arbitrary: names n ps k) (auto simp: bind_eq_Some_conv list_all2_Cons1 addDistinctMember_def split: if_splits)

lemma distinct_members_iff:
  "distinct_members us names \<noteq> None \<longleftrightarrow> distinct (map mu_member us) \<and> mu_member ` set us \<inter> names = {}"
  by (induction us arbitrary: names) (auto simp: addDistinctMember_def split: if_splits)

lemma name_read:
  assumes n: "mw_encodeName name e = Some bs" and "unmarked name" and "length pre + Suc (length bs) \<le> limit"
  shows "mw_readName (pre @ name_field bs @ post) (length pre) limit e = Some (name, length (pre @ name_field bs))"
proof -
  have "length bs < 256" using name_encoded [OF n] by linarith
  then have len: "unat ((pre @ name_field bs @ post) ! length pre) = length bs" by (simp add: name_field_def nth_append)
  have "mw_decodeName (pre @ name_field bs @ post) (length pre + 1) (length bs) e = Some name"
    by (rule name_decoded [OF n assms(2)]) (simp add: name_field_def)
  then show ?thesis using assms(3) len by (simp add: mw_readName_def)
qed

lemma updates_read:
  assumes "list_all2 (\<lambda>u p. prepareUpdate u = Some p) us ps" and "\<forall>u \<in> set us. mw_unmarked u"
    and "limit = length pre + length (concat (map record_bytes ps))"
  shows "decodeUpdateList (pre @ concat (map record_bytes ps)) (length pre) limit (length us) = Some us"
  using assms
proof (induction us ps arbitrary: pre rule: list_all2_induct)
  case (Cons u us p ps)
  have "decodeMembershipUpdateAt (pre @ record_bytes p @ concat (map record_bytes ps)) (length pre) limit = Some (u, length (pre @ record_bytes p))"
    by (rule record_decoded [OF Cons(1)]) (use Cons.prems length_record [OF Cons(1)] in simp_all)
  then show ?case using Cons(3) [of "pre @ record_bytes p"] Cons.prems by simp
qed simp

lemma counted_read:
  assumes "list_all2 (\<lambda>u p. prepareUpdate u = Some p) us ps" and "\<forall>u \<in> set us. mw_unmarked u" and "length us \<le> 255"
    and "limit = Suc (length pre) + length (concat (map record_bytes ps))"
  shows "decodeCountedPacketUpdates (pre @ put_be 1 (length ps) @ concat (map record_bytes ps)) (length pre) limit = Some us"
proof -
  have "length ps = length us" using assms(1) by (simp add: list_all2_lengthD)
  then have "unat ((pre @ put_be 1 (length ps) @ concat (map record_bytes ps)) ! length pre) = length us"
    using assms(3) by (simp add: nth_append)
  then show ?thesis using updates_read [OF assms(1,2), of limit "pre @ put_be 1 (length ps)"] assms(4)
    by (simp add: decodeCountedPacketUpdates_def)
qed

lemma allocated:
  assumes "allocateMessage type n packet = Some b" and "type < 256"
  shows "b = filled (put_be 1 mw_PROTOCOL_VERSION @ put_be 1 type @ put_be 2 n) n" "n \<le> 0xffff" "packet \<Longrightarrow> 4 + n \<le> MAX_PACKET_BYTES"
proof -
  have "replicate (MESSAGE_HEADER_BYTES + n) 0 = filled [] (4 + n)" by (simp add: filled_def mw_sizes)
  then show "b = filled (put_be 1 mw_PROTOCOL_VERSION @ put_be 1 type @ put_be 2 n) n"
    using assms(1) by (auto simp: allocateMessage_def Let_def split: if_splits)
qed (use assms in \<open>auto simp: allocateMessage_def mw_sizes split: if_splits\<close>)

lemma envelope_read:
  assumes "type < 256" and "length body = n" and "n \<le> 0xffff"
  shows "decodeEnvelope (put_be 1 mw_PROTOCOL_VERSION @ put_be 1 type @ put_be 2 n @ body) = Some (type, 4, 4 + n)"
  using assms by (simp add: decodeEnvelope_def get_uint_def mw_sizes mw_PROTOCOL_VERSION_def)

definition packet_body :: "PacketMessage \<Rightarrow> bytes list \<Rightarrow> PreparedUpdate list \<Rightarrow> bytes" where
  "packet_body m names ps = (if is_GossipMessage m then [] else put_be 4 (nat (pk_sequence m)))
     @ concat (map name_field names) @ put_be 1 (length ps) @ concat (map record_bytes ps)"

definition envelope :: "nat \<Rightarrow> bytes \<Rightarrow> bytes" where
  "envelope type body = put_be 1 mw_PROTOCOL_VERSION @ put_be 1 type @ put_be 2 (length body) @ body"

lemma packet_type_less: "packet_type m < 256"
  by (cases m) (simp_all add: mw_types)

lemma fold_names: "fold (\<lambda>name k. Suc (k + length name)) names n = n + sum_list (map (\<lambda>b. Suc (length b)) names)"
  by (induction names arbitrary: n) simp_all

lemma length_concat_fields:
  "length (concat (map name_field names)) = sum_list (map (\<lambda>b. Suc (length b)) names)"
  by (induction names) simp_all

lemma length_concat_records:
  "list_all2 (\<lambda>u p. prepareUpdate u = Some p) us ps \<Longrightarrow> length (concat (map record_bytes ps)) = sum_list (map pu_length ps)"
  by (induction us ps rule: list_all2_induct) (simp_all add: length_record)

lemma body_written:
  assumes "list_all2 (\<lambda>u p. prepareUpdate u = Some p) us ps" and "k = length pre"
  shows "do {
      (bytes, offset) \<leftarrow> write_names names (filled pre (sum_list (map (\<lambda>b. Suc (length b)) names) + (1 + sum_list (map pu_length ps)))) k;
      bytes \<leftarrow> set_bytes offset (put_be 1 (length ps)) bytes;
      map_option fst (write_updates ps bytes (offset + 1))
    } = Some (pre @ concat (map name_field names) @ put_be 1 (length ps) @ concat (map record_bytes ps))"
proof -
  let ?pre = "(pre @ concat (map name_field names)) @ put_be 1 (length ps)"
  have "set_bytes (length (pre @ concat (map name_field names))) (put_be 1 (length ps)) (filled (pre @ concat (map name_field names)) (1 + sum_list (map pu_length ps)))
      = Some (filled ?pre (sum_list (map pu_length ps) + 0))"
    by (simp del: append_assoc)
  moreover have "write_updates ps (filled ?pre (sum_list (map pu_length ps) + 0)) (length (pre @ concat (map name_field names)) + 1)
      = Some (filled (?pre @ concat (map record_bytes ps)) 0, length (?pre @ concat (map record_bytes ps)))"
    using updates_written [OF assms(1), of ?pre 0] by simp
  ultimately show ?thesis unfolding assms(2) names_written by (simp add: filled_ends del: length_append put_be.simps)
qed

lemma packet_encoded:
  assumes "mw_encodeMessage (Packet m) = Some bs"
  obtains names ps where "packet_names m = Some names" "list_all2 (\<lambda>u p. prepareUpdate u = Some p) (pk_updates m) ps"
    "length (pk_updates m) \<le> 255" "is_GossipMessage m \<or> 0 \<le> pk_sequence m \<and> pk_sequence m < 2 ^ 32"
    "length (packet_body m names ps) \<le> 0xffff" "length bs \<le> MAX_PACKET_BYTES" "bs = envelope (packet_type m) (packet_body m names ps)"
proof -
  obtain names ps n b where enc: "packet_names m = Some names" "length (pk_updates m) \<le> 255"
    "n = (if is_GossipMessage m then 1 else 5) + sum_list (map (\<lambda>b. Suc (length b)) names) + sum_list (map pu_length ps)"
    and ps: "list_all2 (\<lambda>u p. prepareUpdate u = Some p) (pk_updates m) ps"
    and b: "allocateMessage (packet_type m) n True = Some b"
    and w: "writePacketBody m \<lparr>pn_names = names,
        pn_baseLength = (if is_GossipMessage m then 1 else 5) + sum_list (map (\<lambda>b. Suc (length b)) names), pb_updates = ps, pb_bodyLength = n\<rparr> b = Some bs"
    using assms by (auto simp: preparePacketBody_def preparePacketNames_def bind_eq_Some_conv prepared_updates mw_sizes fold_names split: if_splits)
  let ?env = "put_be 1 mw_PROTOCOL_VERSION @ put_be 1 (packet_type m) @ put_be 2 n"
  note al = allocated [OF b packet_type_less]
  have n: "n = length (packet_body m names ps)"
    using enc(3) length_concat_fields [of names] length_concat_records [OF ps] by (simp add: packet_body_def)
  have seq: "is_GossipMessage m \<or> 0 \<le> pk_sequence m \<and> pk_sequence m < 2 ^ 32"
    using w by (auto simp: writePacketBody_def Let_def bind_eq_Some_conv assertUint_def split: if_splits)
  have "bs = ?env @ packet_body m names ps"
  proof -
    let ?s = "if is_GossipMessage m then [] else put_be 4 (nat (pk_sequence m))"
    have head: "(if is_GossipMessage m then Some (b, 4)
        else do { _ \<leftarrow> assertUint (pk_sequence m) 0xffffffff;
          bytes \<leftarrow> set_bytes 4 (put_be 4 (nat (pk_sequence m))) b; Some (bytes, 4 + 4) })
      = Some (filled (?env @ ?s) (sum_list (map (\<lambda>b. Suc (length b)) names) + (1 + sum_list (map pu_length ps))), length (?env @ ?s))"
      using seq enc(3) unfolding al(1) by (auto simp: assertUint_def)
    have "writePacketBody m \<lparr>pn_names = names,
        pn_baseLength = (if is_GossipMessage m then 1 else 5) + sum_list (map (\<lambda>b. Suc (length b)) names), pb_updates = ps, pb_bodyLength = n\<rparr> b
      = Some ((?env @ ?s) @ concat (map name_field names) @ put_be 1 (length ps) @ concat (map record_bytes ps))"
      using body_written [OF ps refl, of names "?env @ ?s"]
      unfolding writePacketBody_def Let_def MESSAGE_HEADER_BYTES_def head by simp
    then show ?thesis using w by (simp add: packet_body_def)
  qed
  then show ?thesis
    using that [OF enc(1) ps enc(2) seq] al(2,3) n by (simp add: envelope_def)
qed

fun packet_texts :: "PacketMessage \<Rightarrow> jsstr list" where
  "packet_texts (PingMessage _ owner relay _) = [owner, relay]"
| "packet_texts (PingReqMessage _ owner target _) = [owner, target]"
| "packet_texts (AckMessage _ owner target _) = [owner, target]"
| "packet_texts (NackMessage _ owner target helper _) = [owner, target, helper]"
| "packet_texts (GossipMessage _) = []"

definition packet_unmarked :: "PacketMessage \<Rightarrow> bool" where
  "packet_unmarked m \<longleftrightarrow> (\<forall>t \<in> set (packet_texts m). unmarked t) \<and> (\<forall>u \<in> set (pk_updates m). mw_unmarked u)"

lemma probe_header_read:
  assumes "length h = 4" and "0 \<le> s" and "s < 2 ^ 32" and "mw_encodeName owner False = Some bs" and "unmarked owner"
    and "8 + Suc (length bs) \<le> limit"
  shows "decodeProbeHeader (h @ put_be 4 (nat s) @ name_field bs @ post) 4 limit
    = Some (s, owner, length (h @ put_be 4 (nat s) @ name_field bs))"
proof -
  have "nat s mod 4294967296 = nat s" using assms(2,3) by (intro mod_less) (simp add: nat_less_iff)
  then have "get_uint 4 4 (h @ put_be 4 (nat s) @ name_field bs @ post) = nat s" using assms(1) by (simp add: get_uint_def)
  moreover have "mw_readName (h @ put_be 4 (nat s) @ name_field bs @ post) 8 limit False
      = Some (owner, length (h @ put_be 4 (nat s) @ name_field bs))"
    using name_read [OF assms(4,5), of "h @ put_be 4 (nat s)" limit post] assms(1,6) by simp
  ultimately show ?thesis using assms(1,2,6) by (simp add: decodeProbeHeader_def)
qed

definition probe_head :: "bytes \<Rightarrow> int \<Rightarrow> bytes \<Rightarrow> bytes \<Rightarrow> bytes" where
  "probe_head h s ob tb = h @ put_be 4 (nat s) @ name_field ob @ name_field tb"

lemma target_read:
  assumes "length h = 4" and "0 \<le> s" and "s < 2 ^ 32"
    and "mw_encodeName owner False = Some ob" "unmarked owner" "mw_encodeName t e = Some tb" "unmarked t"
    and room: "length (probe_head h s ob tb) \<le> limit"
  shows "decodeProbeHeader (probe_head h s ob tb @ post) 4 limit = Some (s, owner, 8 + Suc (length ob))"
    "mw_readName (probe_head h s ob tb @ post) (8 + Suc (length ob)) limit e = Some (t, length (probe_head h s ob tb))"
proof -
  have room: "8 + Suc (length ob) \<le> limit" "8 + Suc (length ob) + Suc (length tb) \<le> limit"
    using assms(1) room by (simp_all add: probe_head_def)
  show "decodeProbeHeader (probe_head h s ob tb @ post) 4 limit = Some (s, owner, 8 + Suc (length ob))"
    using probe_header_read [OF assms(1-5) room(1), of "name_field tb @ post"] assms(1) by (simp add: probe_head_def)
  show "mw_readName (probe_head h s ob tb @ post) (8 + Suc (length ob)) limit e = Some (t, length (probe_head h s ob tb))"
    using name_read [OF assms(6,7), of "h @ put_be 4 (nat s) @ name_field ob" limit post] room(2) assms(1)
    by (simp add: probe_head_def)
qed

lemma packet_read:
  assumes names: "packet_names m = Some names" and ps: "list_all2 (\<lambda>u p. prepareUpdate u = Some p) (pk_updates m) ps"
    and len: "length (pk_updates m) \<le> 255" and seq: "is_GossipMessage m \<or> 0 \<le> pk_sequence m \<and> pk_sequence m < 2 ^ 32"
    and texts: "packet_unmarked m" and h: "length h = 4"
  shows "decodePacketBody (packet_type m) (h @ packet_body m names ps) 4 (length (h @ packet_body m names ps)) = Some m"
proof -
  have us: "\<forall>u \<in> set (pk_updates m). mw_unmarked u" using texts by (simp add: packet_unmarked_def)
  define rest where "rest = put_be 1 (length ps) @ concat (map record_bytes ps)"
  have counted: "decodeCountedPacketUpdates (pre @ rest) (length pre) (length (pre @ rest)) = Some (pk_updates m)" for pre
    unfolding rest_def by (rule counted_read [OF ps us len]) simp
  have two: "decodeProbeHeader (probe_head h s ob tb @ rest) 4 (length (probe_head h s ob tb @ rest)) = Some (s, ow, 8 + Suc (length ob))"
      "mw_readName (probe_head h s ob tb @ rest) (8 + Suc (length ob)) (length (probe_head h s ob tb @ rest)) e = Some (t, length (probe_head h s ob tb))"
      "h @ packet_body m [ob, tb] ps = probe_head h s ob tb @ rest"
    if "mw_encodeName ow False = Some ob" "mw_encodeName t e = Some tb" "unmarked ow" "unmarked t" "pk_sequence m = s" "\<not> is_GossipMessage m"
    for s ow t ob tb e
    using target_read [OF h _ _ that(1,3,2,4), of s "length (probe_head h s ob tb @ rest)" rest] seq that(5,6)
    by (simp_all add: packet_body_def rest_def probe_head_def del: put_be.simps)
  show ?thesis
  proof (cases m)
    case (PingMessage s ow r us')
    then obtain ob rb where n: "names = [ob, rb]" "mw_encodeName ow False = Some ob" "mw_encodeName r True = Some rb"
      using names by (auto simp: bind_eq_Some_conv)
    have "unmarked ow" "unmarked r" using texts PingMessage by (simp_all add: packet_unmarked_def)
    from two [OF n(2,3) this, of s] show ?thesis using counted [of "probe_head h s ob rb"] PingMessage n(1)
      by (simp add: decodePacketBody_def decodePingMessage_def mw_types)
  next
    case (PingReqMessage s ow r us')
    then obtain ob rb where n: "names = [ob, rb]" "mw_encodeName ow False = Some ob" "mw_encodeName r False = Some rb"
      using names by (auto simp: bind_eq_Some_conv)
    have "unmarked ow" "unmarked r" using texts PingReqMessage by (simp_all add: packet_unmarked_def)
    from two [OF n(2,3) this, of s] show ?thesis using counted [of "probe_head h s ob rb"] PingReqMessage n(1)
      by (simp add: decodePacketBody_def decodeTargetMessage_def mw_types)
  next
    case (AckMessage s ow r us')
    then obtain ob rb where n: "names = [ob, rb]" "mw_encodeName ow False = Some ob" "mw_encodeName r False = Some rb"
      using names by (auto simp: bind_eq_Some_conv)
    have "unmarked ow" "unmarked r" using texts AckMessage by (simp_all add: packet_unmarked_def)
    from two [OF n(2,3) this, of s] show ?thesis using counted [of "probe_head h s ob rb"] AckMessage n(1)
      by (simp add: decodePacketBody_def decodeTargetMessage_def mw_types)
  next
    case (NackMessage s ow r hp us')
    then obtain ob rb hb where n: "names = [ob, rb, hb]" "mw_encodeName ow False = Some ob" "mw_encodeName r False = Some rb"
      "mw_encodeName hp False = Some hb"
      using names by (auto simp: bind_eq_Some_conv)
    have t: "unmarked ow" "unmarked r" "unmarked hp" "0 \<le> s" "s < 2 ^ 32" using texts seq NackMessage by (simp_all add: packet_unmarked_def)
    let ?pre = "probe_head h s ob rb" and ?all = "(probe_head h s ob rb @ name_field hb) @ rest"
    have all: "h @ packet_body m names ps = ?all" using NackMessage n(1) by (simp add: packet_body_def rest_def probe_head_def)
    have "decodeProbeHeader ?all 4 (length ?all) = Some (s, ow, 8 + Suc (length ob))"
      "mw_readName ?all (8 + Suc (length ob)) (length ?all) False = Some (r, length ?pre)"
      using target_read [OF h t(4,5) n(2) t(1) n(3) t(2), of "length ?all" "name_field hb @ rest"] by simp_all
    moreover have "mw_readName ?all (length ?pre) (length ?all) False = Some (hp, length (?pre @ name_field hb))"
      using name_read [OF n(4) t(3), of ?pre "length ?all" rest] by simp
    ultimately show ?thesis using counted [of "?pre @ name_field hb"] NackMessage unfolding all
      by (simp add: decodePacketBody_def decodeNackMessage_def mw_types)
  next
    case (GossipMessage us')
    then have "h @ packet_body m names ps = h @ rest" using names by (simp add: packet_body_def rest_def)
    then show ?thesis using counted [of h] GossipMessage h
      by (simp add: decodePacketBody_def decodeGossipMessage_def mw_types)
  qed
qed

lemma packet_comes_back:
  assumes "mw_encodeMessage (Packet m) = Some bs" and "packet_unmarked m"
  shows "mw_decodeMessage bs = Some (Packet m) \<and> length bs \<le> MAX_PACKET_BYTES"
proof -
  obtain names ps where e: "packet_names m = Some names" "list_all2 (\<lambda>u p. prepareUpdate u = Some p) (pk_updates m) ps"
    "length (pk_updates m) \<le> 255" "is_GossipMessage m \<or> 0 \<le> pk_sequence m \<and> pk_sequence m < 2 ^ 32"
    "length (packet_body m names ps) \<le> 0xffff" "length bs \<le> MAX_PACKET_BYTES" "bs = envelope (packet_type m) (packet_body m names ps)"
    using packet_encoded [OF assms(1)] .
  let ?b = "packet_body m names ps" and ?h = "put_be 1 mw_PROTOCOL_VERSION @ put_be 1 (packet_type m) @ put_be 2 (length (packet_body m names ps))"
  have bs: "bs = ?h @ ?b" using e(7) by (simp add: envelope_def)
  have env: "decodeEnvelope bs = Some (packet_type m, 4, length bs)"
    using envelope_read [OF packet_type_less refl e(5)] e(7) by (simp add: envelope_def)
  have "decodePacketBody (packet_type m) bs 4 (length bs) = Some m"
    unfolding bs by (rule packet_read [OF e(1-4) assms(2)]) simp
  moreover have "MESSAGE_PING \<le> packet_type m \<and> packet_type m \<le> MESSAGE_GOSSIP" by (cases m) (simp_all add: mw_types)
  ultimately show ?thesis using env e(6) by (simp add: mw_decodeMessage_def)
qed

definition sync_body :: "SyncMessage \<Rightarrow> PreparedUpdate list \<Rightarrow> bytes" where
  "sync_body m ps = put_be 8 (nat (sy_exchangeId m)) @ put_be 2 (nat (sy_chunkIndex m)) @ put_be 2 (nat (sy_chunkCount m))
     @ put_be 2 (length ps) @ concat (map record_bytes ps)"

lemma sync_prepared:
  "prepareSyncBody m = Some (ps, n) \<longleftrightarrow>
     0 < sy_exchangeId m \<and> sy_exchangeId m < 2 ^ 64 \<and> 0 \<le> sy_chunkIndex m \<and> sy_chunkIndex m < sy_chunkCount m \<and> sy_chunkCount m < 2 ^ 16
     \<and> length (sy_updates m) \<le> MAX_MEMBERS \<and> distinct (map mu_member (sy_updates m))
     \<and> list_all2 (\<lambda>u p. prepareUpdate u = Some p) (sy_updates m) ps \<and> n = 14 + sum_list (map pu_length ps)"
  by (auto simp: prepareSyncBody_def mw_assertU64_def assertUint_def prepared_sync_updates SYNC_HEADER_BYTES_def split: if_splits)

lemma length_sync_body:
  "list_all2 (\<lambda>u p. prepareUpdate u = Some p) us ps \<Longrightarrow> length (sync_body m ps) = 14 + sum_list (map pu_length ps)"
  by (simp add: sync_body_def length_concat_records)

lemma sync_encoded:
  assumes prep: "prepareSyncBody m = Some (ps, n)" and "n \<le> 0xffff"
  shows "mw_encodeMessage (SyncChunk m) = Some (envelope (sync_type (sy_type m)) (sync_body m ps))"
proof -
  have ps: "list_all2 (\<lambda>u p. prepareUpdate u = Some p) (sy_updates m) ps" "n = 14 + sum_list (map pu_length ps)"
    using prep by (simp_all add: sync_prepared)
  let ?env = "put_be 1 mw_PROTOCOL_VERSION @ put_be 1 (sync_type (sy_type m)) @ put_be 2 n"
  let ?head = "?env @ put_be 8 (nat (sy_exchangeId m)) @ put_be 2 (nat (sy_chunkIndex m)) @ put_be 2 (nat (sy_chunkCount m)) @ put_be 2 (length ps)"
  have "allocateMessage (sync_type (sy_type m)) n False = Some (filled ?env (14 + sum_list (map pu_length ps)))"
    using assms(2) ps(2) by (simp add: allocateMessage_def Let_def MESSAGE_HEADER_BYTES_def flip: filled_ends(1))
  moreover have "write_updates ps (filled ?head (sum_list (map pu_length ps) + 0)) 18 = Some (?head @ concat (map record_bytes ps), length (?head @ concat (map record_bytes ps)))"
    using updates_written [OF ps(1), of ?head 0] by (simp add: filled_ends)
  moreover have "n = length (sync_body m ps)" using ps length_sync_body [OF ps(1)] by simp
  ultimately show ?thesis using prep
    by (simp add: SYNC_HEADER_BYTES_def MESSAGE_HEADER_BYTES_def envelope_def sync_body_def)
qed

lemma sync_decoded:
  assumes prep: "prepareSyncBody m = Some (ps, n)" and "n \<le> 0xffff" and marks: "\<forall>u \<in> set (sy_updates m). mw_unmarked u"
  shows "decodeSyncMessage (envelope (sync_type (sy_type m)) (sync_body m ps)) = Some m"
proof -
  have m: "0 < sy_exchangeId m" "sy_exchangeId m < 2 ^ 64" "0 \<le> sy_chunkIndex m" "sy_chunkIndex m < sy_chunkCount m" "sy_chunkCount m < 2 ^ 16"
    "length (sy_updates m) \<le> MAX_MEMBERS" "distinct (map mu_member (sy_updates m))"
    "list_all2 (\<lambda>u p. prepareUpdate u = Some p) (sy_updates m) ps" "n = 14 + sum_list (map pu_length ps)"
    using prep by (simp_all add: sync_prepared)
  let ?t = "sync_type (sy_type m)" and ?b = "sync_body m ps"
  let ?head = "put_be 1 mw_PROTOCOL_VERSION @ put_be 1 ?t @ put_be 2 (length ?b) @ put_be 8 (nat (sy_exchangeId m)) @ put_be 2 (nat (sy_chunkIndex m))
     @ put_be 2 (nat (sy_chunkCount m)) @ put_be 2 (length ps)"
  have bytes: "envelope ?t ?b = ?head @ concat (map record_bytes ps)" by (simp add: envelope_def sync_body_def)
  have t: "?t < 256" by (cases "sy_type m") (simp_all add: sync_type_def mw_types)
  have count: "length ps = length (sy_updates m)" using m(8) by (simp add: list_all2_lengthD)
  have fits: "nat (sy_exchangeId m) mod 18446744073709551616 = nat (sy_exchangeId m)" "nat (sy_chunkIndex m) mod 65536 = nat (sy_chunkIndex m)"
    "nat (sy_chunkCount m) mod 65536 = nat (sy_chunkCount m)" "length ps mod 65536 = length ps"
    using m(1-6) count by (auto simp: nat_less_iff MAX_MEMBERS_def intro!: mod_less)
  have env: "decodeEnvelope (envelope ?t ?b) = Some (?t, 4, 4 + length ?b)"
    using envelope_read [OF t refl, of ?b] assms(2) m(9) length_sync_body [OF m(8)] by (simp add: envelope_def)
  have fields: "get_uint 8 4 (envelope ?t ?b) = nat (sy_exchangeId m)" "get_uint 2 12 (envelope ?t ?b) = nat (sy_chunkIndex m)"
    "get_uint 2 14 (envelope ?t ?b) = nat (sy_chunkCount m)" "get_uint 2 16 (envelope ?t ?b) = length ps"
    unfolding bytes by (simp_all add: get_uint_def fits)
  have list: "decodeUpdateList (envelope ?t ?b) 18 (length (envelope ?t ?b)) (length ps) = Some (sy_updates m)"
    unfolding bytes using updates_read [OF m(8) marks, of _ ?head] count by simp
  have names: "\<exists>ns. distinct_members (sy_updates m) {} = Some ns" using distinct_members_iff [of "sy_updates m" "{}"] m(7) by auto
  have "decodeSyncBody (sy_type m) (envelope ?t ?b) 4 = Some m"
    using fields list names m(1-6) count length_sync_body [OF m(8), of m]
    by (auto simp: decodeSyncBody_def SYNC_HEADER_BYTES_def envelope_def)
  then show ?thesis using env
    by (cases "sy_type m") (simp_all add: decodeSyncMessage_def mw_decodeMessage_def sync_type_def mw_types)
qed

text \<open>
  C23. A packet arrives as it was sent: whatever ping, indirect ping request, acknowledgement,
  negative acknowledgement or gossip message the encoder accepts, with all its
  piggybacked records, the decoder reads back from the bytes, which fit a packet, provided
  no name in it starts with a byte order mark.
\<close>

theorem packet_roundtrip:
  assumes "mw_encodeMessage (Packet m) = Some bs" and "packet_unmarked m"
  shows "decodePacketMessage bs = Some m \<and> length bs \<le> MAX_PACKET_BYTES"
  using packet_comes_back [OF assms] by (simp add: decodePacketMessage_def)

definition sample_packet :: PacketMessage where
  "sample_packet = PingMessage 7 (js ''a'') [] [truth (js ''b'') STATE_SUSPECT 3 (js ''a'') []]"

lemma sample_packet_bytes: "\<exists>bs. mw_encodeMessage (Packet sample_packet) = Some bs"
proof -
  have name: "mw_encodeName (js ''a'') e = Some [97]" "mw_encodeName (js ''b'') e = Some [98]" "mw_encodeName [] True = Some []" for e
    by (simp_all add: mw_encodeName_def js_def encode_def utf8_bytes_def is_high_def is_low_def mw_sizes)
  show ?thesis
    by (simp add: sample_packet_def truth_def name preparePacketBody_def preparePacketNames_def prepareUpdate_def assertUint_def mw_assertU64_def
        mw_sizes allocateMessage_def writePacketBody_def writePreparedUpdate_def set_bytes_def Let_def)
qed

theorem packet_roundtrip_witness:
  "\<exists>bs. mw_encodeMessage (Packet sample_packet) = Some bs \<and> decodePacketMessage bs = Some sample_packet"
proof -
  obtain bs where bs: "mw_encodeMessage (Packet sample_packet) = Some bs" using sample_packet_bytes by blast
  have "packet_unmarked sample_packet"
    by (simp add: packet_unmarked_def mw_unmarked_def sample_packet_def unmarked_def truth_def js_def bom_def)
  then show ?thesis using packet_roundtrip [OF bs] bs by blast
qed

end
