(* ===== verification/Coordinator.thy ===== *)
theory Coordinator
  imports RoutingTable Wire
begin

text \<open>
  The table coordinator, \<open>src/kv/coordinator.ts\<close>: the oldest member authors the routing
  table, pushes it to the others, gathers their ownership reports, and catches up when
  a member answers with a table that the push did not supersede.  The membership view
  and the partitions the local store holds are arguments of what reads them.  A
  rebalance is three steps, cut where the source awaits the answers to a push, so that
  inbound pushes may come between; \<open>co_rebalance\<close> composes them for a quiet cluster.

  The theory shows that a quiet rebalance brings every member to the coordinator's
  version, and to its very table when that version is new; that a push the node adopts
  while its own rebalance waits can be undone by a late answer; and that a partition
  with more owners than the codec admits stalls the coordinator.
\<close>

section \<open>State and operations\<close>

datatype CoordinatorFault = RangeFault | ProtocolFault

record ClusterMember =
  cm_name :: jsstr
  cm_startedAt :: int
  cm_ready :: bool
  cm_draining :: bool

record Coordinator =
  co_self :: jsstr
  co_partitionCount :: int
  co_table :: "RoutingTable option"
  co_maxVersion :: int
  co_reports :: "OwnershipReport list"

definition co_new :: "jsstr \<Rightarrow> int \<Rightarrow> RangeError + Coordinator" where
  "co_new self partitionCount =
     (if \<not> isSafeInteger partitionCount \<or> partitionCount \<le> 0 then Inl RangeError
      else Inr \<lparr>co_self = self, co_partitionCount = partitionCount, co_table = None, co_maxVersion = 0, co_reports = []\<rparr>)"

definition sameList :: "jsstr list \<Rightarrow> jsstr list \<Rightarrow> bool" where
  "sameList xs ys \<longleftrightarrow>
     (if length xs \<noteq> length ys then False else list_all (\<lambda>index. xs ! index = ys ! index) [0..<length xs])"

fun sameOwners_from :: "nat list \<Rightarrow> RoutingTable \<Rightarrow> RoutingTable \<Rightarrow> RangeError + bool" where
  "sameOwners_from [] s t = Inr True"
| "sameOwners_from (p # ps) s t =
     (case (rt_owners (int p) s, rt_owners (int p) t) of
        (Inr os, Inr os') \<Rightarrow> if \<not> sameList os os' then Inr False else sameOwners_from ps s t
      | _ \<Rightarrow> Inl RangeError)"

definition sameOwners :: "RoutingTable \<Rightarrow> RoutingTable \<Rightarrow> RangeError + bool" where
  "sameOwners s t = sameOwners_from [0..<rt_partitionCount s] s t"

definition decodeReport :: "bytes \<Rightarrow> OwnershipReport option" where
  "decodeReport bs = (case decodeMessage bs of Some (Report report) \<Rightarrow> Some report | _ \<Rightarrow> None)"

definition decodeTable :: "bytes \<Rightarrow> RangeError + RoutingTable option" where
  "decodeTable bs =
     (case decodeMessage bs of
        Some (Table wire) \<Rightarrow> (case rt_fromWire wire of Inl e \<Rightarrow> Inl e | Inr t \<Rightarrow> Inr (Some t))
      | _ \<Rightarrow> Inr None)"

definition informs :: "RoutingTable \<Rightarrow> RoutingTable \<Rightarrow> RangeError + bool" where
  "informs held pushed =
     (if rt_supersedes pushed held then Inr False
      else if rt_supersedes held pushed then Inr True
      else case sameOwners held pushed of Inl e \<Rightarrow> Inl e | Inr same \<Rightarrow> Inr (\<not> same))"

definition co_coordinatorName :: "ClusterMember list \<Rightarrow> jsstr option" where
  "co_coordinatorName members = (case members of [] \<Rightarrow> None | m # _ \<Rightarrow> Some (cm_name m))"

definition co_isCoordinator :: "ClusterMember list \<Rightarrow> Coordinator \<Rightarrow> bool" where
  "co_isCoordinator members co \<longleftrightarrow> co_coordinatorName members = Some (co_self co)"

definition co_localReport :: "nat list \<Rightarrow> Coordinator \<Rightarrow> OwnershipReport" where
  "co_localReport held co = \<lparr>or_node = co_self co, or_partitions = held\<rparr>"

definition co_handleTable ::
  "ClusterMember list \<Rightarrow> nat list \<Rightarrow> jsstr \<Rightarrow> RoutingTable \<Rightarrow> Coordinator \<Rightarrow> OwnershipReport \<times> Coordinator" where
  "co_handleTable members held from table co =
     (let believed = co_coordinatorName members;
          newer = (case co_table co of None \<Rightarrow> True | Some t \<Rightarrow> rt_supersedes table t);
          co = (if Some from = believed \<and> newer
                then co\<lparr>co_table := Some table, co_maxVersion := rt_version table\<rparr> else co)
      in (co_localReport held co, co))"

text \<open>Encoding a message; the codec refuses one out of its limits.\<close>

definition co_encode :: "KvMessage \<Rightarrow> CoordinatorFault + bytes" where
  "co_encode message = (case encodeMessage message of None \<Rightarrow> Inl ProtocolFault | Some bs \<Rightarrow> Inr bs)"

definition co_receive ::
  "ClusterMember list \<Rightarrow> nat list \<Rightarrow> jsstr \<Rightarrow> bytes \<Rightarrow> Coordinator \<Rightarrow> (CoordinatorFault + bytes) \<times> Coordinator" where
  "co_receive members held from body co =
     (case decodeMessage body of
        Some (Table wire) \<Rightarrow>
          (case rt_fromWire wire of
             Inl _ \<Rightarrow> (Inl RangeFault, co)
           | Inr pushed \<Rightarrow>
               let (report, co) = co_handleTable members held from pushed co in
               (case co_table co of
                  None \<Rightarrow> (co_encode (Report report), co)
                | Some own \<Rightarrow>
                    (case informs own pushed of
                       Inl _ \<Rightarrow> (Inl RangeFault, co)
                     | Inr True \<Rightarrow> (co_encode (Table (rt_toWire own)), co)
                     | Inr False \<Rightarrow> (co_encode (Report report), co))))
      | _ \<Rightarrow> (Inl ProtocolFault, co))"

definition co_recompute ::
  "(rat \<Rightarrow> rat) \<Rightarrow> ClusterMember list \<Rightarrow> Coordinator \<Rightarrow> (CoordinatorFault + RoutingTable) \<times> Coordinator" where
  "co_recompute fl members co =
     (let live = firsts (map cm_name members);
          assignable = map cm_name (filter (\<lambda>m. \<not> cm_draining m) members);
          names = (if length assignable > 0 then assignable else live)
      in case pr_new fl names (co_partitionCount co) of
           Inl _ \<Rightarrow> (Inl RangeFault, co)
         | Inr ring \<Rightarrow>
             (case rt_evolve (co_table co) ring (co_reports co) (co_maxVersion co + 1) (set live) of
                Inl _ \<Rightarrow> (Inl RangeFault, co)
              | Inr candidate \<Rightarrow>
                  let adopt = (Inr candidate, co\<lparr>co_table := Some candidate, co_maxVersion := rt_version candidate\<rparr>) in
                  (case co_table co of
                     None \<Rightarrow> adopt
                   | Some table \<Rightarrow>
                       (case sameOwners table candidate of
                          Inl _ \<Rightarrow> (Inl RangeFault, co)
                        | Inr True \<Rightarrow> (Inr table, co)
                        | Inr False \<Rightarrow> adopt))))"

section \<open>Pushing\<close>

text \<open>
  A push in flight: the frame, the members it goes to, and the local report taken when
  it was sent.
\<close>

record Push =
  ps_frame :: bytes
  ps_targets :: "jsstr list"
  ps_report :: OwnershipReport

definition co_push :: "RoutingTable \<Rightarrow> ClusterMember list \<Rightarrow> nat list \<Rightarrow> Coordinator \<Rightarrow> CoordinatorFault + Push" where
  "co_push table members held co =
     (case co_encode (Table (rt_toWire table)) of
        Inl e \<Rightarrow> Inl e
      | Inr bs \<Rightarrow>
          Inr \<lparr>ps_frame = bs, ps_targets = filter (\<lambda>n. n \<noteq> co_self co) (map cm_name members),
               ps_report = co_localReport held co\<rparr>)"

text \<open>The answers in the order of the targets, \<^term>\<open>None\<close> for a request that was rejected.\<close>

fun co_collect ::
  "bytes option list \<Rightarrow> OwnershipReport list \<Rightarrow> RoutingTable option \<Rightarrow> CoordinatorFault + (OwnershipReport list \<times> RoutingTable option)" where
  "co_collect [] gathered learned = Inr (gathered, learned)"
| "co_collect (None # responses) gathered learned = co_collect responses gathered learned"
| "co_collect (Some bs # responses) gathered learned =
     (case decodeReport bs of
        Some report \<Rightarrow> co_collect responses (gathered @ [report]) learned
      | None \<Rightarrow>
          (case decodeTable bs of
             Inl _ \<Rightarrow> Inl RangeFault
           | Inr None \<Rightarrow> co_collect responses gathered learned
           | Inr (Some peer) \<Rightarrow>
               co_collect responses gathered
                 (case learned of
                    None \<Rightarrow> Some peer
                  | Some t \<Rightarrow> if rt_supersedes peer t then Some peer else learned)))"

definition co_pushed :: "Push \<Rightarrow> bytes option list \<Rightarrow> Coordinator \<Rightarrow> (CoordinatorFault + RoutingTable option) \<times> Coordinator" where
  "co_pushed push responses co =
     (case co_collect responses [ps_report push] None of
        Inl e \<Rightarrow> (Inl e, co)
      | Inr (gathered, learned) \<Rightarrow> (Inr learned, co\<lparr>co_reports := gathered\<rparr>))"

section \<open>Rebalancing\<close>

definition co_begin ::
  "(rat \<Rightarrow> rat) \<Rightarrow> ClusterMember list \<Rightarrow> nat list \<Rightarrow> Coordinator \<Rightarrow> (CoordinatorFault + Push option) \<times> Coordinator" where
  "co_begin fl members held co =
     (if \<not> co_isCoordinator members co then (Inr None, co)
      else
        case co_recompute fl members co of
          (Inl e, co) \<Rightarrow> (Inl e, co)
        | (Inr table, co) \<Rightarrow>
            (case co_push table members held co of Inl e \<Rightarrow> (Inl e, co) | Inr push \<Rightarrow> (Inr (Some push), co)))"

definition co_continue ::
  "(rat \<Rightarrow> rat) \<Rightarrow> ClusterMember list \<Rightarrow> nat list \<Rightarrow> Push \<Rightarrow> bytes option list \<Rightarrow> Coordinator
     \<Rightarrow> (CoordinatorFault + Push option) \<times> Coordinator" where
  "co_continue fl members held push responses co =
     (case co_pushed push responses co of
        (Inl e, co) \<Rightarrow> (Inl e, co)
      | (Inr None, co) \<Rightarrow> (Inr None, co)
      | (Inr (Some learned), co) \<Rightarrow>
          let co = co\<lparr>co_table := Some learned, co_maxVersion := rt_version learned\<rparr> in
          (case co_recompute fl members co of
             (Inl e, co) \<Rightarrow> (Inl e, co)
           | (Inr table, co) \<Rightarrow>
               (case co_push table members held co of Inl e \<Rightarrow> (Inl e, co) | Inr push \<Rightarrow> (Inr (Some push), co))))"

definition co_finish :: "Push \<Rightarrow> bytes option list \<Rightarrow> Coordinator \<Rightarrow> (CoordinatorFault + unit) \<times> Coordinator" where
  "co_finish push responses co =
     (case co_pushed push responses co of (Inl e, co) \<Rightarrow> (Inl e, co) | (Inr _, co) \<Rightarrow> (Inr (), co))"

text \<open>
  The cluster while nothing else happens: every node has its own view and its own held
  partitions, and a target in \<open>reachable\<close> answers through \<open>co_receive\<close>.
\<close>

type_synonym coordinators = "jsstr \<Rightarrow> Coordinator"

fun co_requests ::
  "(jsstr \<Rightarrow> ClusterMember list) \<Rightarrow> (jsstr \<Rightarrow> nat list) \<Rightarrow> jsstr set \<Rightarrow> jsstr \<Rightarrow> bytes \<Rightarrow> jsstr list \<Rightarrow> coordinators
     \<Rightarrow> bytes option list \<times> coordinators" where
  "co_requests view held reachable from frame [] ns = ([], ns)"
| "co_requests view held reachable from frame (m # targets) ns =
     (let (response, ns) =
        (if m \<in> reachable
         then case co_receive (view m) (held m) from frame (ns m) of
                (Inl _, co) \<Rightarrow> (None, ns(m := co))
              | (Inr bs, co) \<Rightarrow> (Some bs, ns(m := co))
         else (None, ns));
          (responses, ns) = co_requests view held reachable from frame targets ns
      in (response # responses, ns))"

definition co_rebalance ::
  "(rat \<Rightarrow> rat) \<Rightarrow> (jsstr \<Rightarrow> ClusterMember list) \<Rightarrow> (jsstr \<Rightarrow> nat list) \<Rightarrow> jsstr set \<Rightarrow> jsstr \<Rightarrow> coordinators
     \<Rightarrow> (CoordinatorFault + unit) \<times> coordinators" where
  "co_rebalance fl view held reachable self ns =
     (case co_begin fl (view self) (held self) (ns self) of
        (Inl e, co) \<Rightarrow> (Inl e, ns(self := co))
      | (Inr None, co) \<Rightarrow> (Inr (), ns(self := co))
      | (Inr (Some push), co) \<Rightarrow>
          let (responses, ns) = co_requests view held reachable self (ps_frame push) (ps_targets push) (ns(self := co)) in
          (case co_continue fl (view self) (held self) push responses (ns self) of
             (Inl e, co) \<Rightarrow> (Inl e, ns(self := co))
           | (Inr None, co) \<Rightarrow> (Inr (), ns(self := co))
           | (Inr (Some push), co) \<Rightarrow>
               let (responses, ns) = co_requests view held reachable self (ps_frame push) (ps_targets push) (ns(self := co)) in
               (case co_finish push responses (ns self) of
                  (res, co) \<Rightarrow> (res, ns(self := co)))))"

section \<open>What the codec accepts\<close>

definition good_name :: "jsstr \<Rightarrow> bool" where
  "good_name n \<longleftrightarrow> 0 \<notin> set n \<and> 0 < length (encode n) \<and> length (encode n) \<le> MAX_NAME_BYTES \<and> isWellFormed n \<and> unmarked n"

definition good_table :: "nat \<Rightarrow> RoutingTable \<Rightarrow> bool" where
  "good_table n t \<longleftrightarrow> rt_partitionCount t = n \<and> 0 \<le> rt_version t \<and> rt_version t \<le> MAX_U64 \<and>
     (\<forall>owners \<in> set (rt_table t). owners \<noteq> [] \<and> distinct owners \<and> length owners \<le> MAX_OWNERS_PER_PARTITION
        \<and> (\<forall>m \<in> set owners. good_name m))"

lemma write_all_defined: "\<forall>x \<in> set xs. \<forall>w. \<exists>w'. wr x w = Some w' \<Longrightarrow> \<exists>w'. write_all wr xs w = Some w'"
proof (induction xs arbitrary: w)
  case (Cons x xs)
  have "\<exists>w'. wr x w = Some w'" using Cons.prems by simp
  then obtain w' where "wr x w = Some w'" ..
  with Cons show ?case by simp
qed simp

lemma writeName_defined: "good_name n \<Longrightarrow> \<exists>w'. writeName n w = Some w'"
  by (simp add: good_name_def writeName_def)

lemma table_frame:
  assumes "good_table n t" and "n \<le> MAX_WIRE_PARTITIONS"
  obtains bs where "encodeMessage (Table (rt_toWire t)) = Some bs" and "decodeMessage bs = Some (Table (rt_toWire t))"
    and "rt_fromWire (rt_toWire t) = Inr t"
proof -
  have owners: "\<exists>w'. writeOwners owners w = Some w'" if "owners \<in> set (rt_table t)" for owners w
  proof -
    have ok: "owners \<noteq> []" "length owners \<le> MAX_OWNERS_PER_PARTITION" "\<forall>m \<in> set owners. good_name m"
      using that assms(1) unfolding good_table_def by blast+
    have "\<exists>w'. write_all writeName owners w = Some w'" for w
      by (rule write_all_defined) (use ok(3) writeName_defined in simp)
    then show ?thesis using ok(1,2) by (simp add: writeOwners_def)
  qed
  then have "\<exists>w'. write_all writeOwners (rt_table t) w = Some w'" for w by (intro write_all_defined) blast
  then have "\<exists>w'. writeTable (rt_toWire t) w = Some w'" for w
    using assms by (auto simp: good_table_def writeTable_def assertU64_def rt_toWire_def rt_partitionCount_def)
  then have "\<exists>bs. encodeMessage (Table (rt_toWire t)) = Some bs"
    by (auto simp: encodeMessage_def writeEnvelope_def Option.bind_eq_Some_conv)
  then obtain bs where bs: "encodeMessage (Table (rt_toWire t)) = Some bs" by blast
  have "unmarked_message (Table (rt_toWire t))" using assms(1) by (auto simp: good_table_def rt_toWire_def good_name_def)
  then have "decodeMessage bs = Some (Table (rt_toWire t))" using codec_decodes [OF codec_message bs] by blast
  moreover have "rt_fromWire (rt_toWire t) = Inr t"
    using assms(1) by (cases t) (auto simp: rt_fromWire_def rt_toWire_def rt_new_Inr good_table_def)
  ultimately show thesis using that bs by blast
qed

definition good_report :: "OwnershipReport \<Rightarrow> bool" where
  "good_report rep \<longleftrightarrow> good_name (or_node rep) \<and> length (or_partitions rep) \<le> MAX_WIRE_PARTITIONS
     \<and> (\<forall>p \<in> set (or_partitions rep). p < 2 ^ 32)"

lemma report_frame:
  assumes "good_report rep"
  obtains bs where "encodeMessage (Report rep) = Some bs" and "decodeMessage bs = Some (Report rep)"
proof -
  have "\<exists>w'. write_all writePartitionField (or_partitions rep) w = Some w'" for w
    using assms by (intro write_all_defined) (auto simp: good_report_def writePartitionField_def assertU32_def isSafeInteger_def)
  then have "\<exists>w'. writeOwnershipReport rep w = Some w'" for w
    using assms writeName_defined [of "or_node rep" w]
    by (auto simp: good_report_def writeOwnershipReport_def)
  then have "\<exists>bs. encodeMessage (Report rep) = Some bs"
    by (auto simp: encodeMessage_def writeEnvelope_def Option.bind_eq_Some_conv)
  then obtain bs where bs: "encodeMessage (Report rep) = Some bs" by blast
  have "unmarked_message (Report rep)" using assms by (simp add: good_report_def good_name_def)
  then show thesis using codec_decodes [OF codec_message bs] bs that by blast
qed

section \<open>Comparing and recomputing tables\<close>

lemma sameList_iff: "sameList xs ys \<longleftrightarrow> xs = ys"
  by (auto simp: sameList_def list_all_iff intro: nth_equalityI)

lemma sameOwners_from_eq:
  "\<forall>p \<in> set ps. p < rt_partitionCount s \<and> p < rt_partitionCount t \<and> p < 2 ^ 53 - 1 \<Longrightarrow>
   sameOwners_from ps s t = Inr (\<forall>p \<in> set ps. rt_table s ! p = rt_table t ! p)"
  by (induction ps) (auto simp: rt_owners_def rt_requireId_def rt_partitionCount_def isSafeInteger_def sameList_iff)

lemma sameOwners_eq:
  assumes "rt_partitionCount s = n" "rt_partitionCount t = n" "n \<le> MAX_WIRE_PARTITIONS"
  shows "sameOwners s t = Inr (rt_table s = rt_table t)"
proof -
  have "sameOwners s t = Inr (\<forall>p \<in> set [0..<n]. rt_table s ! p = rt_table t ! p)"
    unfolding sameOwners_def assms(1) using assms by (intro sameOwners_from_eq) (auto simp: wire_limits)
  also have "(\<forall>p \<in> set [0..<n]. rt_table s ! p = rt_table t ! p) \<longleftrightarrow> rt_table s = rt_table t"
    using assms(1,2) by (auto simp: rt_partitionCount_def intro: nth_equalityI)
  finally show ?thesis .
qed

lemma informs_eq:
  assumes "rt_partitionCount own = n" "rt_partitionCount t = n" "n \<le> MAX_WIRE_PARTITIONS"
  shows "informs own t = Inr (rt_version t \<le> rt_version own \<and> own \<noteq> t)"
  using sameOwners_eq [OF assms] by (cases own; cases t) (auto simp: informs_def rt_supersedes_def)

text \<open>The table a ring gives, whatever went before.\<close>

definition evolved_owners :: "RoutingTable option \<Rightarrow> PartitionRing \<Rightarrow> OwnershipReport list \<Rightarrow> jsstr set \<Rightarrow> nat \<Rightarrow> jsstr list" where
  "evolved_owners previous ring reports live p =
     (case previous of
        None \<Rightarrow> []
      | Some t \<Rightarrow> filter (\<lambda>w. w \<noteq> pr_primaries ring ! p \<and> w \<in> live \<and> \<not> reported_drained reports w p) (rt_table t ! p))
     @ [pr_primaries ring ! p]"

lemma sequence_sum_map: "\<forall>x \<in> set xs. f x = Inr (g x) \<Longrightarrow> sequence_sum (map f xs) = Inr (map g xs)"
  by (simp add: sequence_sum_Inr)

lemma evolve_result:
  assumes ring: "pr_new fl names (int n) = Inr ring" and n: "n \<le> MAX_WIRE_PARTITIONS" and v: "0 \<le> v"
    and prev: "\<forall>t. previous = Some t \<longrightarrow> rt_partitionCount t = n"
  shows "rt_evolve previous ring reports v live =
    Inr \<lparr>rt_version = v, rt_table = map (evolved_owners previous ring reports live) [0..<n]\<rparr>"
proof -
  have count: "pr_partitionCount ring = n" using primaries_members(2) [OF ring] by (simp add: pr_partitionCount_def)
  have "evolveOwners previous ring (aggregateReports reports) live p = Inr (evolved_owners previous ring reports live p)"
    if p: "p < n" for p
  proof -
    have prim: "pr_primary ring (int p) = Inr (pr_primaries ring ! p)"
      using p n count by (simp add: pr_primary_def requirePartitionId_def pr_partitionCount_def isSafeInteger_def wire_limits)
    have "rt_owners (int p) t = Inr (rt_table t ! p)" if "previous = Some t" for t
      using that prev p n by (simp add: rt_owners_def rt_requireId_def rt_partitionCount_def isSafeInteger_def wire_limits)
    then show ?thesis by (cases previous) (auto simp: evolveOwners_def evolved_owners_def prim isRetained_iff)
  qed
  then have "sequence_sum (map (evolveOwners previous ring (aggregateReports reports) live) [0..<n])
      = Inr (map (evolved_owners previous ring reports live) [0..<n])" by (intro sequence_sum_map) simp
  then show ?thesis using count prev v
    by (auto simp: rt_evolve_def Let_def rt_new_Inr evolved_owners_def split: option.splits)
qed

definition good_members :: "ClusterMember list \<Rightarrow> bool" where
  "good_members ms \<longleftrightarrow> ms \<noteq> [] \<and> distinct (map cm_name ms) \<and> length ms \<le> MAX_OWNERS_PER_PARTITION
     \<and> (\<forall>m \<in> set ms. good_name (cm_name m))"

definition good_node :: "nat \<Rightarrow> jsstr \<Rightarrow> Coordinator \<Rightarrow> bool" where
  "good_node n m co \<longleftrightarrow> co_self co = m \<and> good_name m \<and> co_partitionCount co = int n \<and> 0 < n \<and> n \<le> MAX_WIRE_PARTITIONS \<and>
     (case co_table co of None \<Rightarrow> co_maxVersion co = 0 | Some t \<Rightarrow> good_table n t \<and> co_maxVersion co = rt_version t)"

lemma good_name_nonempty: "good_name n \<Longrightarrow> n \<noteq> []"
  by (auto simp: good_name_def encode_def)

lemma ring_names:
  assumes "good_members ms" and "0 < n" and "n \<le> MAX_WIRE_PARTITIONS"
    and "names = (if length (map cm_name (filter (\<lambda>m. \<not> cm_draining m) ms)) > 0
      then map cm_name (filter (\<lambda>m. \<not> cm_draining m) ms) else firsts (map cm_name ms))"
  obtains ring where "pr_new fl names (int n) = Inr ring" and "set (pr_primaries ring) \<subseteq> set (map cm_name ms)"
    and "length (pr_primaries ring) = n"
proof -
  have firsts: "distinct (firsts xs)" for xs :: "jsstr list" by (induction xs) auto
  have "distinct (map cm_name (filter P ms))" for P
    using assms(1) by (simp add: good_members_def distinct_map_filter)
  then have "names \<noteq> []" "distinct names" and sub: "set names \<subseteq> set (map cm_name ms)"
    using assms(1,4) firsts by (auto simp: good_members_def split: if_splits) (metis list.map_disc_iff set_empty set_firsts)
  moreover have "[] \<notin> set names" using sub assms(1) good_name_nonempty by (fastforce simp: good_members_def)
  ultimately have "\<exists>ring. pr_new fl names (int n) = Inr ring"
    using assms(2,3) by (simp add: pr_new_Inr isSafeInteger_def wire_limits)
  then obtain ring where ring: "pr_new fl names (int n) = Inr ring" ..
  show thesis using that [OF ring] primaries_members [OF ring] sub by auto
qed

lemma evolved_good:
  assumes "good_members ms" and "set (pr_primaries ring) \<subseteq> set (map cm_name ms)" and "length (pr_primaries ring) = n" and "p < n"
    and "\<forall>t. previous = Some t \<longrightarrow> good_table n t" and os_def: "os = evolved_owners previous ring reports (set (map cm_name ms)) p"
  shows "os \<noteq> [] \<and> distinct os \<and> length os \<le> MAX_OWNERS_PER_PARTITION \<and> (\<forall>m \<in> set os. good_name m)"
proof -
  have prim: "pr_primaries ring ! p \<in> set (map cm_name ms)" using assms(2,3,4) nth_mem by fastforce
  have old: "distinct (rt_table t ! p)" if "previous = Some t" for t
    using that assms(4,5) by (auto simp: good_table_def rt_partitionCount_def)
  have sub: "set os \<subseteq> set (map cm_name ms)" using prim by (auto simp: os_def evolved_owners_def split: option.splits)
  have dist: "distinct os" using old by (auto simp: os_def evolved_owners_def split: option.splits)
  then have "length os \<le> card (set (map cm_name ms))" using card_mono [OF _ sub] by (simp add: distinct_card)
  also have "\<dots> \<le> MAX_OWNERS_PER_PARTITION" using assms(1) card_length [of "map cm_name ms"] by (auto simp: good_members_def)
  finally show ?thesis using dist sub assms(1) by (auto simp: good_members_def os_def evolved_owners_def)
qed

lemma recompute_result:
  assumes ms: "good_members ms" and co: "good_node n m co" and v: "co_maxVersion co < MAX_U64"
  obtains t where "co_recompute fl ms co = (Inr t, co\<lparr>co_table := Some t, co_maxVersion := rt_version t\<rparr>)"
    and "good_table n t" and "co_table co = Some t \<or> rt_version t = co_maxVersion co + 1"
proof -
  define names where "names = (if length (map cm_name (filter (\<lambda>m. \<not> cm_draining m) ms)) > 0
      then map cm_name (filter (\<lambda>m. \<not> cm_draining m) ms) else firsts (map cm_name ms))"
  have n: "0 < n" "n \<le> MAX_WIRE_PARTITIONS" "co_partitionCount co = int n" using co by (auto simp: good_node_def)
  obtain ring where ring: "pr_new fl names (int n) = Inr ring" "set (pr_primaries ring) \<subseteq> set (map cm_name ms)"
    "length (pr_primaries ring) = n" using ring_names [OF ms n(1,2) names_def] by blast
  have prev: "\<forall>t. co_table co = Some t \<longrightarrow> good_table n t" using co by (auto simp: good_node_def split: option.splits)
  have v0: "0 \<le> co_maxVersion co" using co by (auto simp: good_node_def good_table_def split: option.splits)
  define t where "t = \<lparr>rt_version = co_maxVersion co + 1,
    rt_table = map (evolved_owners (co_table co) ring (co_reports co) (set (map cm_name ms))) [0..<n]\<rparr>"
  have ev: "rt_evolve (co_table co) ring (co_reports co) (co_maxVersion co + 1) (set (firsts (map cm_name ms))) = Inr t"
    using evolve_result [OF ring(1) n(2), of "co_maxVersion co + 1" "co_table co"] v0 prev by (auto simp: good_table_def t_def)
  have good: "good_table n t" and version: "rt_version t = co_maxVersion co + 1"
    unfolding good_table_def using v v0 evolved_good [OF ms ring(2,3) _ prev refl] by (auto simp: rt_partitionCount_def t_def)
  have run: "co_recompute fl ms co = (case co_table co of
      None \<Rightarrow> (Inr t, co\<lparr>co_table := Some t, co_maxVersion := rt_version t\<rparr>)
    | Some table \<Rightarrow> (case sameOwners table t of Inl _ \<Rightarrow> (Inl RangeFault, co) | Inr True \<Rightarrow> (Inr table, co)
        | Inr False \<Rightarrow> (Inr t, co\<lparr>co_table := Some t, co_maxVersion := rt_version t\<rparr>)))"
    by (simp only: co_recompute_def Let_def names_def [symmetric] n(3) ring(1) ev sum.case)
  show thesis
  proof (cases "co_table co")
    case None
    then show thesis using that [of t] run good version by simp
  next
    case (Some table)
    have "sameOwners table t = Inr (rt_table table = rt_table t)"
      using sameOwners_eq [of table n t] prev Some good n(2) by (simp add: good_table_def)
    moreover have "co\<lparr>co_table := Some table, co_maxVersion := rt_version table\<rparr> = co"
      using co Some by (cases co) (auto simp: good_node_def)
    ultimately show thesis using that [of table] that [of t] run good version prev Some
      by (cases "rt_table table = rt_table t") simp_all
  qed
qed

section \<open>One push\<close>

definition after_push :: "RoutingTable \<Rightarrow> Coordinator \<Rightarrow> Coordinator" where
  "after_push t co =
     (if (\<exists>own. co_table co = Some own \<and> rt_version t \<le> rt_version own) then co
      else co\<lparr>co_table := Some t, co_maxVersion := rt_version t\<rparr>)"

lemma after_push_good: "good_node n m co \<Longrightarrow> good_table n t \<Longrightarrow> good_node n m (after_push t co)"
  by (auto simp: after_push_def good_node_def)

lemma after_push_table:
  "\<exists>own. co_table (after_push t co) = Some own \<and> rt_version t \<le> rt_version own \<and> (own = t \<or> co_table co = Some own)"
  by (auto simp: after_push_def)

lemma receive_result:
  assumes co: "good_node n m co" and t: "good_table n t" and frame: "decodeMessage frame = Some (Table (rt_toWire t))"
    and wire: "rt_fromWire (rt_toWire t) = Inr t" and view: "co_coordinatorName ms = Some from"
    and held: "good_report \<lparr>or_node = m, or_partitions = held\<rparr>"
  obtains bs where "co_receive ms held from frame co = (Inr bs, after_push t co)"
    and "co_table (after_push t co) = Some t \<Longrightarrow> decodeReport bs = Some \<lparr>or_node = m, or_partitions = held\<rparr>"
    and "\<And>own. co_table (after_push t co) = Some own \<Longrightarrow> own \<noteq> t \<Longrightarrow> decodeReport bs = None \<and> decodeTable bs = Inr (Some own)"
proof -
  let ?co = "after_push t co"
  have n: "n \<le> MAX_WIRE_PARTITIONS" using co by (simp add: good_node_def)
  obtain own where own: "co_table ?co = Some own" "rt_version t \<le> rt_version own" using after_push_table by blast
  have good: "good_table n own" using after_push_good [OF co t] own(1) by (simp add: good_node_def)
  have handle: "co_handleTable ms held from t co = (\<lparr>or_node = m, or_partitions = held\<rparr>, ?co)"
    using co view by (auto simp: co_handleTable_def co_localReport_def after_push_def good_node_def rt_supersedes_def Let_def
        split: option.splits)
  have inf: "informs own t = Inr (own \<noteq> t)"
    using informs_eq [of own n t] good t n own(2) by (simp add: good_table_def)
  obtain rs where rs: "encodeMessage (Report \<lparr>or_node = m, or_partitions = held\<rparr>) = Some rs"
    "decodeMessage rs = Some (Report \<lparr>or_node = m, or_partitions = held\<rparr>)" using report_frame [OF held] .
  obtain ts where ts: "encodeMessage (Table (rt_toWire own)) = Some ts" "decodeMessage ts = Some (Table (rt_toWire own))"
    "rt_fromWire (rt_toWire own) = Inr own" using table_frame [OF good n] .
  show thesis
  proof (cases "own = t")
    case True
    then have "co_receive ms held from frame co = (Inr rs, ?co)"
      using frame wire handle own inf rs(1) by (simp add: co_receive_def co_encode_def)
    then show thesis using that [of rs] rs(2) own True by (auto simp: decodeReport_def)
  next
    case False
    then have "co_receive ms held from frame co = (Inr ts, ?co)"
      using frame wire handle own inf ts(1) by (simp add: co_receive_def co_encode_def)
    then show thesis using that [of ts] ts own False by (auto simp: decodeReport_def decodeTable_def)
  qed
qed

text \<open>What a push of \<open>t\<close> learns from its targets, starting from \<open>l\<close>.\<close>

definition learned_from :: "RoutingTable \<Rightarrow> jsstr set \<Rightarrow> coordinators \<Rightarrow> RoutingTable option \<Rightarrow> RoutingTable option \<Rightarrow> bool" where
  "learned_from t targets ns l l' \<longleftrightarrow>
     (l' = None \<longleftrightarrow> l = None \<and> (\<forall>m \<in> targets. co_table (after_push t (ns m)) = Some t))
     \<and> (\<forall>L. l' = Some L \<longrightarrow> (l = Some L \<or> (\<exists>m \<in> targets. co_table (ns m) = Some L \<and> rt_version t \<le> rt_version L))
            \<and> (\<forall>x. l = Some x \<longrightarrow> rt_version x \<le> rt_version L)
            \<and> (\<forall>m \<in> targets. \<forall>x. co_table (after_push t (ns m)) = Some x \<longrightarrow> x = t \<or> rt_version x \<le> rt_version L))"

lemma learned_from_cong: "\<forall>m \<in> targets. ns m = ns' m \<Longrightarrow> learned_from t targets ns l l' = learned_from t targets ns' l l'"
  by (auto simp: learned_from_def)

lemma learned_report:
  "co_table (after_push t (ns m)) = Some t \<Longrightarrow> learned_from t targets ns l l' \<Longrightarrow> learned_from t (insert m targets) ns l l'"
  by (auto simp: learned_from_def)

lemma learned_table:
  assumes own: "co_table (after_push t (ns m)) = Some own" "rt_version t \<le> rt_version own" "own \<noteq> t" "co_table (ns m) = Some own"
    and rest: "learned_from t targets ns
      (case l of None \<Rightarrow> Some own | Some x \<Rightarrow> if rt_supersedes own x then Some own else l) l'" (is "learned_from _ _ _ ?l _")
  shows "learned_from t (insert m targets) ns l l'"
proof -
  have "?l \<noteq> None" by (cases l) auto
  then obtain L where L: "l' = Some L" using rest by (cases l') (auto simp: learned_from_def)
  then have most: "?l = Some L \<or> (\<exists>m \<in> targets. co_table (ns m) = Some L \<and> rt_version t \<le> rt_version L)"
    "\<forall>x. ?l = Some x \<longrightarrow> rt_version x \<le> rt_version L"
    "\<forall>m \<in> targets. \<forall>x. co_table (after_push t (ns m)) = Some x \<longrightarrow> x = t \<or> rt_version x \<le> rt_version L"
    using rest unfolding learned_from_def by blast+
  have "l = Some L \<or> (\<exists>k \<in> insert m targets. co_table (ns k) = Some L \<and> rt_version t \<le> rt_version L)"
    using most(1) own(2,4) by (cases l) (auto split: if_splits)
  moreover have "rt_version own \<le> rt_version L \<and> (\<forall>x. l = Some x \<longrightarrow> rt_version x \<le> rt_version L)"
    using most(2) by (cases l) (auto simp: rt_supersedes_def split: if_splits)
  ultimately show ?thesis using most(3) L own(1,3) unfolding learned_from_def by auto
qed

lemma requests_result:
  assumes t: "good_table n t" and frame: "decodeMessage frame = Some (Table (rt_toWire t))" and wire: "rt_fromWire (rt_toWire t) = Inr t"
  shows "\<forall>m \<in> set targets. m \<in> reachable \<and> co_coordinatorName (view m) = Some from
      \<and> good_report \<lparr>or_node = m, or_partitions = held m\<rparr> \<Longrightarrow>
    \<forall>m \<in> set targets. good_node n m (ns m) \<Longrightarrow> distinct targets \<Longrightarrow>
    \<exists>responses. co_requests view held reachable from frame targets ns
        = (responses, \<lambda>m. if m \<in> set targets then after_push t (ns m) else ns m)
      \<and> (\<forall>g l. \<exists>g' l'. co_collect responses g l = Inr (g', l') \<and> learned_from t (set targets) ns l l')"
proof (induction targets arbitrary: ns)
  case Nil
  show ?case by (rule exI [of _ "[]"]) (simp add: learned_from_def)
next
  case (Cons m targets)
  let ?ns = "ns(m := after_push t (ns m))"
  have here: "m \<in> reachable" "co_coordinatorName (view m) = Some from" "good_report \<lparr>or_node = m, or_partitions = held m\<rparr>"
    "good_node n m (ns m)" "m \<notin> set targets" using Cons.prems by simp_all
  have same: "\<forall>k \<in> set targets. ?ns k = ns k" using here(5) by auto
  obtain bs where bs: "co_receive (view m) (held m) from frame (ns m) = (Inr bs, after_push t (ns m))"
    "co_table (after_push t (ns m)) = Some t \<Longrightarrow> decodeReport bs = Some \<lparr>or_node = m, or_partitions = held m\<rparr>"
    "\<And>own. co_table (after_push t (ns m)) = Some own \<Longrightarrow> own \<noteq> t \<Longrightarrow> decodeReport bs = None \<and> decodeTable bs = Inr (Some own)"
    using receive_result [OF here(4) t frame wire here(2,3)] by metis
  have "\<exists>responses. co_requests view held reachable from frame targets ?ns
        = (responses, \<lambda>k. if k \<in> set targets then after_push t (?ns k) else ?ns k)
      \<and> (\<forall>g l. \<exists>g' l'. co_collect responses g l = Inr (g', l') \<and> learned_from t (set targets) ?ns l l')"
    by (rule Cons.IH) (use Cons.prems same in simp_all)
  then obtain responses where rest: "co_requests view held reachable from frame targets ?ns
        = (responses, \<lambda>k. if k \<in> set targets then after_push t (?ns k) else ?ns k)"
    "\<And>g l. \<exists>g' l'. co_collect responses g l = Inr (g', l') \<and> learned_from t (set targets) ns l l'"
    unfolding learned_from_cong [OF same] by blast
  have run: "co_requests view held reachable from frame (m # targets) ns
      = (Some bs # responses, \<lambda>k. if k \<in> set (m # targets) then after_push t (ns k) else ns k)"
    using here(1,5) bs(1) rest(1) by (auto simp: fun_eq_iff)
  have "\<exists>g' l'. co_collect (Some bs # responses) g l = Inr (g', l') \<and> learned_from t (set (m # targets)) ns l l'" for g l
  proof (cases "co_table (after_push t (ns m)) = Some t")
    case True
    then show ?thesis using bs(2) rest(2) [of "g @ [\<lparr>or_node = m, or_partitions = held m\<rparr>]" l] learned_report by fastforce
  next
    case False
    obtain own where own: "co_table (after_push t (ns m)) = Some own" "rt_version t \<le> rt_version own" "own \<noteq> t" "co_table (ns m) = Some own"
      using after_push_table [of t "ns m"] False by blast
    then show ?thesis
      using bs(3) [OF own(1,3)] rest(2) [of g "case l of None \<Rightarrow> Some own | Some x \<Rightarrow> if rt_supersedes own x then Some own else l"]
        learned_table [where t = t and ns = ns and m = m and own = own, OF own] by auto
  qed
  then show ?case using run by blast
qed

section \<open>A quiet rebalance\<close>

definition quiet_cluster ::
  "nat \<Rightarrow> (jsstr \<Rightarrow> ClusterMember list) \<Rightarrow> (jsstr \<Rightarrow> nat list) \<Rightarrow> jsstr set \<Rightarrow> jsstr \<Rightarrow> coordinators \<Rightarrow> bool" where
  "quiet_cluster n view held reachable self ns \<longleftrightarrow>
     good_members (view self) \<and> co_coordinatorName (view self) = Some self \<and>
     (\<forall>m \<in> cm_name ` set (view self). m \<in> reachable \<and> co_coordinatorName (view m) = Some self
        \<and> good_report \<lparr>or_node = m, or_partitions = held m\<rparr> \<and> good_node n m (ns m) \<and> co_maxVersion (ns m) < MAX_U64)"

lemma coordinator_listed: "co_coordinatorName ms = Some m \<Longrightarrow> m \<in> cm_name ` set ms"
  by (auto simp: co_coordinatorName_def split: list.splits)

lemma pushed_result:
  assumes "good_table n t" and "n \<le> MAX_WIRE_PARTITIONS"
  obtains bs where "co_push t ms held co = Inr \<lparr>ps_frame = bs, ps_targets = filter (\<lambda>k. k \<noteq> co_self co) (map cm_name ms),
      ps_report = co_localReport held co\<rparr>"
    and "decodeMessage bs = Some (Table (rt_toWire t))" and "rt_fromWire (rt_toWire t) = Inr t"
proof -
  obtain bs where "encodeMessage (Table (rt_toWire t)) = Some bs" "decodeMessage bs = Some (Table (rt_toWire t))"
    "rt_fromWire (rt_toWire t) = Inr t" using table_frame [OF assms] .
  then show thesis by (intro that [of bs]) (simp_all add: co_push_def co_encode_def)
qed

lemma after_push_max:
  "good_node n m co \<Longrightarrow> 0 \<le> rt_version t \<Longrightarrow> co_table (after_push t co) = Some own \<Longrightarrow> co_maxVersion co \<le> rt_version own"
  by (auto simp: after_push_def good_node_def split: if_splits option.splits)

lemma exchange_result:
  assumes "good_table n t" and "decodeMessage frame = Some (Table (rt_toWire t))" and "rt_fromWire (rt_toWire t) = Inr t"
    and "distinct (map cm_name ms)"
    and "\<forall>m \<in> cm_name ` set ms. m \<in> reachable \<and> co_coordinatorName (view m) = Some self \<and> good_report \<lparr>or_node = m, or_partitions = held m\<rparr>"
    and "\<forall>m \<in> cm_name ` set ms. m \<noteq> self \<longrightarrow> good_node n m (ns m)"
  obtains responses gathered learned where
    "co_requests view held reachable self frame (filter (\<lambda>k. k \<noteq> self) (map cm_name ms)) ns
       = (responses, \<lambda>m. if m \<in> cm_name ` set ms \<and> m \<noteq> self then after_push t (ns m) else ns m)"
    and "co_collect responses [rep] None = Inr (gathered, learned)"
    and "learned_from t {m \<in> cm_name ` set ms. m \<noteq> self} ns None learned"
proof -
  let ?targets = "filter (\<lambda>k. k \<noteq> self) (map cm_name ms)"
  have set: "set ?targets = {m \<in> cm_name ` set ms. m \<noteq> self}" by auto
  obtain responses where "co_requests view held reachable self frame ?targets ns
        = (responses, \<lambda>m. if m \<in> set ?targets then after_push t (ns m) else ns m)"
      "\<forall>g l. \<exists>g' l'. co_collect responses g l = Inr (g', l') \<and> learned_from t (set ?targets) ns l l'"
    using requests_result [OF assms(1-3), of ?targets reachable view self held ns] assms(4-6) by auto
  then show thesis using that unfolding set mem_Collect_eq by blast
qed

lemma learned_bounds:
  assumes "learned_from t {m \<in> M. m \<noteq> self} ns None (Some L)" and "m \<in> M" and "m \<noteq> self"
    and "co_table (after_push t (ns m)) = Some x"
  shows "rt_version x \<le> rt_version L"
  using assms unfolding learned_from_def by fastforce

lemma learned_some:
  assumes "learned_from t {m \<in> M. m \<noteq> self} ns None (Some L)"
  obtains m where "m \<in> M" and "m \<noteq> self" and "co_table (ns m) = Some L" and "rt_version t \<le> rt_version L"
  using assms unfolding learned_from_def by blast

lemma learned_none:
  "learned_from t {m \<in> M. m \<noteq> self} ns None None \<Longrightarrow> m \<in> M \<Longrightarrow> m \<noteq> self \<Longrightarrow> co_table (after_push t (ns m)) = Some t"
  unfolding learned_from_def by blast

text \<open>The tables of the members after a quiet rebalance whose last push was of \<open>t\<close>.\<close>

definition agreed :: "jsstr set \<Rightarrow> jsstr \<Rightarrow> coordinators \<Rightarrow> coordinators \<Rightarrow> RoutingTable \<Rightarrow> bool" where
  "agreed M self ns ns' t \<longleftrightarrow> co_table (ns' self) = Some t \<and>
     (\<forall>m \<in> M. \<exists>x. co_table (ns' m) = Some x \<and> rt_version x = rt_version t) \<and>
     (\<forall>m \<in> M. co_maxVersion (ns m) \<le> rt_version t) \<and>
     ((\<forall>m \<in> M. co_maxVersion (ns m) < rt_version t) \<longrightarrow> (\<forall>m \<in> M. co_table (ns' m) = Some t))"

lemma agreed_at_once:
  assumes "\<forall>m \<in> M. good_node n m (ns m)" and "0 \<le> rt_version t" and "self \<in> M" and "co_maxVersion (ns self) \<le> rt_version t"
    and "learned_from t {m \<in> M. m \<noteq> self} ns None None" and "co_table (ns' self) = Some t"
    and "\<And>m. m \<in> M \<Longrightarrow> m \<noteq> self \<Longrightarrow> ns' m = after_push t (ns m)"
  shows "agreed M self ns ns' t"
proof -
  have t: "co_table (after_push t (ns m)) = Some t" if "m \<in> M" "m \<noteq> self" for m using learned_none [OF assms(5) that] that by simp
  have "co_maxVersion (ns m) \<le> rt_version t" if "m \<in> M" for m
    using after_push_max [OF _ assms(2) t, of n m] assms(1,4) that by (cases "m = self") auto
  moreover have "co_table (ns' m) = Some t" if "m \<in> M" for m using t assms(6,7) that by (cases "m = self") auto
  ultimately show ?thesis using assms(6) unfolding agreed_def by blast
qed

lemma agreed_after_catch_up:
  assumes good: "\<forall>m \<in> M. good_node n m (ns m)" and t: "0 \<le> rt_version t" and self: "self \<in> M" "co_maxVersion (ns self) \<le> rt_version t"
    and L: "learned_from t {m \<in> M. m \<noteq> self} ns None (Some L)"
    and u: "u = L \<or> rt_version u = rt_version L + 1" and me: "co_table (ns' self) = Some u"
    and rest: "\<And>m. m \<in> M \<Longrightarrow> m \<noteq> self \<Longrightarrow> ns' m = after_push u (after_push t (ns m))"
  shows "agreed M self ns ns' u"
proof -
  obtain k where k: "k \<in> M" "k \<noteq> self" "co_table (ns k) = Some L" "rt_version t \<le> rt_version L"
    using learned_some [OF L] by auto
  have le: "rt_version x \<le> rt_version L" if "m \<in> M" "m \<noteq> self" "co_table (after_push t (ns m)) = Some x" for m x
    using learned_bounds [OF L that(1,2)] that by simp
  have max: "co_maxVersion (ns m) \<le> rt_version L" if "m \<in> M" for m
  proof (cases "m = self")
    case False
    obtain x where "co_table (after_push t (ns m)) = Some x" using after_push_table by blast
    then show ?thesis using after_push_max [OF _ t] good le that False by fastforce
  qed (use self(2) k(4) in simp)
  have fresh: "co_table (ns' m) = Some u" if m: "m \<in> M" "rt_version u = rt_version L + 1" for m
  proof (cases "m = self")
    case False
    obtain x where "co_table (after_push t (ns m)) = Some x" "rt_version x \<le> rt_version L"
      using after_push_table [of t "ns m"] le m(1) False by blast
    then show ?thesis using rest [OF m(1) False] m(2) by (simp add: after_push_def [of u])
  qed (use me in simp)
  have "\<exists>x. co_table (ns' m) = Some x \<and> rt_version x = rt_version u" if m: "m \<in> M" for m
  proof (cases "m = self")
    case False
    obtain x where x: "co_table (after_push t (ns m)) = Some x" "rt_version x \<le> rt_version L"
      using after_push_table [of t "ns m"] le m False by blast
    then show ?thesis using rest [OF m False] u by (auto simp: after_push_def [of u])
  qed (use me in simp)
  moreover have "\<not> (\<forall>m \<in> M. co_maxVersion (ns m) < rt_version L)"
    using k(1,3) good by (fastforce simp: good_node_def)
  ultimately show ?thesis using me max fresh u unfolding agreed_def by fastforce
qed

text \<open>Recomputing, pushing and gathering the answers, which a rebalance does once or twice.\<close>

lemma round_result:
  assumes ms: "good_members ms" and me: "good_node n self (ns self)" "co_maxVersion (ns self) < MAX_U64"
    and all: "\<forall>m \<in> cm_name ` set ms. m \<in> reachable \<and> co_coordinatorName (view m) = Some self \<and> good_report \<lparr>or_node = m, or_partitions = held m\<rparr>"
    and others: "\<forall>m \<in> cm_name ` set ms. m \<noteq> self \<longrightarrow> good_node n m (ns m)"
  obtains t push responses g l where
    "co_recompute fl ms (ns self) = (Inr t, (ns self)\<lparr>co_table := Some t, co_maxVersion := rt_version t\<rparr>)"
    and "co_push t ms (held self) ((ns self)\<lparr>co_table := Some t, co_maxVersion := rt_version t\<rparr>) = Inr push"
    and "co_requests view held reachable self (ps_frame push) (ps_targets push)
        (ns(self := (ns self)\<lparr>co_table := Some t, co_maxVersion := rt_version t\<rparr>))
      = (responses, \<lambda>m. if m \<in> cm_name ` set ms \<and> m \<noteq> self then after_push t (ns m)
           else (ns(self := (ns self)\<lparr>co_table := Some t, co_maxVersion := rt_version t\<rparr>)) m)"
    and "\<forall>c. co_pushed push responses c = (Inr l, c\<lparr>co_reports := g\<rparr>)"
    and "learned_from t {m \<in> cm_name ` set ms. m \<noteq> self} ns None l"
    and "good_table n t" and "co_table (ns self) = Some t \<or> rt_version t = co_maxVersion (ns self) + 1"
proof -
  let ?c = "\<lambda>t. (ns self)\<lparr>co_table := Some t, co_maxVersion := rt_version t\<rparr>" and ?M = "cm_name ` set ms"
  have dist: "distinct (map cm_name ms)" using ms by (simp add: good_members_def)
  have n: "n \<le> MAX_WIRE_PARTITIONS" "co_self (ns self) = self" using me(1) by (auto simp: good_node_def)
  obtain t where t: "co_recompute fl ms (ns self) = (Inr t, ?c t)"
    "good_table n t" "co_table (ns self) = Some t \<or> rt_version t = co_maxVersion (ns self) + 1"
    using recompute_result [OF ms me] .
  obtain bs where bs: "co_push t ms (held self) (?c t) = Inr \<lparr>ps_frame = bs, ps_targets = filter (\<lambda>k. k \<noteq> self) (map cm_name ms),
      ps_report = co_localReport (held self) (?c t)\<rparr>"
    "decodeMessage bs = Some (Table (rt_toWire t))" "rt_fromWire (rt_toWire t) = Inr t"
    using pushed_result [OF t(2) n(1), of ms "held self" "?c t"] n(2) by auto
  let ?ns = "ns(self := ?c t)" and ?rep = "co_localReport (held self) (?c t)"
  have others': "\<forall>m \<in> ?M. m \<noteq> self \<longrightarrow> good_node n m (?ns m)" using others by simp
  obtain responses g l where ex: "co_requests view held reachable self bs (filter (\<lambda>k. k \<noteq> self) (map cm_name ms)) ?ns
       = (responses, \<lambda>m. if m \<in> ?M \<and> m \<noteq> self then after_push t (?ns m) else ?ns m)"
    "co_collect responses [?rep] None = Inr (g, l)" "learned_from t {m \<in> ?M. m \<noteq> self} ?ns None l"
    using exchange_result [OF t(2) bs(2,3) dist all others', where rep = ?rep] .
  have learned: "learned_from t {m \<in> ?M. m \<noteq> self} ns None l"
    using ex(3) learned_from_cong [of "{m \<in> ?M. m \<noteq> self}" ?ns ns t None l] by simp
  show thesis
    by (rule that [OF t(1) bs(1) _ _ learned t(2,3), where responses = responses and g = g])
      (use ex(1,2) in \<open>auto simp: co_pushed_def fun_eq_iff\<close>)
qed

lemma quiet_rebalance:
  assumes q: "quiet_cluster n view held reachable self ns"
  shows "\<exists>ns' t. co_rebalance fl view held reachable self ns = (Inr (), ns')
    \<and> agreed (cm_name ` set (view self)) self ns ns' t"
proof -
  let ?ms = "view self" and ?M = "cm_name ` set (view self)"
  have ms: "good_members ?ms" and lead: "co_coordinatorName ?ms = Some self"
    and all: "\<forall>m \<in> ?M. m \<in> reachable \<and> co_coordinatorName (view m) = Some self \<and> good_report \<lparr>or_node = m, or_partitions = held m\<rparr>"
    and good: "\<forall>m \<in> ?M. good_node n m (ns m)" and bound: "\<forall>m \<in> ?M. co_maxVersion (ns m) < MAX_U64"
    using q unfolding quiet_cluster_def by blast+
  have self: "self \<in> ?M" using coordinator_listed [OF lead] .
  have me: "good_node n self (ns self)" "co_self (ns self) = self" "n \<le> MAX_WIRE_PARTITIONS" "co_maxVersion (ns self) < MAX_U64"
    using good bound self by (auto simp: good_node_def)
  have others: "\<forall>m \<in> ?M. m \<noteq> self \<longrightarrow> good_node n m (ns m)" using good by blast
  obtain t push responses g l where one: "co_recompute fl ?ms (ns self) = (Inr t, (ns self)\<lparr>co_table := Some t, co_maxVersion := rt_version t\<rparr>)"
    "co_push t ?ms (held self) ((ns self)\<lparr>co_table := Some t, co_maxVersion := rt_version t\<rparr>) = Inr push"
    "co_requests view held reachable self (ps_frame push) (ps_targets push)
        (ns(self := (ns self)\<lparr>co_table := Some t, co_maxVersion := rt_version t\<rparr>))
      = (responses, \<lambda>m. if m \<in> ?M \<and> m \<noteq> self then after_push t (ns m)
           else (ns(self := (ns self)\<lparr>co_table := Some t, co_maxVersion := rt_version t\<rparr>)) m)"
    "\<forall>c. co_pushed push responses c = (Inr l, c\<lparr>co_reports := g\<rparr>)"
    "learned_from t {m \<in> ?M. m \<noteq> self} ns None l"
    "good_table n t" "co_table (ns self) = Some t \<or> rt_version t = co_maxVersion (ns self) + 1"
    using round_result [OF ms me(1,4) all others, where fl = fl] .
  define c where "c = (ns self)\<lparr>co_table := Some t, co_maxVersion := rt_version t\<rparr>"
  define mid where "mid = (\<lambda>m. if m \<in> ?M \<and> m \<noteq> self then after_push t (ns m) else (ns(self := c)) m)"
  have v: "0 \<le> rt_version t" "co_maxVersion (ns self) \<le> rt_version t" using one(6,7) me(1) by (auto simp: good_table_def good_node_def)
  have start: "co_begin fl ?ms (held self) (ns self) = (Inr (Some push), c)"
    using lead me(2) one(1,2) by (simp add: co_begin_def co_isCoordinator_def c_def)
  have asked: "co_requests view held reachable self (ps_frame push) (ps_targets push) (ns(self := c)) = (responses, mid)"
    using one(3) unfolding mid_def c_def .
  have mid_self: "mid self = c" by (simp add: mid_def)
  show ?thesis
  proof (cases l)
    case None
    have "co_rebalance fl view held reachable self ns = (Inr (), mid(self := c\<lparr>co_reports := g\<rparr>))"
      using start asked mid_self one(4) None by (simp add: co_rebalance_def co_continue_def)
    moreover have "agreed ?M self ns (mid(self := c\<lparr>co_reports := g\<rparr>)) t"
      by (rule agreed_at_once [OF good v(1) self v(2)]) (use one(5) None in \<open>simp_all add: c_def mid_def\<close>)
    ultimately show ?thesis by blast
  next
    case (Some L)
    let ?d = "c\<lparr>co_reports := g, co_table := Some L, co_maxVersion := rt_version L\<rparr>"
    have learned: "learned_from t {m \<in> ?M. m \<noteq> self} ns None (Some L)" using one(5) Some by simp
    obtain k where k: "k \<in> ?M" "k \<noteq> self" "co_table (ns k) = Some L" using learned_some [OF learned] by blast
    have "good_node n k (ns k)" "co_maxVersion (ns k) < MAX_U64" using good bound k(1) by blast+
    then have L: "good_table n L" "rt_version L < MAX_U64" using k(3) by (simp_all add: good_node_def)
    let ?mid = "mid(self := ?d)"
    have me2: "good_node n self (?mid self)" "co_maxVersion (?mid self) < MAX_U64"
      using me(1) L by (simp_all add: good_node_def c_def)
    have others2: "\<forall>m \<in> ?M. m \<noteq> self \<longrightarrow> good_node n m (?mid m)" using good after_push_good one(6) by (simp add: mid_def)
    obtain u push2 responses2 g2 l2 where two: "co_recompute fl ?ms (?mid self) = (Inr u, (?mid self)\<lparr>co_table := Some u, co_maxVersion := rt_version u\<rparr>)"
      "co_push u ?ms (held self) ((?mid self)\<lparr>co_table := Some u, co_maxVersion := rt_version u\<rparr>) = Inr push2"
      "co_requests view held reachable self (ps_frame push2) (ps_targets push2)
          (?mid(self := (?mid self)\<lparr>co_table := Some u, co_maxVersion := rt_version u\<rparr>))
        = (responses2, \<lambda>m. if m \<in> ?M \<and> m \<noteq> self then after_push u (?mid m)
           else (?mid(self := (?mid self)\<lparr>co_table := Some u, co_maxVersion := rt_version u\<rparr>)) m)"
      "\<forall>c. co_pushed push2 responses2 c = (Inr l2, c\<lparr>co_reports := g2\<rparr>)"
      "learned_from u {m \<in> ?M. m \<noteq> self} ?mid None l2"
      "good_table n u" "co_table (?mid self) = Some u \<or> rt_version u = co_maxVersion (?mid self) + 1"
      using round_result [OF ms me2 all others2, where fl = fl] .
    let ?e = "?d\<lparr>co_table := Some u, co_maxVersion := rt_version u\<rparr>"
    define final where "final = (\<lambda>m. if m \<in> ?M \<and> m \<noteq> self then after_push u (?mid m) else (?mid(self := ?e)) m)"
    have asked2: "co_requests view held reachable self (ps_frame push2) (ps_targets push2) (mid(self := ?e)) = (responses2, final)"
      using two(3) unfolding final_def fun_upd_same fun_upd_upd .
    have final_self: "final self = ?e" by (simp add: final_def)
    have "co_rebalance fl view held reachable self ns = (Inr (), final(self := ?e\<lparr>co_reports := g2\<rparr>))"
      using start asked mid_self asked2 final_self one(4) two(1,2,4) Some by (simp add: co_rebalance_def co_continue_def co_finish_def)
    moreover have "agreed ?M self ns (final(self := ?e\<lparr>co_reports := g2\<rparr>)) u"
      by (rule agreed_after_catch_up [OF good v(1) self v(2), where L = L])
        (use learned two(7) in \<open>auto simp: final_def mid_def\<close>)
    ultimately show ?thesis by blast
  qed
qed

section \<open>Too many owners\<close>

definition ring_of :: "(rat \<Rightarrow> rat) \<Rightarrow> ClusterMember list \<Rightarrow> int \<Rightarrow> RangeError + PartitionRing" where
  "ring_of fl ms n = pr_new fl
     (let assignable = map cm_name (filter (\<lambda>m. \<not> cm_draining m) ms)
      in if length assignable > 0 then assignable else firsts (map cm_name ms)) n"

text \<open>
  The owners of partition \<open>p\<close> that the next table keeps beside its primary are at least
  as many as the codec admits in all.
\<close>

definition overlong :: "PartitionRing \<Rightarrow> ClusterMember list \<Rightarrow> nat \<Rightarrow> Coordinator \<Rightarrow> bool" where
  "overlong ring ms p co \<longleftrightarrow> (\<exists>t. co_table co = Some t \<and> rt_partitionCount t = pr_partitionCount ring \<and> p < rt_partitionCount t
     \<and> MAX_OWNERS_PER_PARTITION \<le> length (filter (\<lambda>w. w \<noteq> pr_primaries ring ! p \<and> w \<in> cm_name ` set ms
          \<and> \<not> reported_drained (co_reports co) w p) (rt_table t ! p)))"

lemma write_all_refused: "x \<in> set xs \<Longrightarrow> \<forall>w. wr x w = None \<Longrightarrow> write_all wr xs w = None"
proof (induction xs arbitrary: w)
  case (Cons y xs)
  then show ?case by (cases "wr y w") auto
qed simp

lemma overlong_refused:
  assumes "p < rt_partitionCount t" and "MAX_OWNERS_PER_PARTITION < length (rt_table t ! p)"
  shows "co_encode (Table (rt_toWire t)) = Inl ProtocolFault"
proof -
  have "writeOwners (rt_table t ! p) w = None" for w using assms(2) by (simp add: writeOwners_def)
  then have "write_all writeOwners (rt_table t) w = None" for w
    using write_all_refused [of "rt_table t ! p" "rt_table t" writeOwners] assms(1) by (simp add: rt_partitionCount_def)
  then have "writeTable (rt_toWire t) w = None" for w
    by (simp add: writeTable_def rt_toWire_def assertU64_def bind_eq_None_conv)
  then show ?thesis by (simp add: co_encode_def encodeMessage_def writeEnvelope_def)
qed

lemma overlong_stalls:
  assumes lead: "co_isCoordinator ms co" and ring: "ring_of fl ms (co_partitionCount co) = Inr ring"
    and count: "int (pr_partitionCount ring) = co_partitionCount co" "pr_partitionCount ring \<le> MAX_WIRE_PARTITIONS"
    and v: "0 \<le> co_maxVersion co" and over: "overlong ring ms p co" and run: "co_begin fl ms held co = (res, co')"
  shows "res = Inl ProtocolFault \<and> overlong ring ms p co' \<and> co_reports co' = co_reports co \<and> co_isCoordinator ms co'
    \<and> co_partitionCount co' = co_partitionCount co \<and> 0 \<le> co_maxVersion co'"
proof -
  obtain t where t: "co_table co = Some t" "rt_partitionCount t = pr_partitionCount ring" "p < rt_partitionCount t"
    and long: "MAX_OWNERS_PER_PARTITION \<le> length (filter (\<lambda>w. w \<noteq> pr_primaries ring ! p \<and> w \<in> cm_name ` set ms
          \<and> \<not> reported_drained (co_reports co) w p) (rt_table t ! p))" (is "_ \<le> length (filter ?P _)")
    using over unfolding overlong_def by blast
  let ?n = "pr_partitionCount ring"
  define u where "u = \<lparr>rt_version = co_maxVersion co + 1,
    rt_table = map (evolved_owners (Some t) ring (co_reports co) (cm_name ` set ms)) [0..<?n]\<rparr>"
  have new: "pr_new fl (if length (map cm_name (filter (\<lambda>m. \<not> cm_draining m) ms)) > 0 then map cm_name (filter (\<lambda>m. \<not> cm_draining m) ms)
      else firsts (map cm_name ms)) (int ?n) = Inr ring" using ring count(1) by (simp add: ring_of_def Let_def)
  have ev: "rt_evolve (Some t) ring (co_reports co) (co_maxVersion co + 1) (set (firsts (map cm_name ms))) = Inr u"
    using evolve_result [OF new count(2), of "co_maxVersion co + 1" "Some t"] v t(2) by (simp add: u_def)
  have same: "sameOwners t u = Inr (rt_table t = rt_table u)"
    using sameOwners_eq [of t ?n u] t(2) count(2) by (simp add: u_def rt_partitionCount_def)
  have u: "rt_table u ! p = filter ?P (rt_table t ! p) @ [pr_primaries ring ! p]" "p < rt_partitionCount u" "rt_partitionCount u = ?n"
    using t(2,3) by (simp_all add: u_def evolved_owners_def rt_partitionCount_def)
  have re: "co_recompute fl ms co = (if rt_table t = rt_table u then (Inr t, co)
      else (Inr u, co\<lparr>co_table := Some u, co_maxVersion := rt_version u\<rparr>))"
    unfolding co_recompute_def Let_def count(1) [symmetric] new sum.case t(1) ev option.case same
    by simp
  have refused: "co_encode (Table (rt_toWire x)) = Inl ProtocolFault" if "rt_table x = rt_table u" for x
    using overlong_refused [of p x] long u that by (simp add: rt_partitionCount_def)
  have "overlong ring ms p (co\<lparr>co_table := Some u, co_maxVersion := rt_version u\<rparr>)"
    unfolding overlong_def using long u t(2,3) by (simp add: filter_empty_conv)
  then show ?thesis using run re refused [of t] refused [of u] over lead v
    by (auto simp: co_begin_def co_push_def co_isCoordinator_def u_def split: if_splits)
qed

lemma ring_of_count:
  "ring_of fl ms n = Inr ring \<Longrightarrow> int (pr_partitionCount ring) = n"
  using primaries_members(2) by (fastforce simp: ring_of_def pr_partitionCount_def pr_new_Inr)

lemma overlong_stalls_forever:
  assumes "ring_of fl ms n = Inr ring" and "n \<le> int MAX_WIRE_PARTITIONS"
  shows "co_isCoordinator ms co \<Longrightarrow> co_partitionCount co = n \<Longrightarrow> 0 \<le> co_maxVersion co \<Longrightarrow> overlong ring ms p co \<Longrightarrow>
    fst (co_begin fl ms held (fold (\<lambda>held c. snd (co_begin fl ms held c)) helds co)) = Inl ProtocolFault
    \<and> co_reports (fold (\<lambda>held c. snd (co_begin fl ms held c)) helds co) = co_reports co"
proof (induction helds arbitrary: co)
  case Nil
  obtain res co' where run: "co_begin fl ms held co = (res, co')" by fastforce
  then show ?case using overlong_stalls [of ms co fl ring p held res co'] assms ring_of_count [OF assms(1)] Nil by auto
next
  case (Cons h helds)
  obtain res co' where run: "co_begin fl ms h co = (res, co')" by fastforce
  have "overlong ring ms p co' \<and> co_reports co' = co_reports co \<and> co_isCoordinator ms co'
    \<and> co_partitionCount co' = co_partitionCount co \<and> 0 \<le> co_maxVersion co'"
    using overlong_stalls [of ms co fl ring p h res co'] assms ring_of_count [OF assms(1)] Cons.prems run by auto
  then show ?case using Cons.IH [of co'] Cons.prems run by simp
qed

lemma recompute_bound: "co_recompute fl ms co = (res, co') \<Longrightarrow> co_maxVersion co' \<le> co_maxVersion co + 1"
proof -
  have version: "rt_version t = v" if "rt_evolve previous ring reports v live = Inr t" for previous ring reports v live t
    using that by (auto simp: rt_evolve_def rt_new_Inr Let_def split: if_splits sum.splits option.splits)
  assume "co_recompute fl ms co = (res, co')"
  then show ?thesis
    by (auto simp: co_recompute_def Let_def version split: if_splits sum.splits option.splits bool.splits)
qed

section \<open>Properties\<close>


definition sample_members :: "ClusterMember list" where
  "sample_members = map (\<lambda>name. \<lparr>cm_name = name, cm_startedAt = 0, cm_ready = True, cm_draining = False\<rparr>) [js ''a'', js ''b'']"

definition sample_coordinator :: "jsstr \<Rightarrow> Coordinator" where
  "sample_coordinator name = \<lparr>co_self = name, co_partitionCount = 1, co_table = None, co_maxVersion = 0, co_reports = []\<rparr>"

lemma sample_names: "good_name (js ''a'')" "good_name (js ''b'')" "js ''a'' \<noteq> js ''b''"
  by (simp_all add: good_name_def unmarked_def js_def encode_def utf8_bytes_def is_high_def is_low_def MAX_NAME_BYTES_def bom_def)


text \<open>
  C34. A late answer can undo a newer table: if a node that waits for the answers to its
  push adopts a newer table from the member it now believes to be the coordinator, a
  table that one of the answers reveals replaces it, and the node's version goes back.
\<close>

theorem late_answer_lowers_version:
  assumes "co_begin fl ms held co = (Inr (Some push), waiting)"
    and "co_coordinatorName ms' = Some from" and "\<forall>t. co_table waiting = Some t \<longrightarrow> rt_supersedes newer t"
    and "co_handleTable ms' held' from newer waiting = (report, adopted)"
    and "decodeReport bs = None" and "decodeTable bs = Inr (Some revealed)" and "rt_version revealed + 1 < rt_version newer"
    and "co_continue fl ms held push [Some bs] adopted = (res, after)"
  shows "co_table adopted = Some newer \<and> co_maxVersion adopted = rt_version newer \<and> co_maxVersion after < co_maxVersion adopted"
proof -
  have adopted: "adopted = waiting\<lparr>co_table := Some newer, co_maxVersion := rt_version newer\<rparr>"
    using assms(2-4) by (auto simp: co_handleTable_def Let_def split: option.splits)
  let ?co = "adopted\<lparr>co_reports := [ps_report push], co_table := Some revealed, co_maxVersion := rt_version revealed\<rparr>"
  obtain r c where re: "co_recompute fl ms ?co = (r, c)" by fastforce
  have "after = c" using assms(5,6,8) re by (auto simp: co_continue_def co_pushed_def Let_def split: sum.splits)
  then show ?thesis using recompute_bound [OF re] adopted assms(7) by simp
qed

theorem late_answer_lowers_version_witness:
  "\<exists>push waiting adopted bs res after. co_begin (\<lambda>x. x) sample_members [] (sample_coordinator (js ''a'')) = (Inr (Some push), waiting)
    \<and> co_handleTable (rev sample_members) [] (js ''b'') \<lparr>rt_version = 9, rt_table = [[js ''b'']]\<rparr> waiting
        = (\<lparr>or_node = js ''a'', or_partitions = []\<rparr>, adopted)
    \<and> co_continue (\<lambda>x. x) sample_members [] push [Some bs] adopted = (res, after) \<and> co_maxVersion after < co_maxVersion adopted"
proof -
  let ?ms = "sample_members" and ?co = "sample_coordinator (js ''a'')" and ?newer = "\<lparr>rt_version = 9, rt_table = [[js ''b'']]\<rparr>"
  let ?old = "\<lparr>rt_version = 1, rt_table = [[js ''a'', js ''b'']]\<rparr>"
  have ms: "good_members ?ms" using sample_names by (auto simp: good_members_def sample_members_def wire_limits)
  have node: "good_node 1 (js ''a'') ?co" "co_maxVersion ?co < MAX_U64"
    using sample_names by (simp_all add: good_node_def sample_coordinator_def wire_limits)
  have lead: "co_isCoordinator ?ms ?co" by (simp add: co_isCoordinator_def co_coordinatorName_def sample_members_def sample_coordinator_def)
  obtain t where t: "co_recompute (\<lambda>x. x) ?ms ?co = (Inr t, ?co\<lparr>co_table := Some t, co_maxVersion := rt_version t\<rparr>)"
    "good_table 1 t" "co_table ?co = Some t \<or> rt_version t = co_maxVersion ?co + 1" using recompute_result [OF ms node] .
  let ?waiting = "?co\<lparr>co_table := Some t, co_maxVersion := rt_version t\<rparr>"
  have one: "(1::nat) \<le> MAX_WIRE_PARTITIONS" by (simp add: wire_limits)
  obtain fs where fs: "co_push t ?ms [] ?waiting = Inr \<lparr>ps_frame = fs, ps_targets = filter (\<lambda>k. k \<noteq> co_self ?waiting) (map cm_name ?ms),
      ps_report = co_localReport [] ?waiting\<rparr>" using pushed_result [OF t(2) one] by blast
  obtain push where push: "co_begin (\<lambda>x. x) ?ms [] ?co = (Inr (Some push), ?waiting)"
    using lead t(1) fs by (simp add: co_begin_def)
  have v: "rt_version t = 1" using t(3) by (simp add: sample_coordinator_def)
  have sender: "co_coordinatorName (rev ?ms) = Some (js ''b'')" by (simp add: co_coordinatorName_def sample_members_def)
  obtain adopted where adopted: "co_handleTable (rev ?ms) [] (js ''b'') ?newer ?waiting = (\<lparr>or_node = js ''a'', or_partitions = []\<rparr>, adopted)"
    by (simp add: co_handleTable_def co_localReport_def Let_def sample_coordinator_def)
  have "good_table 1 ?old" using sample_names by (simp add: good_table_def rt_partitionCount_def wire_limits)
  then obtain bs where bs: "decodeMessage bs = Some (Table (rt_toWire ?old))" "rt_fromWire (rt_toWire ?old) = Inr ?old"
    using table_frame [OF _ one] by blast
  then have answer: "decodeReport bs = None" "decodeTable bs = Inr (Some ?old)" by (simp_all add: decodeReport_def decodeTable_def)
  obtain res after where cont: "co_continue (\<lambda>x. x) ?ms [] push [Some bs] adopted = (res, after)" by fastforce
  have "co_maxVersion after < co_maxVersion adopted"
    using late_answer_lowers_version [OF push sender _ adopted answer _ cont] v by (simp add: rt_supersedes_def)
  then show ?thesis using push adopted cont by blast
qed

text \<open>
  C35. A partition with too many owners stalls the coordinator: once the owners that the
  next table keeps fill the codec's limit, every rebalance over the same members throws
  while it encodes the table, before it asks any member for a report, so the reports
  that could shorten the list are never gathered.
\<close>

theorem overlong_owners_stall_rebalance:
  assumes "ring_of fl ms n = Inr ring" and "n \<le> int MAX_WIRE_PARTITIONS" and "co_isCoordinator ms co"
    and "co_partitionCount co = n" and "0 \<le> co_maxVersion co" and "overlong ring ms p co"
  shows "fst (co_begin fl ms held (fold (\<lambda>held c. snd (co_begin fl ms held c)) helds co)) = Inl ProtocolFault
    \<and> co_reports (fold (\<lambda>held c. snd (co_begin fl ms held c)) helds co) = co_reports co"
  by (rule overlong_stalls_forever [OF assms(1-6)])

theorem overlong_owners_stall_rebalance_witness:
  "\<exists>ms co. length ms = 18 \<and> co_isCoordinator ms co \<and> co_partitionCount co = 1 \<and>
     fst (co_begin (\<lambda>x. x) ms [] (snd (co_begin (\<lambda>x. x) ms [] co))) = Inl ProtocolFault"
proof -
  let ?names = "map (\<lambda>k. replicate (Suc k) (97 :: 16 word)) [0..<18]"
  let ?ms = "map (\<lambda>name. \<lparr>cm_name = name, cm_startedAt = 0, cm_ready = True, cm_draining = False\<rparr>) ?names"
  let ?co = "\<lparr>co_self = [97], co_partitionCount = 1, co_table = Some \<lparr>rt_version = 3, rt_table = [?names]\<rparr>, co_maxVersion = 3, co_reports = []\<rparr>"
  have names: "map cm_name ?ms = ?names" "filter (\<lambda>m. \<not> cm_draining m) ?ms = ?ms" by (simp_all add: comp_def filter_True)
  have mem: "cm_name ` set ?ms = set ?names" using arg_cong [OF names(1), of set] unfolding set_map [of cm_name] .
  have dist: "distinct ?names" by (auto simp: distinct_map inj_on_def)
  have "\<exists>ring. pr_new (\<lambda>x. x) ?names 1 = Inr ring" using dist by (subst pr_new_Inr) (auto simp: isSafeInteger_def)
  then obtain ring where ring: "pr_new (\<lambda>x. x) ?names 1 = Inr ring" ..
  have ringed: "ring_of (\<lambda>x. x) ?ms 1 = Inr ring" unfolding ring_of_def names Let_def using ring by simp
  have count: "pr_partitionCount ring = 1" using ring_of_count [OF ringed] by simp
  have "length (filter (\<lambda>w. w \<noteq> m) ?names) \<ge> 17" for m
  proof -
    have "length (filter (\<lambda>w. w \<noteq> m) ?names) = card (set ?names - {m})"
      using dist distinct_card [of "filter (\<lambda>w. w \<noteq> m) ?names"] by (simp add: set_diff_eq del: set_map) 
    moreover have "card (set ?names) = 18" using distinct_card [OF dist] by simp
    ultimately show ?thesis using card_Diff_singleton_if [of "set ?names" m] by simp
  qed
  moreover have "filter (\<lambda>w. w \<noteq> m \<and> w \<in> cm_name ` set ?ms \<and> \<not> reported_drained [] w 0) ?names = filter (\<lambda>w. w \<noteq> m) ?names" for m
    unfolding mem by (rule filter_cong) (simp_all add: reported_drained_def)
  ultimately have "MAX_OWNERS_PER_PARTITION \<le> length (filter (\<lambda>w. w \<noteq> pr_primaries ring ! 0 \<and> w \<in> cm_name ` set ?ms
      \<and> \<not> reported_drained [] w 0) ?names)" by (simp only: wire_limits) (rule order.trans [of _ 17], simp_all only: numeral_le_iff semiring_norm)
  then have over: "overlong ring ?ms 0 ?co" unfolding overlong_def
    by (intro exI [of _ "\<lparr>rt_version = 3, rt_table = [?names]\<rparr>"]) (simp add: count rt_partitionCount_def del: upt_Suc set_map)
  have lead: "co_isCoordinator ?ms ?co" by (simp add: co_isCoordinator_def co_coordinatorName_def upt_rec)
  have "fst (co_begin (\<lambda>x. x) ?ms [] (fold (\<lambda>held c. snd (co_begin (\<lambda>x. x) ?ms held c)) [[]] ?co)) = Inl ProtocolFault"
    using overlong_owners_stall_rebalance [OF ringed _ lead _ _ over, of "[]" "[[]]"] by (simp add: wire_limits)
  then show ?thesis using lead by (intro exI [of _ ?ms] exI [of _ ?co]) simp
qed

end
