(* ===== verification/ClusterView.thy ===== *)
theory ClusterView
  imports MembershipWire Coordinator "HOL-Library.Log_Nat"
begin

text \<open>
  The store's view of the cluster over the membership table: the record each node carries
  in its membership metadata, \<open>src/clustering.metadata.ts\<close>, and the adapter that turns
  membership records into the store's members, \<open>src/clustering.view.ts\<close>.

  The theory shows the round trip of the metadata record, that the member list and with
  it the coordinator depend only on which records are present, and that a suspected
  member drops out of the list without any event, because a suspect truth carries no
  metadata.
\<close>

section \<open>Node metadata\<close>

record NodeMetadata =
  nm_startedAt :: int
  nm_ready :: bool
  nm_draining :: bool
  nm_address :: jsstr

definition STARTED_AT_OFFSET :: nat where "STARTED_AT_OFFSET = 0"
definition READY_OFFSET :: nat where "READY_OFFSET = 8"
definition DRAINING_OFFSET :: nat where "DRAINING_OFFSET = 9"
definition ADDRESS_LENGTH_OFFSET :: nat where "ADDRESS_LENGTH_OFFSET = 10"
definition ADDRESS_OFFSET :: nat where "ADDRESS_OFFSET = 12"
definition MAX_ADDRESS_BYTES :: nat where "MAX_ADDRESS_BYTES = 255"
definition REMOTING_LENGTH_SIZE :: nat where "REMOTING_LENGTH_SIZE = 2"

lemmas offsets = STARTED_AT_OFFSET_def READY_OFFSET_def DRAINING_OFFSET_def ADDRESS_LENGTH_OFFSET_def ADDRESS_OFFSET_def
  MAX_ADDRESS_BYTES_def REMOTING_LENGTH_SIZE_def MAX_METADATA_BYTES_def

text \<open>\<open>Number\<close> of a \<open>bigint\<close>: the nearest double, ties to even.\<close>

definition number_of_bigint :: "nat \<Rightarrow> nat" where
  "number_of_bigint n =
     (let k = floorlog 2 n - 53; q = n div 2 ^ k; r = n mod 2 ^ k
      in if 2 * r > 2 ^ k \<or> (2 * r = 2 ^ k \<and> odd q) then (q + 1) * 2 ^ k else q * 2 ^ k)"

definition UNDECODABLE :: NodeMetadata where
  "UNDECODABLE = \<lparr>nm_startedAt = 2 ^ 53 - 1, nm_ready = False, nm_draining = False, nm_address = []\<rparr>"

definition get_uint16 :: "nat \<Rightarrow> bytes \<Rightarrow> nat" where
  "get_uint16 offset bs = get_be (take 2 (drop offset bs))"

definition encodeNodeMetadata :: "NodeMetadata \<Rightarrow> RangeError + bytes" where
  "encodeNodeMetadata metadata =
     (if \<not> isSafeInteger (nm_startedAt metadata) \<or> nm_startedAt metadata < 0 then Inl RangeError
      else if length (encode (nm_address metadata)) > MAX_ADDRESS_BYTES then Inl RangeError
      else Inr (put_be 8 (nat (nm_startedAt metadata))
                @ [if nm_ready metadata then 1 else 0] @ [if nm_draining metadata then 1 else 0]
                @ put_be 2 (length (encode (nm_address metadata))) @ encode (nm_address metadata)))"

definition decodeNodeMetadata :: "bytes \<Rightarrow> NodeMetadata" where
  "decodeNodeMetadata bs =
     (if length bs < ADDRESS_OFFSET then UNDECODABLE
      else
        let addressLength = get_uint16 ADDRESS_LENGTH_OFFSET bs in
        if length bs < ADDRESS_OFFSET + addressLength then UNDECODABLE
        else \<lparr>nm_startedAt = int (number_of_bigint (get_be (take 8 (drop STARTED_AT_OFFSET bs)))),
              nm_ready = (bs ! READY_OFFSET \<noteq> 0), nm_draining = (bs ! DRAINING_OFFSET \<noteq> 0),
              nm_address = text_decode_lossy (take addressLength (drop ADDRESS_OFFSET bs))\<rparr>)"

definition appendRemotingAddress :: "bytes \<Rightarrow> jsstr \<Rightarrow> RangeError + bytes" where
  "appendRemotingAddress metadata remotingAddress =
     (let addressBytes = encode remotingAddress in
      if length addressBytes = 0 then Inr metadata
      else if length metadata + REMOTING_LENGTH_SIZE + length addressBytes > MAX_METADATA_BYTES then Inl RangeError
      else Inr (metadata @ put_be 2 (length addressBytes) @ addressBytes))"

definition readRemotingAddress :: "bytes \<Rightarrow> jsstr" where
  "readRemotingAddress metadata =
     (if length metadata < ADDRESS_OFFSET then []
      else
        let fieldOffset = ADDRESS_OFFSET + get_uint16 ADDRESS_LENGTH_OFFSET metadata in
        if length metadata < fieldOffset + REMOTING_LENGTH_SIZE then []
        else
          let addressLength = get_uint16 fieldOffset metadata;
              addressStart = fieldOffset + REMOTING_LENGTH_SIZE
          in if length metadata < addressStart + addressLength then []
             else text_decode_lossy (take addressLength (drop addressStart metadata)))"

section \<open>The adapter\<close>

definition compareByAgeThenName :: "ClusterMember \<Rightarrow> ClusterMember \<Rightarrow> int" where
  "compareByAgeThenName l r =
     (if cm_startedAt l \<noteq> cm_startedAt r then cm_startedAt l - cm_startedAt r
      else if cm_name l < cm_name r then - 1 else 1)"

fun keptMembers :: "MemberRecord list \<Rightarrow> ClusterMember list" where
  "keptMembers [] = []"
| "keptMembers (record # records) =
     (if mu_state record \<noteq> STATE_ALIVE \<and> mu_state record \<noteq> STATE_SUSPECT then keptMembers records
      else
        let metadata = decodeNodeMetadata (mu_metadata record) in
        if length (nm_address metadata) = 0 then keptMembers records
        else \<lparr>cm_name = nm_address metadata, cm_startedAt = nm_startedAt metadata, cm_ready = nm_ready metadata,
              cm_draining = nm_draining metadata\<rparr> # keptMembers records)"

definition toClusterMembers :: "MemberRecord list \<Rightarrow> ClusterMember list" where
  "toClusterMembers records = js_sort compareByAgeThenName (keptMembers records)"

record 'l SwimClusterView =
  cv_self :: jsstr
  cv_listeners :: "'l list"

definition cv_new :: "jsstr \<Rightarrow> 'l SwimClusterView" where
  "cv_new self = \<lparr>cv_self = self, cv_listeners = []\<rparr>"

definition cv_members :: "MembershipView \<Rightarrow> ClusterMember list" where
  "cv_members v = toClusterMembers (mv_members v)"

definition cv_coordinator :: "MembershipView \<Rightarrow> 'l SwimClusterView \<Rightarrow> jsstr" where
  "cv_coordinator v cv = (case cv_members v of [] \<Rightarrow> cv_self cv | m # _ \<Rightarrow> cm_name m)"

fun remotingAddressIn :: "MemberRecord list \<Rightarrow> jsstr \<Rightarrow> jsstr option" where
  "remotingAddressIn [] dataAddress = None"
| "remotingAddressIn (record # records) dataAddress =
     (if mu_state record \<noteq> STATE_ALIVE \<and> mu_state record \<noteq> STATE_SUSPECT then remotingAddressIn records dataAddress
      else if nm_address (decodeNodeMetadata (mu_metadata record)) \<noteq> dataAddress then remotingAddressIn records dataAddress
      else
        let remotingAddress = readRemotingAddress (mu_metadata record)
        in if length remotingAddress = 0 then None else Some remotingAddress)"

definition cv_remotingAddressOf :: "jsstr \<Rightarrow> MembershipView \<Rightarrow> jsstr option" where
  "cv_remotingAddressOf dataAddress v =
     (if length dataAddress = 0 then None else remotingAddressIn (mv_members v) dataAddress)"

definition cv_onChange :: "'l \<Rightarrow> 'l SwimClusterView \<Rightarrow> 'l SwimClusterView" where
  "cv_onChange listener cv =
     (if listener \<in> set (cv_listeners cv) then cv else cv\<lparr>cv_listeners := cv_listeners cv @ [listener]\<rparr>)"

definition cv_unsubscribe :: "'l \<Rightarrow> 'l SwimClusterView \<Rightarrow> 'l SwimClusterView" where
  "cv_unsubscribe listener cv = cv\<lparr>cv_listeners := filter (\<lambda>l. l \<noteq> listener) (cv_listeners cv)\<rparr>"

definition cv_publish :: "MembershipView \<Rightarrow> 'l SwimClusterView \<Rightarrow> ('l \<times> ClusterMember list) list" where
  "cv_publish v cv = map (\<lambda>listener. (listener, cv_members v)) (cv_listeners cv)"

section \<open>The metadata record\<close>

lemma number_exact:
  assumes "n < 2 ^ 53"
  shows "number_of_bigint n = n"
proof -
  have "floorlog 2 n \<le> 53"
  proof (cases "n = 0")
    case False
    then have "floorlog 2 n \<le> 53 \<longleftrightarrow> n < 2 ^ 53" using floorlog_leI [of n 2 53] floorlog_bounds [of n 2] assms by auto
    then show ?thesis using assms by simp
  qed (simp add: floorlog_def)
  then show ?thesis by (simp add: number_of_bigint_def)
qed

lemma lossy_encode: "isWellFormed s \<Longrightarrow> unmarked s \<Longrightarrow> text_decode_lossy (encode s) = s"
  using text_decode_encode [of s] by (auto simp: unmarked_def intro: text_decode_lossy)

lemma encode_nonempty: "encode s = [] \<Longrightarrow> s = []"
  by (cases s rule: code_points.cases) (auto simp: encode_def utf8_bytes_def split: if_splits)

lemma metadata_read:
  assumes enc: "encodeNodeMetadata md = Inr bs" and addr: "isWellFormed (nm_address md)" "unmarked (nm_address md)"
  shows "decodeNodeMetadata (bs @ rest) = md" and "get_uint16 ADDRESS_LENGTH_OFFSET (bs @ rest) = length (encode (nm_address md))"
    and "length bs = ADDRESS_OFFSET + length (encode (nm_address md))"
proof -
  let ?a = "encode (nm_address md)"
  have at: "0 \<le> nm_startedAt md" "nat (nm_startedAt md) < 2 ^ 53" and len: "length ?a \<le> 255"
    and bs: "bs = put_be 8 (nat (nm_startedAt md)) @ [if nm_ready md then 1 else 0] @ [if nm_draining md then 1 else 0]
      @ put_be 2 (length ?a) @ ?a"
    using enc by (auto simp: encodeNodeMetadata_def isSafeInteger_def MAX_ADDRESS_BYTES_def split: if_splits)
  have l2: "length (put_be 2 (length ?a)) = 2" "length (put_be 8 (nat (nm_startedAt md))) = 8" by simp_all
  show length: "length bs = ADDRESS_OFFSET + length ?a" by (simp add: bs ADDRESS_OFFSET_def)
  have "drop 10 (bs @ rest) = put_be 2 (length ?a) @ ?a @ rest" by (simp add: bs)
  then have "take 2 (drop 10 (bs @ rest)) = put_be 2 (length ?a)" using l2(1) by simp
  then show u16: "get_uint16 ADDRESS_LENGTH_OFFSET (bs @ rest) = length ?a"
    using len by (simp add: get_uint16_def ADDRESS_LENGTH_OFFSET_def)
  have "drop 12 (bs @ rest) = ?a @ rest" by (simp add: bs)
  then have address: "text_decode_lossy (take (length ?a) (drop ADDRESS_OFFSET (bs @ rest))) = nm_address md"
    using lossy_encode [OF addr] by (simp add: ADDRESS_OFFSET_def)
  have "take 8 (drop STARTED_AT_OFFSET (bs @ rest)) = put_be 8 (nat (nm_startedAt md))" by (simp add: bs STARTED_AT_OFFSET_def)
  then have started: "get_be (take 8 (drop STARTED_AT_OFFSET (bs @ rest))) = nat (nm_startedAt md)" using at(2) by simp
  have flags: "((bs @ rest) ! READY_OFFSET \<noteq> 0) = nm_ready md" "((bs @ rest) ! DRAINING_OFFSET \<noteq> 0) = nm_draining md"
    by (simp_all add: bs READY_OFFSET_def DRAINING_OFFSET_def nth_append)
  show "decodeNodeMetadata (bs @ rest) = md"
    using at number_exact [OF at(2)] length unfolding decodeNodeMetadata_def u16 Let_def address started flags by simp
qed

lemma remoting_read:
  assumes enc: "encodeNodeMetadata md = Inr bs" and addr: "isWellFormed (nm_address md)" "unmarked (nm_address md)"
    and app: "appendRemotingAddress bs r = Inr bs'" and r: "isWellFormed r" "unmarked r"
  shows "readRemotingAddress bs' = r"
proof (cases "encode r = []")
  case True
  then have "bs' = bs" "r = []" using app encode_nonempty [of r] by (auto simp: appendRemotingAddress_def)
  then show ?thesis using metadata_read(2) [OF enc addr, of "[]"] metadata_read(3) [OF enc addr] by (simp add: readRemotingAddress_def REMOTING_LENGTH_SIZE_def)
next
  case False
  then have bs': "bs' = bs @ put_be 2 (length (encode r)) @ encode r" and len: "length (encode r) < 512"
    using app by (auto simp: appendRemotingAddress_def Let_def offsets split: if_splits)
  let ?f = "ADDRESS_OFFSET + length (encode (nm_address md))"
  have u16: "get_uint16 ADDRESS_LENGTH_OFFSET bs' = length (encode (nm_address md))" and lb: "length bs = ?f"
    using metadata_read(2,3) [OF enc addr] unfolding bs' by auto
  have "drop ?f bs' = put_be 2 (length (encode r)) @ encode r" by (simp add: bs' lb [symmetric])
  then have len2: "get_uint16 ?f bs' = length (encode r)" and "drop 2 (drop ?f bs') = encode r"
    using len by (simp_all add: get_uint16_def)
  then have "take (length (encode r)) (drop (?f + REMOTING_LENGTH_SIZE) bs') = encode r"
    by (simp add: REMOTING_LENGTH_SIZE_def add.commute)
  moreover have "length bs' = ?f + REMOTING_LENGTH_SIZE + length (encode r)" by (simp add: bs' lb REMOTING_LENGTH_SIZE_def)
  ultimately show ?thesis unfolding readRemotingAddress_def Let_def u16 len2 using lossy_encode [OF r] by simp
qed

section \<open>The member list\<close>

definition member_of :: "MemberRecord \<Rightarrow> ClusterMember option" where
  "member_of r =
     (let metadata = decodeNodeMetadata (mu_metadata r) in
      if isProbeEligibleState (mu_state r) \<and> nm_address metadata \<noteq> []
      then Some \<lparr>cm_name = nm_address metadata, cm_startedAt = nm_startedAt metadata, cm_ready = nm_ready metadata, cm_draining = nm_draining metadata\<rparr>
      else None)"

lemma set_keptMembers: "set (keptMembers rs) = {m. \<exists>r \<in> set rs. member_of r = Some m}"
  by (induction rs) (auto simp: member_of_def isProbeEligibleState_def Let_def)

abbreviation age_name :: "ClusterMember \<Rightarrow> int \<times> jsstr" where
  "age_name m \<equiv> (cm_startedAt m, cm_name m)"

lemma members_sorted:
  assumes "distinct (map cm_name (keptMembers rs))"
  shows "toClusterMembers rs = sort_key age_name (keptMembers rs)"
  unfolding toClusterMembers_def
proof (rule js_sort_distinct_key)
  show "compareByAgeThenName x y \<le> 0 \<longleftrightarrow> age_name x < age_name y" for x y by (auto simp: compareByAgeThenName_def)
  show "distinct (map age_name (keptMembers rs))" using assms by (auto simp: distinct_map inj_on_def)
qed

lemma members_agree:
  assumes "distinct (map cm_name (keptMembers rs))" and "distinct (map cm_name (keptMembers ss))"
    and "set (keptMembers rs) = set (keptMembers ss)"
  shows "toClusterMembers rs = toClusterMembers ss"
proof -
  have "mset (keptMembers rs) = mset (keptMembers ss)"
    using assms distinct_map set_eq_iff_mset_eq_distinct by blast
  moreover have "inj_on age_name (set (keptMembers rs))" using assms(1) by (auto simp: distinct_map inj_on_def)
  ultimately have "sort_key age_name (keptMembers rs) = sort_key age_name (keptMembers ss)"
    by (intro sort_key_inj_key_eq) simp_all
  then show ?thesis using members_sorted assms(1,2) by simp
qed

lemma kept_names: "cm_name ` set (toClusterMembers rs) = cm_name ` set (keptMembers rs)"
proof -
  have "set (js_insert cmp x ys) = insert x (set ys)" for cmp :: "ClusterMember \<Rightarrow> ClusterMember \<Rightarrow> int" and x ys
    by (induction ys) auto
  then have "set (js_sort cmp xs) = set xs" for cmp :: "ClusterMember \<Rightarrow> ClusterMember \<Rightarrow> int" and xs
    by (induction xs) (auto simp: js_sort_def)
  then show ?thesis by (simp add: toClusterMembers_def)
qed

lemma member_names:
  assumes "mv_inv v"
  shows "cm_name ` set (cv_members v) = {a. \<exists>k r m. js_get (mv_records v) k = Some r \<and> member_of (snapshot r) = Some m \<and> cm_name m = a}"
proof -
  have ok: "js_ok (mv_records v)" using assms by (simp add: mv_inv_def)
  have vals: "r \<in> set (js_values (mv_records v)) \<longleftrightarrow> (\<exists>k. js_get (mv_records v) k = Some r)" for r
    using js_get_in_values [of "mv_records v"] js_values_get [OF ok, of r] by blast
  have "s \<in> set (mv_members v) \<longleftrightarrow> (\<exists>r \<in> set (js_values (mv_records v)). s = snapshot r)" for s
    unfolding mv_members_def by auto
  then have mem: "s \<in> set (mv_members v) \<longleftrightarrow> (\<exists>k r. js_get (mv_records v) k = Some r \<and> s = snapshot r)" for s
    using vals by blast
  show ?thesis unfolding cv_members_def kept_names set_keptMembers Bex_def mem by blast
qed

section \<open>Properties\<close>

text \<open>
  C27. A node's metadata comes back from gossip: decoding what a node encodes gives its
  start time, flags and data address, with or without a remoting address behind them,
  and the remoting address reads back too, for well-formed addresses that do not start
  with a byte order mark.
\<close>

theorem metadata_roundtrip:
  assumes "encodeNodeMetadata md = Inr bs" and "appendRemotingAddress bs r = Inr bs'"
    and "isWellFormed (nm_address md)" and "unmarked (nm_address md)" and "isWellFormed r" and "unmarked r"
  shows "decodeNodeMetadata bs' = md \<and> readRemotingAddress bs' = r"
proof -
  have "\<exists>rest. bs' = bs @ rest" using assms(2) by (auto simp: appendRemotingAddress_def Let_def split: if_splits)
  then show ?thesis using metadata_read(1) [OF assms(1,3,4)] remoting_read [OF assms(1,3,4,2,5,6)] by auto
qed

definition sample_metadata :: NodeMetadata where
  "sample_metadata = \<lparr>nm_startedAt = 1700000000000, nm_ready = True, nm_draining = False, nm_address = js ''h:1''\<rparr>"

lemma sample_address: "isWellFormed (js ''h:1'')" "unmarked (js ''h:1'')" "length (encode (js ''h:1'')) = 3" "js ''h:1'' \<noteq> []"
  by (simp_all add: js_def unmarked_def bom_def is_high_def is_low_def encode_def utf8_bytes_def)

theorem metadata_roundtrip_witness:
  "\<exists>bs bs'. encodeNodeMetadata sample_metadata = Inr bs \<and> appendRemotingAddress bs (js ''h:1'') = Inr bs'
     \<and> decodeNodeMetadata bs' = sample_metadata \<and> readRemotingAddress bs' = js ''h:1''"
proof -
  obtain bs where bs: "encodeNodeMetadata sample_metadata = Inr bs"
    using sample_address(3) by (simp add: encodeNodeMetadata_def sample_metadata_def isSafeInteger_def MAX_ADDRESS_BYTES_def)
  have len: "length bs = 15" using metadata_read(3) [OF bs] sample_address by (simp add: sample_metadata_def ADDRESS_OFFSET_def)
  have "\<exists>bs'. appendRemotingAddress bs (js ''h:1'') = Inr bs'"
    using sample_address(3) len by (auto simp: appendRemotingAddress_def Let_def offsets)
  then obtain bs' where app: "appendRemotingAddress bs (js ''h:1'') = Inr bs'" ..
  show ?thesis using metadata_roundtrip [OF bs app] sample_address bs app by (simp add: sample_metadata_def)
qed

text \<open>
  C26. Every node picks the same coordinator: the member list, and with it its first
  entry, depends only on which members are present with which metadata, not on the order
  in which a node heard of them, and it is sorted by start time and then by name.
\<close>

theorem coordinator_is_agreed:
  assumes "distinct (map cm_name (keptMembers (mv_members v)))" and "distinct (map cm_name (keptMembers (mv_members w)))"
    and "member_of ` set (mv_members v) = member_of ` set (mv_members w)"
  shows "cv_members v = cv_members w \<and> sorted (map age_name (cv_members v))
    \<and> (cv_members v \<noteq> [] \<longrightarrow> cv_coordinator v cv = cv_coordinator w dv)"
proof -
  have "m \<in> set (keptMembers (mv_members v)) \<longleftrightarrow> m \<in> set (keptMembers (mv_members w))" for m
  proof -
    have "m \<in> set (keptMembers (mv_members x)) \<longleftrightarrow> Some m \<in> member_of ` set (mv_members x)" for x
      unfolding set_keptMembers by (auto simp: image_iff) metis
    then show ?thesis using assms(3) by simp
  qed
  then have same: "cv_members v = cv_members w"
    unfolding cv_members_def by (intro members_agree assms(1,2)) blast
  moreover have "sorted (map age_name (cv_members v))"
    unfolding cv_members_def members_sorted [OF assms(1)] by (rule sorted_sort_key)
  moreover have "cv_members v \<noteq> [] \<longrightarrow> cv_coordinator v cv = cv_coordinator w dv"
    using same by (auto simp: cv_coordinator_def split: list.splits)
  ultimately show ?thesis by blast
qed

definition node_truth :: "jsstr \<Rightarrow> bytes \<Rightarrow> ViewStep" where
  "node_truth m metadata = RemoteTruth (truth m STATE_ALIVE 0 [] metadata) 1 0"

lemma node_truth_records:
  assumes "m \<noteq> mv_selfName v" and "js_get (mv_records v) m = None" and "length (mv_records v) < MAX_MEMBERS"
  shows "mv_records (snd (mv_step (node_truth m bs) v)) = mv_records v @ [(m, stored_of (truth m STATE_ALIVE 0 [] bs) (max_time 1 (mv_lastAppliedAt v)))]"
    and "mv_selfName (snd (mv_step (node_truth m bs) v)) = mv_selfName v"
proof -
  have "js_set m r recs = recs @ [(m, r)]" if "js_get recs m = None" for r and recs :: "(jsstr, StoredRecord) jsmap"
    using that by (induction recs) auto
  then show "mv_records (snd (mv_step (node_truth m bs) v)) = mv_records v @ [(m, stored_of (truth m STATE_ALIVE 0 [] bs) (max_time 1 (mv_lastAppliedAt v)))]"
    and "mv_selfName (snd (mv_step (node_truth m bs) v)) = mv_selfName v"
    using assms by (auto simp: node_truth_def mv_apply_def mv_wouldRefute_def mv_applied_def mv_replace_def isTerminalState_def truth_def Let_def)
qed

lemma sample_encoded:
  obtains bs where "encodeNodeMetadata sample_metadata = Inr bs" and "decodeNodeMetadata bs = sample_metadata"
proof -
  obtain bs where bs: "encodeNodeMetadata sample_metadata = Inr bs"
    using sample_address(3) by (simp add: encodeNodeMetadata_def sample_metadata_def isSafeInteger_def MAX_ADDRESS_BYTES_def)
  then show thesis using that metadata_read(1) [OF bs, of "[]"] sample_address by (simp add: sample_metadata_def)
qed

theorem coordinator_is_agreed_witness:
  "\<exists>bs. decodeNodeMetadata bs = sample_metadata \<and>
     (let v = snd (mv_run [node_truth (js ''b'') bs, node_truth (js ''c'') []] (mv_new (js ''a'')));
          w = snd (mv_run [node_truth (js ''c'') [], node_truth (js ''b'') bs] (mv_new (js ''z'')))
      in map fst (mv_records v) \<noteq> map fst (mv_records w) \<and> cv_members v \<noteq> [] \<and> cv_members v = cv_members w)"
proof -
  obtain bs where bs: "decodeNodeMetadata bs = sample_metadata" using sample_encoded .
  define v where "v = snd (mv_run [node_truth (js ''b'') bs, node_truth (js ''c'') []] (mv_new (js ''a'')))"
  define w where "w = snd (mv_run [node_truth (js ''c'') [], node_truth (js ''b'') bs] (mv_new (js ''z'')))"
  let ?b = "\<lambda>t. stored_of (truth (js ''b'') STATE_ALIVE 0 [] bs) t" and ?c = "\<lambda>t. stored_of (truth (js ''c'') STATE_ALIVE 0 [] []) t"
  have names: "js ''a'' \<noteq> js ''b''" "js ''a'' \<noteq> js ''c''" "js ''b'' \<noteq> js ''c''" "js ''z'' \<noteq> js ''b''" "js ''z'' \<noteq> js ''c''"
    by (simp_all add: js_def)
  have new: "mv_records (mv_new m) = []" "mv_selfName (mv_new m) = m" for m by (simp_all add: mv_new_def)
  have v: "\<exists>s t. mv_records v = [(js ''b'', ?b s), (js ''c'', ?c t)]" and w: "\<exists>s t. mv_records w = [(js ''c'', ?c s), (js ''b'', ?b t)]"
    unfolding v_def w_def using names new by (simp_all add: snd_mv_run_Cons node_truth_records MAX_MEMBERS_def del: mv_step.simps mv_run.simps(2)) blast+
  have none: "member_of (snapshot (?c t)) = None" for t
    by (simp add: member_of_def snapshot_def MemberRecord.truncate_def truth_def decodeNodeMetadata_def UNDECODABLE_def ADDRESS_OFFSET_def Let_def)
  let ?m = "\<lparr>cm_name = js ''h:1'', cm_startedAt = 1700000000000, cm_ready = True, cm_draining = False\<rparr>"
  have some: "member_of (snapshot (?b t)) = Some ?m" for t
    using sample_address(4)
    by (simp add: member_of_def snapshot_def MemberRecord.truncate_def truth_def bs sample_metadata_def isProbeEligibleState_def Let_def)
  have kept: "keptMembers (r # rs) = (case member_of r of None \<Rightarrow> [] | Some m \<Rightarrow> [m]) @ keptMembers rs" for r rs
    by (simp add: member_of_def isProbeEligibleState_def Let_def)
  have "keptMembers (mv_members v) = [?m]" "keptMembers (mv_members w) = [?m]"
    "member_of ` set (mv_members v) = member_of ` set (mv_members w)"
    using v w by (auto simp: mv_members_def kept some none simp del: keptMembers.simps(2))
  then have "cv_members v = cv_members w" "cv_members v \<noteq> []"
    using coordinator_is_agreed [of v w] by (simp_all add: cv_members_def toClusterMembers_def js_sort_def)
  then show ?thesis using bs v w names unfolding v_def w_def Let_def by auto
qed

text \<open>
  C36. Suspicion removes a member from the cluster view, silently: a member that is alive
  with a data address is in the list; a suspect truth about it, which carries no
  metadata, is applied without an event, and the address is no longer in the list.
\<close>

theorem suspicion_hides_member:
  assumes "mv_inv v" and "m \<noteq> mv_selfName v" and "js_get (mv_records v) m = Some r" and "mu_state r = STATE_ALIVE"
    and "nm_address (decodeNodeMetadata (mu_metadata r)) = a" and "a \<noteq> []"
    and "\<forall>k c. k \<noteq> m \<and> js_get (mv_records v) k = Some c \<longrightarrow> nm_address (decodeNodeMetadata (mu_metadata c)) \<noteq> a"
  shows "a \<in> cm_name ` set (cv_members v) \<and>
    (\<exists>v'. mv_run [RemoteTruth (truth m STATE_SUSPECT (mu_incarnation r) reporter []) now changed] v = ([], v')
       \<and> mv_stateOf m v' = Some (STATE_SUSPECT, mu_incarnation r) \<and> a \<notin> cm_name ` set (cv_members v'))"
proof -
  let ?u = "truth m STATE_SUSPECT (mu_incarnation r) reporter []"
  have fields: "mu_state (snapshot c) = mu_state c" "mu_metadata (snapshot c) = mu_metadata c" for c
    by (simp_all add: snapshot_def MemberRecord.truncate_def)
  have "a \<in> cm_name ` set (cv_members v)"
    unfolding member_names [OF assms(1)] using assms(3-6)
    by (auto simp: member_of_def fields isProbeEligibleState_def Let_def intro!: exI [of _ m])
  moreover have "\<exists>res v'. mv_apply ?u now changed v = Inr (res, v') \<and> mv_applied ?u (js_get (mv_records v) (mu_member ?u)) now v = Inr (res, v')"
    using assms(2,3,4)
    by (auto simp: mv_apply_def mv_applied_def mv_replace_def mv_wouldRefute_def truth_def compareMembershipUpdates_def less_MemberState_def Let_def)
  then obtain res v' where run: "mv_apply ?u now changed v = Inr (res, v')" "mv_applied ?u (js_get (mv_records v) (mu_member ?u)) now v = Inr (res, v')"
    by blast
  note applied = applied_result [OF assms(1) run(2)]
  have recs: "js_get (mv_records v') k = (if k = m then Some (stored_of ?u (max_time now (mv_lastAppliedAt v))) else js_get (mv_records v) k)" for k
    using applied(3) by (simp add: truth_def)
  have silent: "emitted res = None" using applied(4) assms(3) by (simp add: eventType_def truth_def isTerminalState_def)
  have "a \<notin> cm_name ` set (cv_members v')"
    unfolding member_names [OF applied(1)] using assms(6,7)
    by (auto simp: recs member_of_def fields Let_def truth_def decodeNodeMetadata_def UNDECODABLE_def ADDRESS_OFFSET_def split: if_splits)
  moreover have "mv_run [RemoteTruth ?u now changed] v = ([], v')" using run(1) silent by simp
  ultimately show ?thesis by (intro conjI exI [of _ v']) (simp_all add: mv_stateOf_def recs truth_def)
qed

theorem suspicion_hides_member_witness:
  "\<exists>bs v'. encodeNodeMetadata sample_metadata = Inr bs \<and>
     js ''h:1'' \<in> cm_name ` set (cv_members (snd (mv_run [node_truth (js ''b'') bs] (mv_new (js ''a''))))) \<and>
     mv_run [RemoteTruth (truth (js ''b'') STATE_SUSPECT 0 (js ''c'') []) 2 0] (snd (mv_run [node_truth (js ''b'') bs] (mv_new (js ''a''))))
       = ([], v') \<and> js ''h:1'' \<notin> cm_name ` set (cv_members v')"
proof -
  obtain bs where bs: "encodeNodeMetadata sample_metadata = Inr bs" "decodeNodeMetadata bs = sample_metadata"
    using sample_encoded .
  then have addr: "nm_address (decodeNodeMetadata bs) = js ''h:1''" by (simp add: sample_metadata_def)
  let ?v = "snd (mv_run [node_truth (js ''b'') bs] (mv_new (js ''a'')))" and ?u = "truth (js ''b'') STATE_ALIVE 0 [] bs"
  have v: "mv_inv ?v" "mv_selfName ?v = js ''a''" using mv_run_inv [OF mv_new_inv, of "[node_truth (js ''b'') bs]" "js ''a''"]
    by (simp_all add: node_truth_def mv_new_def del: mv_run.simps)
  have recs: "mv_records ?v = [(js ''b'', stored_of ?u 1)]"
    by (simp add: snd_mv_run_Cons node_truth_records mv_new_def MAX_MEMBERS_def max_time_def js_def del: mv_step.simps mv_run.simps(2))
  have r: "js_get (mv_records ?v) (js ''b'') = Some (stored_of ?u 1)" using recs by simp
  have "js ''h:1'' \<in> cm_name ` set (cv_members ?v) \<and>
    (\<exists>v'. mv_run [RemoteTruth (truth (js ''b'') STATE_SUSPECT (mu_incarnation (stored_of ?u 1)) (js ''c'') []) 2 0] ?v = ([], v')
       \<and> mv_stateOf (js ''b'') v' = Some (STATE_SUSPECT, mu_incarnation (stored_of ?u 1)) \<and> js ''h:1'' \<notin> cm_name ` set (cv_members v'))"
    by (rule suspicion_hides_member [OF v(1) _ r])
      (use recs v(2) addr sample_address(4) in \<open>simp_all add: js_def truth_def split: if_splits\<close>)
  moreover have "mu_incarnation (stored_of ?u 1) = 0" by (simp add: truth_def)
  ultimately show ?thesis using bs(1) by metis
qed

end
