(* ===== verification/Suspicion.thy ===== *)
theory Suspicion
  imports MembershipView Ring
begin

text \<open>
  Suspicion timing, \<open>src/membership/suspicion.ts\<close>: the Lifeguard bounds and deadline, and
  the manager that keeps one suspicion per member with one timer each.  The clock is part
  of the state: a scheduled callback is an entry of \<open>sm_timers\<close> that remembers the record
  and the revision it captured, a cancelled one is removed, and any pending one may fire at
  any reading, early ones included.  A record's identity is its \<open>ss_id\<close>.

  \<open>Math.ceil(Math.log10(n))\<close> is computed exactly, which the double-precision logarithm
  agrees with at the counts a table can hold.  The floor of the logarithmic decay is the
  argument \<open>decay\<close>; \<open>decay_ok\<close> says what is used of it, that it lies between nothing and the
  whole spread and grows with the confirmations.

  The theory shows that a deadline stays within its bounds and only moves earlier, that an
  active suspicion always has a live timer, and that only a due one expires.
\<close>

section \<open>Bounds and deadlines\<close>

definition SUSPICION_MULTIPLIER :: int where "SUSPICION_MULTIPLIER = 4"
definition SUSPICION_MAX_MULTIPLIER :: int where "SUSPICION_MAX_MULTIPLIER = 6"
definition SUSPICION_CONFIRMATION_TARGET :: nat where "SUSPICION_CONFIRMATION_TARGET = 3"

lemmas suspicion_constants = SUSPICION_MULTIPLIER_def SUSPICION_MAX_MULTIPLIER_def SUSPICION_CONFIRMATION_TARGET_def

function ceil_log10 :: "nat \<Rightarrow> nat" where
  "ceil_log10 n = (if n \<le> 1 then 0 else Suc (ceil_log10 ((n + 9) div 10)))"
  by pat_completeness auto
termination
  by (relation "measure (\<lambda>n. n)") auto

declare ceil_log10.simps [simp del]

lemma ceil_log10_correct: "n \<le> 10 ^ k \<longleftrightarrow> ceil_log10 n \<le> k"
proof (induction n arbitrary: k rule: ceil_log10.induct)
  case (1 n)
  show ?case
  proof (cases "n \<le> 1")
    case True
    then show ?thesis using le_trans [OF True, of "10 ^ k"] by (simp add: ceil_log10.simps [of n])
  next
    case False
    have "n \<le> 10 ^ k \<longleftrightarrow> (\<exists>j. k = Suc j \<and> (n + 9) div 10 \<le> 10 ^ j)"
    proof (cases k)
      case (Suc j)
      have "(n + 9) div 10 \<le> 10 ^ j \<longleftrightarrow> n \<le> 10 * 10 ^ j" by linarith
      then show ?thesis using Suc by simp
    qed (use False in simp)
    also have "\<dots> \<longleftrightarrow> ceil_log10 n \<le> k" using 1 [OF False] False by (cases k) (simp_all add: ceil_log10.simps [of n])
    finally show ?thesis .
  qed
qed

definition requirePositiveSafeInteger :: "int \<Rightarrow> RangeError + unit" where
  "requirePositiveSafeInteger value = (if \<not> isSafeInteger value \<or> value \<le> 0 then Inl RangeError else Inr ())"

definition requireNonNegativeSafeInteger :: "int \<Rightarrow> RangeError + unit" where
  "requireNonNegativeSafeInteger value = (if \<not> isSafeInteger value \<or> value < 0 then Inl RangeError else Inr ())"

definition requireIncarnation :: "int \<Rightarrow> RangeError + unit" where
  "requireIncarnation value =
     (case requireNonNegativeSafeInteger value of
        Inl e \<Rightarrow> Inl e
      | Inr _ \<Rightarrow> if value > MAX_INCARNATION then Inl RangeError else Inr ())"

definition requireSafeTime :: "int \<Rightarrow> RangeError + unit" where
  "requireSafeTime value = (if \<not> isSafeInteger value then Inl RangeError else Inr ())"

definition suspicionBounds :: "int \<Rightarrow> int \<Rightarrow> RangeError + (int \<times> int)" where
  "suspicionBounds memberCount effectivePeriod =
     (case requireNonNegativeSafeInteger memberCount of
        Inl e \<Rightarrow> Inl e
      | Inr _ \<Rightarrow>
          (case requirePositiveSafeInteger effectivePeriod of
             Inl e \<Rightarrow> Inl e
           | Inr _ \<Rightarrow>
               let count = max 1 memberCount;
                   minimum = SUSPICION_MULTIPLIER * int (ceil_log10 (nat (count + 1))) * effectivePeriod;
                   maximum = SUSPICION_MAX_MULTIPLIER * minimum
               in (case requirePositiveSafeInteger minimum of
                     Inl e \<Rightarrow> Inl e
                   | Inr _ \<Rightarrow>
                       (case requirePositiveSafeInteger maximum of
                          Inl e \<Rightarrow> Inl e
                        | Inr _ \<Rightarrow> Inr (minimum, maximum)))))"

definition suspicionDuration :: "(int \<Rightarrow> nat \<Rightarrow> nat \<Rightarrow> int) \<Rightarrow> int \<Rightarrow> int \<Rightarrow> nat \<Rightarrow> nat \<Rightarrow> int" where
  "suspicionDuration decay minimum maximum confirmationCount confirmationTarget =
     (let count = min confirmationCount confirmationTarget in
      if count = 0 then maximum
      else if count = confirmationTarget then minimum
      else maximum - decay (maximum - minimum) count confirmationTarget)"

definition suspicionDeadline ::
  "(int \<Rightarrow> nat \<Rightarrow> nat \<Rightarrow> int) \<Rightarrow> int \<Rightarrow> int \<Rightarrow> int \<Rightarrow> nat \<Rightarrow> nat \<Rightarrow> RangeError + int" where
  "suspicionDeadline decay start minimum maximum confirmationCount confirmationTarget =
     (if requireSafeTime start \<noteq> Inr () \<or> requirePositiveSafeInteger minimum \<noteq> Inr ()
         \<or> requirePositiveSafeInteger maximum \<noteq> Inr () \<or> requireNonNegativeSafeInteger (int confirmationCount) \<noteq> Inr ()
         \<or> requirePositiveSafeInteger (int confirmationTarget) \<noteq> Inr () \<or> maximum < minimum
      then Inl RangeError
      else
        let deadline = start + suspicionDuration decay minimum maximum confirmationCount confirmationTarget
        in (case requireSafeTime deadline of Inl e \<Rightarrow> Inl e | Inr _ \<Rightarrow> Inr deadline))"

definition decay_ok :: "(int \<Rightarrow> nat \<Rightarrow> nat \<Rightarrow> int) \<Rightarrow> bool" where
  "decay_ok decay \<longleftrightarrow> (\<forall>spread c k. 0 \<le> spread \<and> 0 < c \<and> c < k \<longrightarrow>
     0 \<le> decay spread c k \<and> decay spread c k \<le> spread \<and> (\<forall>d. c \<le> d \<and> d < k \<longrightarrow> decay spread c k \<le> decay spread d k))"

lemma duration_bounds:
  assumes "decay_ok decay" and "minimum \<le> maximum"
  shows "minimum \<le> suspicionDuration decay minimum maximum c k \<and> suspicionDuration decay minimum maximum c k \<le> maximum"
proof (cases "min c k = 0 \<or> min c k = k")
  case False
  then have "0 < min c k" "min c k < k" by auto
  moreover have "0 \<le> maximum - minimum" using assms(2) by simp
  ultimately have "0 \<le> decay (maximum - minimum) (min c k) k \<and> decay (maximum - minimum) (min c k) k \<le> maximum - minimum"
    using assms(1) unfolding decay_ok_def by blast
  then show ?thesis using False by (simp add: suspicionDuration_def Let_def)
qed (use assms(2) in \<open>auto simp: suspicionDuration_def Let_def\<close>)

lemma duration_antimono:
  assumes "decay_ok decay" and "minimum \<le> maximum" and "c \<le> d" and "0 < k"
  shows "suspicionDuration decay minimum maximum d k \<le> suspicionDuration decay minimum maximum c k"
proof (cases "0 < c \<and> d < k")
  case True
  then have "decay (maximum - minimum) c k \<le> decay (maximum - minimum) d k"
    using assms unfolding decay_ok_def by (smt (verit) order.strict_trans1)
  then show ?thesis using True assms(3) by (simp add: suspicionDuration_def Let_def min_absorb1)
next
  case False
  then consider "c = 0" | "k \<le> d" by fastforce
  then show ?thesis
  proof cases
    case 1
    then show ?thesis using duration_bounds [OF assms(1,2), of d k] by (simp add: suspicionDuration_def)
  next
    case 2
    then show ?thesis using duration_bounds [OF assms(1,2), of c k] assms(4) by (simp add: suspicionDuration_def min_absorb2)
  qed
qed

section \<open>The manager\<close>

record SuspicionStart =
  si_member :: jsstr
  si_incarnation :: int
  si_reporter :: jsstr
  si_memberCount :: int
  si_effectivePeriod :: int

record SuspicionExpiry =
  ex_member :: jsstr
  ex_incarnation :: int

record StoredSuspicion =
  ss_id :: nat
  ss_member :: jsstr
  ss_incarnation :: int
  ss_minimum :: int
  ss_maximum :: int
  ss_start :: int
  ss_reporter :: jsstr
  ss_confirmationReporters :: "jsstr list"
  ss_deadline :: int
  ss_revision :: nat
  ss_timer :: "nat option"

record SuspicionTimer =
  tm_id :: nat
  tm_member :: jsstr
  tm_revision :: nat
  tm_due :: int

record SuspicionManager =
  sm_active :: "(jsstr, StoredSuspicion) jsmap"
  sm_timers :: "(nat, SuspicionTimer) jsmap"
  sm_nextTimer :: nat
  sm_nextId :: nat

definition sm_new :: SuspicionManager where
  "sm_new = \<lparr>sm_active = [], sm_timers = [], sm_nextTimer = 0, sm_nextId = 0\<rparr>"

definition sm_size :: "SuspicionManager \<Rightarrow> nat" where
  "sm_size m = length (sm_active m)"

record ActiveSuspicion =
  as_member :: jsstr
  as_incarnation :: int
  as_start :: int
  as_deadline :: int
  as_minimum :: int
  as_maximum :: int
  as_reporter :: jsstr
  as_confirmationCount :: nat
  as_confirmationReporters :: "jsstr list"

definition suspicion_snapshot :: "StoredSuspicion \<Rightarrow> ActiveSuspicion" where
  "suspicion_snapshot a =
     \<lparr>as_member = ss_member a, as_incarnation = ss_incarnation a, as_start = ss_start a, as_deadline = ss_deadline a,
      as_minimum = ss_minimum a, as_maximum = ss_maximum a, as_reporter = ss_reporter a,
      as_confirmationCount = length (ss_confirmationReporters a), as_confirmationReporters = ss_confirmationReporters a\<rparr>"

definition sm_get :: "jsstr \<Rightarrow> SuspicionManager \<Rightarrow> ActiveSuspicion option" where
  "sm_get member m = map_option suspicion_snapshot (js_get (sm_active m) member)"

definition sm_schedule :: "StoredSuspicion \<Rightarrow> int \<Rightarrow> SuspicionManager \<Rightarrow> SuspicionManager" where
  "sm_schedule a now m =
     (let delay = max 0 (ss_deadline a - now);
          timer = \<lparr>tm_id = ss_id a, tm_member = ss_member a, tm_revision = ss_revision a, tm_due = now + delay\<rparr>
      in m\<lparr>sm_active := js_set (ss_member a) (a\<lparr>ss_timer := Some (sm_nextTimer m)\<rparr>) (sm_active m),
           sm_timers := js_set (sm_nextTimer m) timer (sm_timers m), sm_nextTimer := sm_nextTimer m + 1\<rparr>)"

definition sm_cancelTimer :: "StoredSuspicion \<Rightarrow> SuspicionManager \<Rightarrow> SuspicionManager" where
  "sm_cancelTimer a m = (case ss_timer a of None \<Rightarrow> m | Some t \<Rightarrow> m\<lparr>sm_timers := js_delete t (sm_timers m)\<rparr>)"

definition sm_start ::
  "(int \<Rightarrow> nat \<Rightarrow> nat \<Rightarrow> int) \<Rightarrow> SuspicionStart \<Rightarrow> int \<Rightarrow> int \<Rightarrow> SuspicionManager \<Rightarrow> RangeError + bool \<times> SuspicionManager" where
  "sm_start decay input now scheduledAt m =
     (if requireIncarnation (si_incarnation input) \<noteq> Inr () then Inl RangeError
      else if length (si_member input) = 0 then Inl RangeError
      else if length (si_reporter input) = 0 then Inl RangeError
      else if (case js_get (sm_active m) (si_member input) of None \<Rightarrow> False | Some c \<Rightarrow> si_incarnation input \<le> ss_incarnation c)
      then Inr (False, m)
      else if requireSafeTime now \<noteq> Inr () then Inl RangeError
      else
        case suspicionBounds (si_memberCount input) (si_effectivePeriod input) of
          Inl e \<Rightarrow> Inl e
        | Inr (minimum, maximum) \<Rightarrow>
            (case suspicionDeadline decay now minimum maximum 0 SUSPICION_CONFIRMATION_TARGET of
               Inl e \<Rightarrow> Inl e
             | Inr deadline \<Rightarrow>
                 let active = \<lparr>ss_id = sm_nextId m, ss_member = si_member input, ss_incarnation = si_incarnation input,
                               ss_minimum = minimum, ss_maximum = maximum, ss_start = now, ss_reporter = si_reporter input,
                               ss_confirmationReporters = [], ss_deadline = deadline, ss_revision = 0, ss_timer = None\<rparr>;
                     m = (case js_get (sm_active m) (si_member input) of None \<Rightarrow> m | Some c \<Rightarrow> sm_cancelTimer c m);
                     m = m\<lparr>sm_nextId := sm_nextId m + 1\<rparr>
                 in Inr (True, sm_schedule active scheduledAt m)))"

definition sm_expire ::
  "jsstr \<Rightarrow> nat \<Rightarrow> nat \<Rightarrow> int \<Rightarrow> int \<Rightarrow> SuspicionManager \<Rightarrow> SuspicionExpiry list \<times> SuspicionManager" where
  "sm_expire member ident revision now scheduledAt m =
     (case js_get (sm_active m) member of
        None \<Rightarrow> ([], m)
      | Some a \<Rightarrow>
          if ss_id a \<noteq> ident \<or> ss_revision a \<noteq> revision then ([], m)
          else if now < ss_deadline a then ([], sm_schedule a scheduledAt m)
          else ([\<lparr>ex_member = ss_member a, ex_incarnation = ss_incarnation a\<rparr>],
                m\<lparr>sm_active := js_delete (ss_member a) (sm_active m)\<rparr>))"

definition sm_confirm ::
  "(int \<Rightarrow> nat \<Rightarrow> nat \<Rightarrow> int) \<Rightarrow> jsstr \<Rightarrow> int \<Rightarrow> jsstr \<Rightarrow> int \<Rightarrow> int \<Rightarrow> int \<Rightarrow> SuspicionManager
     \<Rightarrow> (RangeError + bool \<times> SuspicionExpiry list) \<times> SuspicionManager" where
  "sm_confirm decay member incarnation reporter now later scheduledAt m =
     (if requireIncarnation incarnation \<noteq> Inr () then (Inl RangeError, m)
      else
        case js_get (sm_active m) member of
          None \<Rightarrow> (Inr (False, []), m)
        | Some a \<Rightarrow>
            if ss_incarnation a \<noteq> incarnation \<or> reporter = ss_reporter a \<or> reporter \<in> set (ss_confirmationReporters a)
               \<or> length (ss_confirmationReporters a) \<ge> SUSPICION_CONFIRMATION_TARGET
            then (Inr (False, []), m)
            else
              let a = a\<lparr>ss_confirmationReporters := ss_confirmationReporters a @ [reporter]\<rparr> in
              (case suspicionDeadline decay (ss_start a) (ss_minimum a) (ss_maximum a) (length (ss_confirmationReporters a))
                      SUSPICION_CONFIRMATION_TARGET of
                 Inl e \<Rightarrow> (Inl e, m\<lparr>sm_active := js_set member a (sm_active m)\<rparr>)
               | Inr deadline \<Rightarrow>
                   let m = sm_cancelTimer a m;
                       a = a\<lparr>ss_deadline := deadline, ss_timer := None, ss_revision := ss_revision a + 1\<rparr>;
                       m = m\<lparr>sm_active := js_set member a (sm_active m)\<rparr>
                   in if deadline \<le> now
                      then (let (expired, m) = sm_expire member (ss_id a) (ss_revision a) later scheduledAt m in (Inr (True, expired), m))
                      else (Inr (True, []), sm_schedule a later m)))"

definition sm_cancelThrough :: "jsstr \<Rightarrow> int \<Rightarrow> SuspicionManager \<Rightarrow> RangeError + bool \<times> SuspicionManager" where
  "sm_cancelThrough member incarnation m =
     (if requireIncarnation incarnation \<noteq> Inr () then Inl RangeError
      else
        case js_get (sm_active m) member of
          None \<Rightarrow> Inr (False, m)
        | Some a \<Rightarrow>
            if ss_incarnation a > incarnation then Inr (False, m)
            else Inr (True, sm_cancelTimer a (m\<lparr>sm_active := js_delete member (sm_active m)\<rparr>)))"

definition sm_cancelAll :: "SuspicionManager \<Rightarrow> SuspicionManager" where
  "sm_cancelAll m = (fold sm_cancelTimer (js_values (sm_active m)) m)\<lparr>sm_active := []\<rparr>"

text \<open>The clock fires a pending timer, which it has then consumed.\<close>

definition sm_fire :: "nat \<Rightarrow> int \<Rightarrow> int \<Rightarrow> SuspicionManager \<Rightarrow> SuspicionExpiry list \<times> SuspicionManager" where
  "sm_fire t now scheduledAt m =
     (case js_get (sm_timers m) t of
        None \<Rightarrow> ([], m)
      | Some timer \<Rightarrow>
          sm_expire (tm_member timer) (tm_id timer) (tm_revision timer) now scheduledAt
            (m\<lparr>sm_timers := js_delete t (sm_timers m)\<rparr>))"

section \<open>One live timer for every suspicion\<close>

definition susp_ok :: "(int \<Rightarrow> nat \<Rightarrow> nat \<Rightarrow> int) \<Rightarrow> StoredSuspicion \<Rightarrow> bool" where
  "susp_ok decay a \<longleftrightarrow> ss_minimum a \<le> ss_maximum a
     \<and> length (ss_confirmationReporters a) \<le> SUSPICION_CONFIRMATION_TARGET
     \<and> distinct (ss_reporter a # ss_confirmationReporters a)
     \<and> ss_deadline a = ss_start a + suspicionDuration decay (ss_minimum a) (ss_maximum a)
          (length (ss_confirmationReporters a)) SUSPICION_CONFIRMATION_TARGET
     \<and> suspicionDeadline decay (ss_start a) (ss_minimum a) (ss_maximum a) 0 SUSPICION_CONFIRMATION_TARGET \<noteq> Inl RangeError
     \<and> isSafeInteger (ss_start a)"

definition susp_live :: "SuspicionManager \<Rightarrow> jsstr \<Rightarrow> StoredSuspicion \<Rightarrow> bool" where
  "susp_live m k a \<longleftrightarrow> (\<exists>tid t. ss_timer a = Some tid \<and> js_get (sm_timers m) tid = Some t
     \<and> tm_member t = k \<and> tm_id t = ss_id a \<and> tm_revision t = ss_revision a)"

definition timer_owned :: "SuspicionManager \<Rightarrow> nat \<Rightarrow> SuspicionTimer \<Rightarrow> bool" where
  "timer_owned m tid t \<longleftrightarrow> tid < sm_nextTimer m \<and> (\<exists>a. js_get (sm_active m) (tm_member t) = Some a \<and> ss_timer a = Some tid)"

text \<open>
  In the middle of an operation on a member the invariant holds of everyone else, and no
  timer of that member is pending.
\<close>

definition sm_gap :: "(int \<Rightarrow> nat \<Rightarrow> nat \<Rightarrow> int) \<Rightarrow> jsstr set \<Rightarrow> SuspicionManager \<Rightarrow> bool" where
  "sm_gap decay K m \<longleftrightarrow>
     (\<forall>k a. k \<notin> K \<longrightarrow> js_get (sm_active m) k = Some a \<longrightarrow> ss_member a = k \<and> susp_ok decay a \<and> susp_live m k a)
   \<and> (\<forall>tid t. js_get (sm_timers m) tid = Some t \<longrightarrow> tm_member t \<notin> K \<and> timer_owned m tid t)"

abbreviation sm_inv :: "(int \<Rightarrow> nat \<Rightarrow> nat \<Rightarrow> int) \<Rightarrow> SuspicionManager \<Rightarrow> bool" where
  "sm_inv decay \<equiv> sm_gap decay {}"

lemma gap_active: "sm_gap decay K m \<Longrightarrow> js_get (sm_active m) k = Some a \<Longrightarrow> k \<notin> K \<Longrightarrow> ss_member a = k \<and> susp_ok decay a \<and> susp_live m k a"
  unfolding sm_gap_def by blast

lemma gap_timer: "sm_gap decay K m \<Longrightarrow> js_get (sm_timers m) tid = Some t \<Longrightarrow> tm_member t \<notin> K \<and> timer_owned m tid t"
  unfolding sm_gap_def by blast

lemma new_gap: "sm_inv decay sm_new"
  by (simp add: sm_gap_def sm_new_def)

lemma gap_absent:
  assumes inv: "sm_inv decay m" and none: "js_get (sm_active m) k = None"
  shows "sm_gap decay {k} m"
  unfolding sm_gap_def
proof (intro conjI allI impI)
  fix tid t
  assume t: "js_get (sm_timers m) tid = Some t"
  show "timer_owned m tid t" using gap_timer [OF inv t] ..
  then show "tm_member t \<notin> {k}" using none by (auto simp: timer_owned_def)
qed (use gap_active [OF inv] in blast)+

lemma gap_drop_timer:
  assumes inv: "sm_inv decay m" and a: "js_get (sm_active m) k = Some a" and tid: "ss_timer a = Some tid"
  shows "sm_gap decay {k} (m\<lparr>sm_timers := js_delete tid (sm_timers m)\<rparr>)"
proof -
  let ?m = "m\<lparr>sm_timers := js_delete tid (sm_timers m)\<rparr>"
  obtain u where u: "js_get (sm_timers m) tid = Some u" "tm_member u = k"
    using gap_active [OF inv a] tid by (auto simp: susp_live_def)
  have live: "ss_member b = j \<and> susp_ok decay b \<and> susp_live ?m j b" if j: "j \<noteq> k" and b: "js_get (sm_active m) j = Some b" for j b
  proof -
    obtain i t where i: "ss_timer b = Some i" "js_get (sm_timers m) i = Some t"
      "tm_member t = j" "tm_id t = ss_id b" "tm_revision t = ss_revision b"
      using gap_active [OF inv b] by (auto simp: susp_live_def)
    moreover have "i \<noteq> tid" using i u \<open>j \<noteq> k\<close> by auto
    ultimately have "susp_live ?m j b" by (simp add: susp_live_def)
    then show ?thesis using gap_active [OF inv b] by simp
  qed
  have owned: "tm_member t \<noteq> k \<and> timer_owned ?m i t" if "js_get (sm_timers m) i = Some t" "i \<noteq> tid" for i t
    using gap_timer [OF inv that(1)] a tid that(2) by (auto simp: timer_owned_def)
  show ?thesis unfolding sm_gap_def using live owned by (simp split: if_splits)
qed

lemma gap_cancel:
  assumes "sm_inv decay m" and "js_get (sm_active m) k = Some a" and "ss_timer a' = ss_timer a"
  shows "sm_gap decay {k} (sm_cancelTimer a' m)"
proof -
  obtain tid where "ss_timer a = Some tid" using gap_active [OF assms(1,2)] by (auto simp: susp_live_def)
  then show ?thesis using gap_drop_timer [OF assms(1,2)] assms(3) by (simp add: sm_cancelTimer_def)
qed

lemma gap_set:
  assumes gap: "sm_gap decay {k} m"
  shows "sm_gap decay {k} (m\<lparr>sm_active := js_set k a (sm_active m)\<rparr>)"
proof -
  have "timer_owned (m\<lparr>sm_active := js_set k a (sm_active m)\<rparr>) i t" if "js_get (sm_timers m) i = Some t" for i t
    using gap_timer [OF gap that] by (auto simp: timer_owned_def)
  then show ?thesis using gap by (auto simp: sm_gap_def susp_live_def)
qed

lemma gap_delete:
  assumes gap: "sm_gap decay {k} m"
  shows "sm_inv decay (m\<lparr>sm_active := js_delete k (sm_active m)\<rparr>)"
proof -
  have "timer_owned (m\<lparr>sm_active := js_delete k (sm_active m)\<rparr>) i t" if "js_get (sm_timers m) i = Some t" for i t
    using gap_timer [OF gap that] by (auto simp: timer_owned_def)
  then show ?thesis using gap by (auto simp: sm_gap_def susp_live_def split: if_splits)
qed

lemma gap_schedule:
  assumes gap: "sm_gap decay {k} m" and k: "ss_member a = k" and ok: "susp_ok decay a"
  shows "sm_inv decay (sm_schedule a now m)"
proof -
  let ?m = "sm_schedule a now m"
  have fresh: "js_get (sm_timers m) i = Some t \<Longrightarrow> i \<noteq> sm_nextTimer m" for i t
    using gap_timer [OF gap] by (auto simp: timer_owned_def)
  have live: "ss_member b = j \<and> susp_ok decay b \<and> susp_live ?m j b" if "js_get (sm_active ?m) j = Some b" for j b
  proof (cases "j = k")
    case True
    then have "b = a\<lparr>ss_timer := Some (sm_nextTimer m)\<rparr>" using that k by (simp add: sm_schedule_def)
    then show ?thesis using True k ok by (simp add: susp_live_def sm_schedule_def susp_ok_def)
  next
    case False
    then have b: "js_get (sm_active m) j = Some b" using that k by (simp add: sm_schedule_def)
    then have "susp_live m j b" using gap_active [OF gap b] False by simp
    then have "susp_live ?m j b" using fresh by (auto simp: susp_live_def sm_schedule_def)
    then show ?thesis using gap_active [OF gap b] False by simp
  qed
  have owned: "timer_owned ?m i t" if "js_get (sm_timers ?m) i = Some t" for i t
  proof (cases "i = sm_nextTimer m")
    case True
    then show ?thesis using that by (auto simp: timer_owned_def sm_schedule_def)
  next
    case False
    then have "js_get (sm_timers m) i = Some t" using that by (simp add: sm_schedule_def)
    then show ?thesis using gap_timer [OF gap] k by (fastforce simp: timer_owned_def sm_schedule_def)
  qed
  show ?thesis unfolding sm_gap_def using live owned by simp
qed

lemma gap_next_id [simp]: "sm_gap decay K (m\<lparr>sm_nextId := n\<rparr>) = sm_gap decay K m"
  by (simp add: sm_gap_def susp_live_def timer_owned_def)

lemma requires_Inr:
  "requirePositiveSafeInteger v = Inr u \<longleftrightarrow> isSafeInteger v \<and> 0 < v"
  "requireNonNegativeSafeInteger v = Inr u \<longleftrightarrow> isSafeInteger v \<and> 0 \<le> v"
  "requireSafeTime v = Inr u \<longleftrightarrow> isSafeInteger v"
  by (auto simp: requirePositiveSafeInteger_def requireNonNegativeSafeInteger_def requireSafeTime_def)

lemma deadline_Inr:
  assumes "suspicionDeadline decay start minimum maximum c k = Inr d"
  shows "d = start + suspicionDuration decay minimum maximum c k \<and> 0 < minimum \<and> minimum \<le> maximum \<and> isSafeInteger start"
  using assms by (auto simp: suspicionDeadline_def requires_Inr Let_def split: if_splits sum.splits)

lemma expire_inv:
  assumes gap: "sm_gap decay {k} m" and a: "js_get (sm_active m) k = Some a" and own: "ss_member a = k" and ok: "susp_ok decay a"
    and now: "ss_id a = i" "ss_revision a = r"
  shows "sm_inv decay (snd (sm_expire k i r now later m))"
  using gap_delete [OF gap] gap_schedule [OF gap own ok] a now own by (simp add: sm_expire_def)


lemma bounds_Inr:
  assumes "suspicionBounds n p = Inr (minimum, maximum)"
  shows "0 < minimum \<and> maximum = 6 * minimum"
  using assms by (auto simp: suspicionBounds_def requires_Inr suspicion_constants Let_def split: if_splits sum.splits)

lemma start_inv:
  assumes inv: "sm_inv decay m" and ran: "sm_start decay input now later m = Inr (b, m')"
  shows "sm_inv decay m'"
proof (cases "m' = m")
  case False
  let ?c = "js_get (sm_active m) (si_member input)"
  obtain minimum maximum deadline where
    d: "suspicionDeadline decay now minimum maximum 0 SUSPICION_CONFIRMATION_TARGET = Inr deadline"
    and m': "m' = (let active = \<lparr>ss_id = sm_nextId m, ss_member = si_member input, ss_incarnation = si_incarnation input,
                               ss_minimum = minimum, ss_maximum = maximum, ss_start = now, ss_reporter = si_reporter input,
                               ss_confirmationReporters = [], ss_deadline = deadline, ss_revision = 0, ss_timer = None\<rparr>;
                     m = (case ?c of None \<Rightarrow> m | Some c \<Rightarrow> sm_cancelTimer c m);
                     m = m\<lparr>sm_nextId := sm_nextId m + 1\<rparr>
                 in sm_schedule active later m)"
    using ran False by (auto simp: sm_start_def Let_def split: if_splits sum.splits prod.splits)
  have gap: "sm_gap decay {si_member input} (case ?c of None \<Rightarrow> m | Some c \<Rightarrow> sm_cancelTimer c m)"
    using gap_absent [OF inv] gap_cancel [OF inv _ refl] by (cases ?c) auto
  show ?thesis unfolding m' Let_def
    by (rule gap_schedule [where k = "si_member input"])
      (use gap deadline_Inr [OF d] d in \<open>simp_all add: susp_ok_def\<close>)
qed (use inv in simp)

lemma confirmed_deadline:
  assumes "decay_ok decay" and ok: "susp_ok decay a" and "length rs \<le> SUSPICION_CONFIRMATION_TARGET"
  shows "suspicionDeadline decay (ss_start a) (ss_minimum a) (ss_maximum a) (length rs) SUSPICION_CONFIRMATION_TARGET
    = Inr (ss_start a + suspicionDuration decay (ss_minimum a) (ss_maximum a) (length rs) SUSPICION_CONFIRMATION_TARGET)"
proof -
  let ?d = "suspicionDuration decay (ss_minimum a) (ss_maximum a) (length rs) SUSPICION_CONFIRMATION_TARGET"
  have open': "isSafeInteger (ss_start a)" "0 < ss_minimum a" "ss_minimum a \<le> ss_maximum a" "isSafeInteger (ss_minimum a)"
    "isSafeInteger (ss_maximum a)" "isSafeInteger (ss_start a + ss_maximum a)"
    using ok by (auto simp: susp_ok_def suspicionDeadline_def requires_Inr suspicionDuration_def requireSafeTime_def
        requirePositiveSafeInteger_def Let_def split: if_splits)
  have "0 < ?d" "?d \<le> ss_maximum a" using duration_bounds [OF assms(1) open'(3), of "length rs"] open'(2) by (auto intro: less_le_trans)
  then have "isSafeInteger (ss_start a + ?d)" using open'(1,6) by (auto simp: isSafeInteger_def)
  moreover have "isSafeInteger (int (length rs))" "isSafeInteger (int SUSPICION_CONFIRMATION_TARGET)"
    using assms(3) by (auto simp: isSafeInteger_def suspicion_constants)
  ultimately show ?thesis using open'
    by (simp add: suspicionDeadline_def requires_Inr Let_def requireSafeTime_def requirePositiveSafeInteger_def
        requireNonNegativeSafeInteger_def suspicion_constants)
qed

definition expiries :: "RangeError + bool \<times> SuspicionExpiry list \<Rightarrow> SuspicionExpiry list" where
  "expiries r = (case r of Inl _ \<Rightarrow> [] | Inr (_, es) \<Rightarrow> es)"

definition confirmed :: "(int \<Rightarrow> nat \<Rightarrow> nat \<Rightarrow> int) \<Rightarrow> jsstr \<Rightarrow> StoredSuspicion \<Rightarrow> StoredSuspicion" where
  "confirmed decay reporter a =
     (let rs = ss_confirmationReporters a @ [reporter]
      in a\<lparr>ss_confirmationReporters := rs,
           ss_deadline := ss_start a + suspicionDuration decay (ss_minimum a) (ss_maximum a) (length rs) SUSPICION_CONFIRMATION_TARGET,
           ss_revision := ss_revision a + 1, ss_timer := None\<rparr>)"

lemma confirmed_fields [simp]:
  "ss_member (confirmed decay r a) = ss_member a" "ss_incarnation (confirmed decay r a) = ss_incarnation a"
  "ss_start (confirmed decay r a) = ss_start a" "ss_minimum (confirmed decay r a) = ss_minimum a"
  "ss_maximum (confirmed decay r a) = ss_maximum a" "ss_id (confirmed decay r a) = ss_id a"
  "ss_revision (confirmed decay r a) = Suc (ss_revision a)"
  by (simp_all add: confirmed_def Let_def)

lemma confirm_cases:
  assumes inv: "sm_inv decay m" and dok: "decay_ok decay"
    and ran: "sm_confirm decay k inc reporter now later at' m = (r, m')"
  obtains (same) "m' = m" "expiries r = []"
  | (counted) a m1 where "js_get (sm_active m) k = Some a" "susp_ok decay (confirmed decay reporter a)"
      "sm_gap decay {k} m1" "js_get (sm_active m1) k = Some (confirmed decay reporter a)" "ss_member a = k"
      "\<forall>j. j \<noteq> k \<longrightarrow> js_get (sm_active m1) j = js_get (sm_active m) j"
      "(expiries r, m') =
         (if ss_deadline (confirmed decay reporter a) \<le> now
          then sm_expire k (ss_id (confirmed decay reporter a)) (ss_revision (confirmed decay reporter a)) later at' m1
          else ([], sm_schedule (confirmed decay reporter a) later m1))"
proof (cases "\<exists>a. requireIncarnation inc = Inr () \<and> js_get (sm_active m) k = Some a \<and> ss_incarnation a = inc \<and> reporter \<noteq> ss_reporter a
    \<and> reporter \<notin> set (ss_confirmationReporters a) \<and> length (ss_confirmationReporters a) < SUSPICION_CONFIRMATION_TARGET")
  case False
  then have "m' = m" "expiries r = []"
    using ran by (auto simp: sm_confirm_def expiries_def Let_def split: if_splits option.splits)
  then show ?thesis by (rule same)
next
  case True
  then obtain a where a: "requireIncarnation inc = Inr ()" "js_get (sm_active m) k = Some a" "ss_incarnation a = inc"
    "reporter \<noteq> ss_reporter a" "reporter \<notin> set (ss_confirmationReporters a)"
    "length (ss_confirmationReporters a) < SUSPICION_CONFIRMATION_TARGET" by blast
  let ?rs = "ss_confirmationReporters a @ [reporter]" and ?c = "confirmed decay reporter a"
  have ok: "susp_ok decay a" and own: "ss_member a = k" using gap_active [OF inv a(2)] by auto
  have d: "suspicionDeadline decay (ss_start a) (ss_minimum a) (ss_maximum a) (length ?rs) SUSPICION_CONFIRMATION_TARGET
      = Inr (ss_deadline ?c)"
    using confirmed_deadline [OF dok ok, of ?rs] a(6) by (simp add: confirmed_def Let_def)
  have ok': "susp_ok decay ?c" using ok a(4-6) by (auto simp: susp_ok_def confirmed_def Let_def)
  define m0 where "m0 = sm_cancelTimer (a\<lparr>ss_confirmationReporters := ?rs\<rparr>) m"
  define m1 where "m1 = m0\<lparr>sm_active := js_set k ?c (sm_active m0)\<rparr>"
  have gap: "sm_gap decay {k} m1" unfolding m1_def m0_def by (rule gap_set, rule gap_cancel [OF inv a(2)]) simp
  have act: "sm_active m0 = sm_active m" by (simp add: m0_def sm_cancelTimer_def split: option.split)
  have rec: "a\<lparr>ss_confirmationReporters := ?rs, ss_deadline := ss_deadline ?c, ss_timer := None, ss_revision := ss_revision a + 1\<rparr> = ?c"
    by (simp add: confirmed_def Let_def)
  have "sm_confirm decay k inc reporter now later at' m = (if ss_deadline ?c \<le> now
          then (let (expired, m) = sm_expire k (ss_id ?c) (ss_revision ?c) later at' m1 in (Inr (True, expired), m))
          else (Inr (True, []), sm_schedule ?c later m1))"
    using a d rec by (simp add: sm_confirm_def Let_def m1_def m0_def)
  then have "(expiries r, m') =
         (if ss_deadline ?c \<le> now then sm_expire k (ss_id ?c) (ss_revision ?c) later at' m1
          else ([], sm_schedule ?c later m1))"
    using ran by (auto simp: expiries_def split: if_splits prod.splits)
  then show ?thesis using counted [OF a(2) ok' gap] own act by (simp add: m1_def)
qed

lemma confirm_inv:
  assumes "sm_inv decay m" and "decay_ok decay" and "sm_confirm decay k inc reporter now later at' m = (r, m')"
  shows "sm_inv decay m'"
  using assms
proof (cases rule: confirm_cases)
  case (counted a m1)
  let ?c = "confirmed decay reporter a"
  have "sm_inv decay (snd (sm_expire k (ss_id ?c) (ss_revision ?c) later at' m1))" "sm_inv decay (sm_schedule ?c later m1)"
    using expire_inv [OF counted(3,4)] gap_schedule [OF counted(3)] counted(2,5) by simp_all
  then show ?thesis using counted(7) by (metis snd_conv)
qed (use assms(1) in simp)

lemma cancelThrough_inv:
  assumes inv: "sm_inv decay m" and "sm_cancelThrough k inc m = Inr (b, m')"
  shows "sm_inv decay m'"
proof (cases "js_get (sm_active m) k")
  case (Some a)
  have "sm_cancelTimer a (m\<lparr>sm_active := js_delete k (sm_active m)\<rparr>)
      = (sm_cancelTimer a m)\<lparr>sm_active := js_delete k (sm_active (sm_cancelTimer a m))\<rparr>"
    by (simp add: sm_cancelTimer_def split: option.split)
  then show ?thesis using assms Some gap_delete [OF gap_cancel [OF inv Some refl]]
    by (auto simp: sm_cancelThrough_def split: if_splits)
qed (use assms in \<open>simp add: sm_cancelThrough_def split: if_splits\<close>)

lemma fold_cancel_timers:
  "js_get (sm_timers (fold sm_cancelTimer as m)) tid = (if \<exists>a \<in> set as. ss_timer a = Some tid then None else js_get (sm_timers m) tid)"
  by (induction as arbitrary: m) (auto simp: sm_cancelTimer_def split: option.splits)

lemma cancelAll_empties:
  assumes inv: "sm_inv decay m"
  shows "sm_active (sm_cancelAll m) = [] \<and> sm_timers (sm_cancelAll m) = []"
proof -
  have "js_get (sm_timers (sm_cancelAll m)) tid = None" for tid
  proof (cases "js_get (sm_timers m) tid")
    case (Some t)
    then obtain a where "js_get (sm_active m) (tm_member t) = Some a" "ss_timer a = Some tid"
      using gap_timer [OF inv] by (auto simp: timer_owned_def)
    then show ?thesis using js_get_in_values by (force simp: sm_cancelAll_def fold_cancel_timers)
  qed (simp add: sm_cancelAll_def fold_cancel_timers)
  then have "map_of (sm_timers (sm_cancelAll m)) = Map.empty" by (intro ext)
  then have "sm_timers (sm_cancelAll m) = []" by (simp only: map_of_eq_empty_iff)
  then show ?thesis by (simp add: sm_cancelAll_def)
qed

lemma fire_gap:
  assumes inv: "sm_inv decay m" and t: "js_get (sm_timers m) tid = Some t"
  obtains a where "js_get (sm_active m) (tm_member t) = Some a" "ss_timer a = Some tid" "ss_member a = tm_member t" "susp_ok decay a"
    "ss_id a = tm_id t" "ss_revision a = tm_revision t" "sm_gap decay {tm_member t} (m\<lparr>sm_timers := js_delete tid (sm_timers m)\<rparr>)"
proof -
  obtain a where a: "js_get (sm_active m) (tm_member t) = Some a" "ss_timer a = Some tid"
    using gap_timer [OF inv t] by (auto simp: timer_owned_def)
  show ?thesis
    using that [OF a] gap_active [OF inv a(1)] a(2) t gap_drop_timer [OF inv a] by (auto simp: susp_live_def)
qed

lemma fire_inv:
  assumes inv: "sm_inv decay m"
  shows "sm_inv decay (snd (sm_fire tid now later m))"
proof (cases "js_get (sm_timers m) tid")
  case (Some t)
  show ?thesis using inv Some
  proof (cases rule: fire_gap)
    case (1 a)
    then show ?thesis using Some expire_inv [OF 1(7), of a] by (simp add: sm_fire_def)
  qed
qed (use inv in \<open>simp add: sm_fire_def\<close>)

text \<open>
  Every operation, and every firing of a pending timer, with the reading of the clock at
  which it could expire something.
\<close>

inductive sm_step :: "(int \<Rightarrow> nat \<Rightarrow> nat \<Rightarrow> int) \<Rightarrow> SuspicionManager \<Rightarrow> int \<Rightarrow> SuspicionExpiry list \<Rightarrow> SuspicionManager \<Rightarrow> bool"
  for decay where
  starts: "sm_start decay input now later m = Inr (b, m') \<Longrightarrow> sm_step decay m now [] m'"
| confirms: "sm_confirm decay k inc reporter now later latest m = (r, m') \<Longrightarrow> sm_step decay m later (expiries r) m'"
| cancels: "sm_cancelThrough k inc m = Inr (b, m') \<Longrightarrow> sm_step decay m now [] m'"
| cancels_all: "sm_step decay m now [] (sm_cancelAll m)"
| fires: "sm_fire tid now later m = (es, m') \<Longrightarrow> sm_step decay m now es m'"

inductive sm_reach :: "(int \<Rightarrow> nat \<Rightarrow> nat \<Rightarrow> int) \<Rightarrow> SuspicionManager \<Rightarrow> bool" for decay where
  initially: "sm_reach decay sm_new"
| next_step: "sm_reach decay m \<Longrightarrow> sm_step decay m now es m' \<Longrightarrow> sm_reach decay m'"

lemma step_inv:
  assumes "sm_step decay m now es m'" and "decay_ok decay" and "sm_inv decay m"
  shows "sm_inv decay m'"
  using assms
proof (induction rule: sm_step.induct)
  case (cancels_all m now)
  then show ?case using cancelAll_empties [of decay m] by (simp add: sm_gap_def)
next
  case (fires tid now later m es m')
  then show ?case using fire_inv [of decay m tid now later] by simp
qed (blast intro: start_inv confirm_inv cancelThrough_inv)+

lemma reach_inv:
  assumes "sm_reach decay m" and "decay_ok decay"
  shows "sm_inv decay m"
  using assms by (induction rule: sm_reach.induct) (auto intro: new_gap step_inv)

lemma susp_deadline_bounds:
  assumes "susp_ok decay a" and "decay_ok decay"
  shows "ss_start a + ss_minimum a \<le> ss_deadline a \<and> ss_deadline a \<le> ss_start a + ss_maximum a"
  using assms(1) duration_bounds [OF assms(2)] by (simp add: susp_ok_def)

lemma confirmed_sooner:
  assumes "susp_ok decay a" and "decay_ok decay"
  shows "ss_deadline (confirmed decay reporter a) \<le> ss_deadline a"
  using assms duration_antimono [OF assms(2), of "ss_minimum a" "ss_maximum a" "length (ss_confirmationReporters a)"]
  by (simp add: susp_ok_def confirmed_def Let_def suspicion_constants)

lemma expire_due:
  assumes "e \<in> set (fst (sm_expire k i r now later m))" and "js_get (sm_active m) k = Some a" and "ss_member a = k"
  shows "ex_member e = k \<and> ex_incarnation e = ss_incarnation a \<and> ss_deadline a \<le> now
    \<and> js_get (sm_active (snd (sm_expire k i r now later m))) k = None"
  using assms by (auto simp: sm_expire_def split: if_splits)

text \<open>What one step does to the suspicions: who is reported, and which deadlines move.\<close>

definition reported_due :: "SuspicionManager \<Rightarrow> int \<Rightarrow> SuspicionExpiry list \<Rightarrow> SuspicionManager \<Rightarrow> bool" where
  "reported_due m now es m' \<longleftrightarrow>
     (\<forall>e \<in> set es. \<exists>a. js_get (sm_active m) (ex_member e) = Some a \<and> ss_incarnation a = ex_incarnation e
            \<and> ss_start a + ss_minimum a \<le> now \<and> js_get (sm_active m') (ex_member e) = None)"

definition none_later :: "SuspicionManager \<Rightarrow> SuspicionManager \<Rightarrow> bool" where
  "none_later m m' \<longleftrightarrow>
     (\<forall>k a a'. js_get (sm_active m) k = Some a \<and> js_get (sm_active m') k = Some a' \<and> ss_incarnation a' = ss_incarnation a
          \<longrightarrow> ss_deadline a' \<le> ss_deadline a)"

lemma due_Nil [simp]: "reported_due m now [] m'"
  by (simp add: reported_due_def)

lemma later_refl [simp]: "none_later m m"
  by (auto simp: none_later_def)

lemma cancelTimer_active [simp]: "sm_active (sm_cancelTimer a m) = sm_active m"
  by (simp add: sm_cancelTimer_def split: option.split)

lemma schedule_active [simp]:
  "sm_active (sm_schedule a now m) = js_set (ss_member a) (a\<lparr>ss_timer := Some (sm_nextTimer m)\<rparr>) (sm_active m)"
  by (simp add: sm_schedule_def Let_def)

lemma start_later: "sm_start decay input now later m = Inr (b, m') \<Longrightarrow> none_later m m'"
  by (auto simp: sm_start_def none_later_def Let_def split: if_splits sum.splits prod.splits option.splits)

lemma expire_later:
  assumes "js_get (sm_active m) k = Some a" and "ss_member a = k" and "js_get (sm_active (snd (sm_expire k i r now later m))) j = Some b"
  shows "\<exists>c. js_get (sm_active m) j = Some c \<and> ss_deadline b = ss_deadline c \<and> ss_incarnation b = ss_incarnation c"
  using assms by (auto simp: sm_expire_def split: if_splits)

lemma cancelThrough_later: "sm_cancelThrough k inc m = Inr (b, m') \<Longrightarrow> none_later m m'"
  by (auto simp: sm_cancelThrough_def none_later_def split: if_splits option.splits)

lemma fire_effect:
  assumes inv: "sm_inv decay m" and dok: "decay_ok decay" and ran: "sm_fire tid now later m = (es, m')"
  shows "reported_due m now es m' \<and> none_later m m'"
proof (cases "js_get (sm_timers m) tid")
  case (Some t)
  let ?m = "m\<lparr>sm_timers := js_delete tid (sm_timers m)\<rparr>"
  obtain a where a: "js_get (sm_active ?m) (tm_member t) = Some a" "ss_member a = tm_member t" "susp_ok decay a"
    using fire_gap [OF inv Some] by auto
  have ran: "es = fst (sm_expire (tm_member t) (tm_id t) (tm_revision t) now later ?m)"
    "m' = snd (sm_expire (tm_member t) (tm_id t) (tm_revision t) now later ?m)"
    using ran Some by (simp_all add: sm_fire_def)
  have "reported_due m now es m'"
    unfolding reported_due_def using expire_due [OF _ a(1,2)] susp_deadline_bounds [OF a(3) dok] a(1) unfolding ran by fastforce
  moreover have "none_later m m'"
    unfolding none_later_def ran using expire_later [OF a(1,2)] by fastforce
  ultimately show ?thesis ..
qed (use ran in \<open>auto simp: sm_fire_def\<close>)

lemma confirm_effect:
  assumes inv: "sm_inv decay m" and dok: "decay_ok decay" and ran: "sm_confirm decay k inc reporter now later latest m = (r, m')"
  shows "reported_due m later (expiries r) m' \<and> none_later m m'"
  using inv dok ran
proof (cases rule: confirm_cases)
  case same
  then show ?thesis by simp
next
  case (counted a m1)
  let ?c = "confirmed decay reporter a"
  have own: "ss_member ?c = k" using counted(5) by simp
  have sooner: "ss_deadline ?c \<le> ss_deadline a" using confirmed_sooner [OF _ dok] gap_active [OF inv counted(1)] by simp
  have before: "\<exists>c. js_get (sm_active m) j = Some c \<and> ss_deadline b \<le> ss_deadline c \<and> ss_incarnation b = ss_incarnation c"
    if "js_get (sm_active m1) j = Some b" for j b
    using that counted(1,4,6) sooner by (cases "j = k") auto
  show ?thesis
  proof (cases "ss_deadline ?c \<le> now")
    case True
    let ?e = "sm_expire k (ss_id ?c) (ss_revision ?c) later latest m1"
    have ran: "expiries r = fst ?e" "m' = snd ?e" using counted(7) True by (metis fst_conv, metis snd_conv)
    have "reported_due m later (expiries r) m'" unfolding reported_due_def ran
      using expire_due [OF _ counted(4) own] susp_deadline_bounds [OF counted(2) dok] counted(1) by fastforce
    moreover have "none_later m m'" unfolding none_later_def ran using expire_later [OF counted(4) own] before by fastforce
    ultimately show ?thesis ..
  next
    case False
    then have "expiries r = []" "m' = sm_schedule ?c later m1" using counted(7) by auto
    then show ?thesis using before counted(1) own sooner by (fastforce simp: none_later_def split: if_splits)
  qed
qed

lemma step_effect:
  assumes "sm_step decay m now es m'" and "decay_ok decay" and "sm_inv decay m"
  shows "reported_due m now es m' \<and> none_later m m'"
  using assms
proof (induction rule: sm_step.induct)
  case (cancels_all m now)
  then show ?case by (simp add: none_later_def sm_cancelAll_def)
next
  case (confirms k inc reporter now later latest m r m')
  then show ?case using confirm_effect [OF confirms(3,2,1)] by simp
next
  case (fires tid now later m es m')
  then show ?case using fire_effect [OF fires(3,2,1)] by simp
qed (simp_all add: start_later cancelThrough_later)

text \<open>A suspicion of \<open>b\<close> in a cluster of two, and a decay that is linear in the confirmations.\<close>

definition linear_decay :: "int \<Rightarrow> nat \<Rightarrow> nat \<Rightarrow> int" where
  "linear_decay spread c k = spread * int c div int k"

definition sample_start :: SuspicionStart where
  "sample_start = \<lparr>si_member = js ''b'', si_incarnation = 1, si_reporter = js ''a'', si_memberCount = 2, si_effectivePeriod = 1000\<rparr>"

definition sample_suspicion :: StoredSuspicion where
  "sample_suspicion = \<lparr>ss_id = 0, ss_member = js ''b'', ss_incarnation = 1, ss_minimum = 4000, ss_maximum = 24000, ss_start = 0,
     ss_reporter = js ''a'', ss_confirmationReporters = [], ss_deadline = 24000, ss_revision = 0, ss_timer = Some 0\<rparr>"

definition sample_manager :: SuspicionManager where
  "sample_manager = \<lparr>sm_active = [(js ''b'', sample_suspicion)],
     sm_timers = [(0, \<lparr>tm_id = 0, tm_member = js ''b'', tm_revision = 0, tm_due = 24000\<rparr>)], sm_nextTimer = 1, sm_nextId = 1\<rparr>"

lemma linear_decay_ok: "decay_ok linear_decay"
proof -
  have "0 \<le> spread * int c div int k \<and> spread * int c div int k \<le> spread
      \<and> (\<forall>d. c \<le> d \<and> d < k \<longrightarrow> spread * int c div int k \<le> spread * int d div int k)"
    if "0 \<le> spread" "c < k" for spread c k
  proof (intro conjI allI impI)
    have "spread * int c div int k \<le> spread * int k div int k"
      using that by (intro zdiv_mono1 mult_left_mono) auto
    then show "spread * int c div int k \<le> spread" using that by simp
  qed (use that in \<open>auto simp: pos_imp_zdiv_nonneg_iff intro!: zdiv_mono1 mult_left_mono\<close>)
  then show ?thesis unfolding decay_ok_def linear_decay_def by blast
qed

lemma sample_started: "sm_start linear_decay sample_start 0 0 sm_new = Inr (True, sample_manager)"
  by (simp add: sm_start_def sample_start_def sm_new_def sample_manager_def sample_suspicion_def sm_schedule_def Let_def
      requireIncarnation_def requireNonNegativeSafeInteger_def requirePositiveSafeInteger_def requireSafeTime_def isSafeInteger_def
      MAX_INCARNATION_def suspicionBounds_def suspicionDeadline_def suspicionDuration_def suspicion_constants ceil_log10.simps
      js_def)

lemma sample_manager_reach: "sm_reach linear_decay sample_manager"
  by (rule sm_reach.next_step [OF sm_reach.initially sm_step.starts [OF sample_started]])

text \<open>
  C16. In every state the manager can reach, an active suspicion's deadline lies within its
  bounds and it holds a pending timer; firing that timer at any reading from the deadline
  on reports exactly this member at the suspected incarnation, and removes the suspicion
  with its timer.
\<close>

theorem suspicion_always_resolves:
  assumes "sm_reach decay m" and "decay_ok decay" and "js_get (sm_active m) k = Some a"
  shows "ss_start a + ss_minimum a \<le> ss_deadline a \<and> ss_deadline a \<le> ss_start a + ss_maximum a
    \<and> (\<exists>tid. ss_timer a = Some tid \<and> (\<forall>now later. ss_deadline a \<le> now \<longrightarrow>
          sm_fire tid now later m
            = ([\<lparr>ex_member = k, ex_incarnation = ss_incarnation a\<rparr>],
               m\<lparr>sm_active := js_delete k (sm_active m), sm_timers := js_delete tid (sm_timers m)\<rparr>)))"
proof -
  have a: "ss_member a = k" "susp_ok decay a" "susp_live m k a" using gap_active [OF reach_inv [OF assms(1,2)] assms(3)] by auto
  obtain tid t where t: "ss_timer a = Some tid" "js_get (sm_timers m) tid = Some t" "tm_member t = k" "tm_id t = ss_id a"
    "tm_revision t = ss_revision a"
    using a(3) by (auto simp: susp_live_def)
  have "sm_fire tid now later m = ([\<lparr>ex_member = k, ex_incarnation = ss_incarnation a\<rparr>],
      m\<lparr>sm_active := js_delete k (sm_active m), sm_timers := js_delete tid (sm_timers m)\<rparr>)" if "ss_deadline a \<le> now" for now later
    using that t a(1) assms(3) by (simp add: sm_fire_def sm_expire_def)
  then show ?thesis using t(1) susp_deadline_bounds [OF a(2) assms(2)] by auto
qed

theorem suspicion_always_resolves_witness:
  "sm_reach linear_decay sample_manager \<and> sm_fire 0 24000 24000 sample_manager
     = ([\<lparr>ex_member = js ''b'', ex_incarnation = 1\<rparr>], \<lparr>sm_active = [], sm_timers = [], sm_nextTimer = 1, sm_nextId = 1\<rparr>)"
proof -
  have b: "js_get (sm_active sample_manager) (js ''b'') = Some sample_suspicion" by (simp add: sample_manager_def)
  have "sm_fire 0 24000 24000 sample_manager = ([\<lparr>ex_member = js ''b'', ex_incarnation = ss_incarnation sample_suspicion\<rparr>],
      sample_manager\<lparr>sm_active := js_delete (js ''b'') (sm_active sample_manager), sm_timers := js_delete 0 (sm_timers sample_manager)\<rparr>)"
    using suspicion_always_resolves [OF sample_manager_reach linear_decay_ok b] by (simp add: sample_suspicion_def)
  then show ?thesis using sample_manager_reach by (simp add: sample_manager_def sample_suspicion_def)
qed

text \<open>
  C24. Whatever step is taken from a reachable state, whoever is reported expired was
  suspected at that incarnation for at least the minimum its start captured, and is
  suspected no more; and a suspicion that survives the step at the same incarnation and
  start has kept or lowered its deadline.
\<close>

theorem expires_only_when_due:
  assumes "sm_reach decay m" and "decay_ok decay" and "sm_step decay m now es m'"
  shows "(\<forall>e \<in> set es. \<exists>a. js_get (sm_active m) (ex_member e) = Some a \<and> ss_incarnation a = ex_incarnation e
            \<and> ss_start a + ss_minimum a \<le> now \<and> js_get (sm_active m') (ex_member e) = None)
    \<and> (\<forall>k a a'. js_get (sm_active m) k = Some a \<and> js_get (sm_active m') k = Some a' \<and> ss_incarnation a' = ss_incarnation a
          \<longrightarrow> ss_deadline a' \<le> ss_deadline a)"
  using step_effect [OF assms(3,2) reach_inv [OF assms(1,2)]] unfolding reported_due_def none_later_def .

theorem expires_only_when_due_witness:
  "sm_step linear_decay sample_manager 24000 [\<lparr>ex_member = js ''b'', ex_incarnation = 1\<rparr>] (snd (sm_fire 0 24000 24000 sample_manager))
   \<and> ss_start sample_suspicion + ss_minimum sample_suspicion \<le> 24000"
proof -
  have b: "js_get (sm_active sample_manager) (js ''b'') = Some sample_suspicion" by (simp add: sample_manager_def)
  have "sm_fire 0 24000 24000 sample_manager = ([\<lparr>ex_member = js ''b'', ex_incarnation = 1\<rparr>], snd (sm_fire 0 24000 24000 sample_manager))"
    by (simp add: sm_fire_def sm_expire_def sample_manager_def sample_suspicion_def)
  then have s: "sm_step linear_decay sample_manager 24000 [\<lparr>ex_member = js ''b'', ex_incarnation = 1\<rparr>]
      (snd (sm_fire 0 24000 24000 sample_manager))"
    by (rule sm_step.fires)
  then show ?thesis using expires_only_when_due [OF sample_manager_reach linear_decay_ok s] b by simp
qed

end
