(* ===== verification/Broadcast.thy ===== *)
theory Broadcast
  imports Suspicion MembershipWire
begin

text \<open>
  The transmit-limited broadcast queue, \<open>src/membership/broadcast.ts\<close>: at most one truth per
  member, each with a budget of accepted sends, a side-effect-free selection within byte
  and record budgets, and an acknowledgement that charges what is still current.  The
  identity of a selection is a number, and the weak map of receipts a map from it.

  The theory shows that a selection respects its budgets and leaves out only what does not
  fit, that an acknowledgement charges a truth exactly once, and that every queued truth
  is sent exactly as often as its budget says before the queue drains.
\<close>

section \<open>The queue\<close>

definition RETRANSMIT_MULTIPLIER :: int where "RETRANSMIT_MULTIPLIER = 4"

datatype BroadcastFault = ProtocolFault | RangeFault

record BroadcastSnapshot =
  sn_update :: MembershipUpdate
  sn_priority :: bool
  sn_initialRemaining :: int
  sn_remaining :: int
  sn_transmissions :: int

record BroadcastPackOptions =
  po_perRecordOverhead :: "int option"
  po_buddy :: "MembershipUpdate option"
  po_maxRecords :: "int option"

record BroadcastSelection =
  bs_id :: nat
  bs_updates :: "MembershipUpdate list"
  bs_bytes :: int

record QueuedBroadcast =
  qb_update :: MembershipUpdate
  qb_encodedBytes :: int
  qb_priority :: bool
  qb_initialRemaining :: int
  qb_order :: nat
  qb_generation :: nat
  qb_remaining :: int

type_synonym IncludedQueuedRecord = "jsstr \<times> nat"

record BroadcastQueue =
  bq_queued :: "(jsstr, QueuedBroadcast) jsmap"
  bq_receipts :: "(nat, IncludedQueuedRecord list) jsmap"
  bq_nextOrder :: nat
  bq_nextGeneration :: nat
  bq_nextSelection :: nat

definition bq_new :: BroadcastQueue where
  "bq_new = \<lparr>bq_queued = [], bq_receipts = [], bq_nextOrder = 0, bq_nextGeneration = 0, bq_nextSelection = 0\<rparr>"

definition assertNonnegativeInteger :: "int \<Rightarrow> BroadcastFault + unit" where
  "assertNonnegativeInteger value = (if \<not> isSafeInteger value \<or> value < 0 then Inl RangeFault else Inr ())"

definition compareQueued :: "QueuedBroadcast \<Rightarrow> QueuedBroadcast \<Rightarrow> int" where
  "compareQueued left right =
     (if qb_priority left \<noteq> qb_priority right then (if qb_priority left then - 1 else 1)
      else
        let leftTransmissions = qb_initialRemaining left - qb_remaining left;
            rightTransmissions = qb_initialRemaining right - qb_remaining right
        in if leftTransmissions \<noteq> rightTransmissions then leftTransmissions - rightTransmissions
           else int (qb_order left) - int (qb_order right))"

definition truthMatches :: "MembershipUpdate \<Rightarrow> MembershipUpdate \<Rightarrow> bool" where
  "truthMatches left right \<longleftrightarrow> mu_incarnation left = mu_incarnation right \<and> mu_state left = mu_state right"

definition compareUpdates :: "MembershipUpdate \<Rightarrow> MembershipUpdate \<Rightarrow> int" where
  "compareUpdates left right = compareMembershipUpdates (mu_incarnation left) (mu_state left) (mu_incarnation right) (mu_state right)"

definition bq_size :: "BroadcastQueue \<Rightarrow> nat" where
  "bq_size q = length (bq_queued q)"

definition bq_store :: "MembershipUpdate \<Rightarrow> nat \<Rightarrow> int \<Rightarrow> bool \<Rightarrow> BroadcastQueue \<Rightarrow> BroadcastFault + BroadcastQueue" where
  "bq_store incoming encodedBytes aliveOrSuspectCount prioritySelfDefense q =
     (case assertNonnegativeInteger aliveOrSuspectCount of
        Inl e \<Rightarrow> Inl e
      | Inr _ \<Rightarrow>
          let memberCount = max 1 aliveOrSuspectCount;
              remaining = RETRANSMIT_MULTIPLIER * int (ceil_log10 (nat (memberCount + 1)));
              update = copyMembershipUpdate incoming;
              record = \<lparr>qb_update = update, qb_encodedBytes = int encodedBytes,
                        qb_priority = (prioritySelfDefense \<and> mu_state update = STATE_ALIVE), qb_initialRemaining = remaining,
                        qb_order = bq_nextOrder q, qb_generation = bq_nextGeneration q, qb_remaining = remaining\<rparr>
          in Inr (q\<lparr>bq_queued := js_set (mu_member update) record (bq_queued q), bq_nextOrder := bq_nextOrder q + 1,
                    bq_nextGeneration := bq_nextGeneration q + 1\<rparr>))"

definition bq_enqueue :: "MembershipUpdate \<Rightarrow> int \<Rightarrow> bool \<Rightarrow> BroadcastQueue \<Rightarrow> BroadcastFault + bool \<times> BroadcastQueue" where
  "bq_enqueue incoming aliveOrSuspectCount prioritySelfDefense q =
     (case membershipUpdateSize incoming of
        None \<Rightarrow> Inl ProtocolFault
      | Some encodedBytes \<Rightarrow>
          if (case js_get (bq_queued q) (mu_member incoming) of None \<Rightarrow> False | Some current \<Rightarrow> compareUpdates incoming (qb_update current) \<le> 0)
          then Inr (False, q)
          else
            (case bq_store incoming encodedBytes aliveOrSuspectCount prioritySelfDefense q of
               Inl e \<Rightarrow> Inl e
             | Inr q \<Rightarrow> Inr (True, q)))"

definition bq_enqueueConfirmation :: "MembershipUpdate \<Rightarrow> int \<Rightarrow> BroadcastQueue \<Rightarrow> BroadcastFault + bool \<times> BroadcastQueue" where
  "bq_enqueueConfirmation incoming aliveOrSuspectCount q =
     (case membershipUpdateSize incoming of
        None \<Rightarrow> Inl ProtocolFault
      | Some encodedBytes \<Rightarrow>
          if mu_state incoming \<noteq> STATE_SUSPECT then Inr (False, q)
          else if (case js_get (bq_queued q) (mu_member incoming) of
                     None \<Rightarrow> False
                   | Some current \<Rightarrow>
                       let precedence = compareUpdates incoming (qb_update current)
                       in precedence < 0 \<or> (precedence = 0 \<and> mu_reporter incoming = mu_reporter (qb_update current)))
          then Inr (False, q)
          else
            (case bq_store incoming encodedBytes aliveOrSuspectCount False q of
               Inl e \<Rightarrow> Inl e
             | Inr q \<Rightarrow> Inr (True, q)))"

definition bq_get :: "jsstr \<Rightarrow> BroadcastQueue \<Rightarrow> BroadcastSnapshot option" where
  "bq_get member q =
     map_option (\<lambda>record. \<lparr>sn_update = copyMembershipUpdate (qb_update record), sn_priority = qb_priority record,
        sn_initialRemaining = qb_initialRemaining record, sn_remaining = qb_remaining record,
        sn_transmissions = qb_initialRemaining record - qb_remaining record\<rparr>) (js_get (bq_queued q) member)"

record PackState =
  pk_chosen :: "MembershipUpdate list"
  pk_included :: "IncludedQueuedRecord list"
  pk_bytes :: int

fun pack_loop :: "QueuedBroadcast list \<Rightarrow> int \<Rightarrow> int \<Rightarrow> int \<Rightarrow> jsstr option \<Rightarrow> PackState \<Rightarrow> PackState" where
  "pack_loop [] maxRecords byteBudget overhead buddyMember s = s"
| "pack_loop (record # ordered) maxRecords byteBudget overhead buddyMember s =
     (if int (length (pk_chosen s)) \<ge> maxRecords then s
      else if Some (mu_member (qb_update record)) = buddyMember then pack_loop ordered maxRecords byteBudget overhead buddyMember s
      else
        let recordBytes = qb_encodedBytes record + overhead in
        if pk_bytes s + recordBytes > byteBudget then pack_loop ordered maxRecords byteBudget overhead buddyMember s
        else pack_loop ordered maxRecords byteBudget overhead buddyMember
               \<lparr>pk_chosen = pk_chosen s @ [copyMembershipUpdate (qb_update record)],
                pk_included = pk_included s @ [(mu_member (qb_update record), qb_generation record)],
                pk_bytes = pk_bytes s + recordBytes\<rparr>)"

definition pack_buddy ::
  "MembershipUpdate option \<Rightarrow> int \<Rightarrow> int \<Rightarrow> int \<Rightarrow> BroadcastQueue \<Rightarrow> BroadcastFault + PackState \<times> jsstr option" where
  "pack_buddy buddy maxRecords byteBudget overhead q =
     (let empty = \<lparr>pk_chosen = [], pk_included = [], pk_bytes = 0\<rparr> in
      case buddy of
        None \<Rightarrow> Inr (empty, None)
      | Some buddy \<Rightarrow>
          if \<not> maxRecords > 0 then Inr (empty, None)
          else
            (case membershipUpdateSize buddy of
               None \<Rightarrow> Inl ProtocolFault
             | Some size' \<Rightarrow>
                 let buddyBytes = int size' + overhead in
                 if buddyBytes \<le> byteBudget
                 then Inr (\<lparr>pk_chosen = [copyMembershipUpdate buddy],
                            pk_included =
                              (case js_get (bq_queued q) (mu_member buddy) of
                                 None \<Rightarrow> []
                               | Some queuedBuddy \<Rightarrow>
                                   if truthMatches (qb_update queuedBuddy) buddy
                                   then [(mu_member (qb_update queuedBuddy), qb_generation queuedBuddy)] else []),
                            pk_bytes = buddyBytes\<rparr>, Some (mu_member buddy))
                 else Inr (empty, None)))"

definition bq_pack :: "int \<Rightarrow> BroadcastPackOptions \<Rightarrow> BroadcastQueue \<Rightarrow> BroadcastFault + BroadcastSelection \<times> BroadcastQueue" where
  "bq_pack byteBudget options q =
     (let perRecordOverhead = (case po_perRecordOverhead options of None \<Rightarrow> 0 | Some n \<Rightarrow> n);
          maxRecords = (case po_maxRecords options of None \<Rightarrow> int UPDATE_LIST_MAX_RECORDS | Some n \<Rightarrow> n)
      in
      if assertNonnegativeInteger byteBudget \<noteq> Inr () \<or> assertNonnegativeInteger perRecordOverhead \<noteq> Inr ()
         \<or> assertNonnegativeInteger maxRecords \<noteq> Inr () then Inl RangeFault
      else if maxRecords > int UPDATE_LIST_MAX_RECORDS then Inl RangeFault
      else
        case pack_buddy (po_buddy options) maxRecords byteBudget perRecordOverhead q of
          Inl e \<Rightarrow> Inl e
        | Inr (s, buddyMember) \<Rightarrow>
            let ordered = js_sort compareQueued (js_values (bq_queued q));
                s = pack_loop ordered maxRecords byteBudget perRecordOverhead buddyMember s;
                selection = \<lparr>bs_id = bq_nextSelection q, bs_updates = pk_chosen s, bs_bytes = pk_bytes s\<rparr>
            in Inr (selection, q\<lparr>bq_receipts := js_set (bs_id selection) (pk_included s) (bq_receipts q),
                                 bq_nextSelection := bq_nextSelection q + 1\<rparr>))"

definition charge :: "IncludedQueuedRecord \<Rightarrow> (jsstr, QueuedBroadcast) jsmap \<Rightarrow> (jsstr, QueuedBroadcast) jsmap" where
  "charge included queued =
     (case js_get queued (fst included) of
        None \<Rightarrow> queued
      | Some current \<Rightarrow>
          if qb_generation current \<noteq> snd included then queued
          else
            let current = current\<lparr>qb_remaining := qb_remaining current - 1\<rparr> in
            if qb_remaining current = 0 then js_delete (fst included) queued else js_set (fst included) current queued)"

definition bq_acknowledge :: "BroadcastSelection \<Rightarrow> bool \<Rightarrow> BroadcastQueue \<Rightarrow> bool \<times> BroadcastQueue" where
  "bq_acknowledge selection accepted q =
     (case js_get (bq_receipts q) (bs_id selection) of
        None \<Rightarrow> (False, q)
      | Some included \<Rightarrow>
          let q = q\<lparr>bq_receipts := js_delete (bs_id selection) (bq_receipts q)\<rparr> in
          if \<not> accepted then (True, q)
          else (True, q\<lparr>bq_queued := fold charge included (bq_queued q)\<rparr>))"

section \<open>The queue's invariant\<close>

definition queued_ok :: "nat \<Rightarrow> jsstr \<Rightarrow> QueuedBroadcast \<Rightarrow> bool" where
  "queued_ok g k r \<longleftrightarrow> mu_member (qb_update r) = k \<and> 0 < qb_remaining r \<and> qb_remaining r \<le> qb_initialRemaining r \<and> qb_generation r < g
     \<and> membershipUpdateSize (qb_update r) = Some (nat (qb_encodedBytes r)) \<and> 0 \<le> qb_encodedBytes r"

definition bq_inv :: "BroadcastQueue \<Rightarrow> bool" where
  "bq_inv q \<longleftrightarrow> js_ok (bq_queued q)
     \<and> (\<forall>k r. js_get (bq_queued q) k = Some r \<longrightarrow> queued_ok (bq_nextGeneration q) k r)
     \<and> (\<forall>i inc. js_get (bq_receipts q) i = Some inc \<longrightarrow> i < bq_nextSelection q \<and> distinct (map fst inc))"

lemma copy_same [simp]: "copyMembershipUpdate (u :: MembershipUpdate) = u"
  by (cases u) (simp add: copyMembershipUpdate_def MembershipUpdate.truncate_def)

lemma bq_inv_get: "bq_inv q \<Longrightarrow> js_get (bq_queued q) k = Some r \<Longrightarrow> queued_ok (bq_nextGeneration q) k r"
  by (simp add: bq_inv_def)

lemma queued_ok_later: "queued_ok g k r \<Longrightarrow> g \<le> g' \<Longrightarrow> queued_ok g' k r"
  by (simp add: queued_ok_def)

lemma budget_positive: "0 < RETRANSMIT_MULTIPLIER * int (ceil_log10 (nat (max 1 c + 1)))"
proof -
  have "\<not> nat (max 1 c + 1) \<le> 10 ^ 0" by simp
  then have "0 < ceil_log10 (nat (max 1 c + 1))" using ceil_log10_correct [of "nat (max 1 c + 1)" 0] by simp
  then show ?thesis by (simp add: RETRANSMIT_MULTIPLIER_def)
qed

lemma store_inv:
  assumes inv: "bq_inv q" and size: "membershipUpdateSize u = Some n" and ran: "bq_store u n c p q = Inr q'"
  shows "bq_inv q'"
proof -
  obtain r where q': "q' = q\<lparr>bq_queued := js_set (mu_member u) r (bq_queued q), bq_nextOrder := bq_nextOrder q + 1,
      bq_nextGeneration := bq_nextGeneration q + 1\<rparr>" and r: "queued_ok (bq_nextGeneration q + 1) (mu_member u) r"
    using ran size budget_positive [of c] by (auto simp: bq_store_def Let_def queued_ok_def split: sum.splits)
  have "queued_ok (bq_nextGeneration q + 1) k s" if "js_get (bq_queued q) k = Some s" for k s
    using queued_ok_later [OF bq_inv_get [OF inv that]] by simp
  then show ?thesis using inv r unfolding q' by (auto simp: bq_inv_def)
qed

lemma enqueue_inv: "bq_inv q \<Longrightarrow> bq_enqueue u c p q = Inr (b, q') \<Longrightarrow> bq_inv q'"
  by (auto simp: bq_enqueue_def intro: store_inv split: option.splits if_splits sum.splits)

lemma enqueueConfirmation_inv: "bq_inv q \<Longrightarrow> bq_enqueueConfirmation u c q = Inr (b, q') \<Longrightarrow> bq_inv q'"
  by (auto simp: bq_enqueueConfirmation_def Let_def intro: store_inv split: option.splits if_splits sum.splits)

section \<open>Selections\<close>

definition queue_key :: "QueuedBroadcast \<Rightarrow> bool \<times> int \<times> nat" where
  "queue_key r = (\<not> qb_priority r, qb_initialRemaining r - qb_remaining r, qb_order r)"

lemma compareQueued_key: "compareQueued a b \<le> 0 \<longleftrightarrow> queue_key a \<le> queue_key b"
  by (auto simp: compareQueued_def queue_key_def Let_def)

definition ordered :: "BroadcastQueue \<Rightarrow> QueuedBroadcast list" where
  "ordered q = js_sort compareQueued (js_values (bq_queued q))"

definition in_queue :: "QueuedBroadcast \<Rightarrow> jsstr" where
  "in_queue r = mu_member (qb_update r)"

lemma ordered_queue:
  assumes inv: "bq_inv q"
  shows "r \<in> set (ordered q) \<longleftrightarrow> js_get (bq_queued q) (in_queue r) = Some r" "distinct (map in_queue (ordered q))"
    "sorted (map queue_key (ordered q))"
proof -
  have sort: "ordered q = sort_key queue_key (js_values (bq_queued q))"
    unfolding ordered_def by (rule js_sort_key) (rule compareQueued_key)
  have ok: "js_ok (bq_queued q)" using inv by (simp add: bq_inv_def)
  have keys: "map in_queue (js_values (bq_queued q)) = js_keys (bq_queued q)"
  proof -
    have "in_queue (snd p) = fst p" if "p \<in> set (bq_queued q)" for p
      using bq_inv_get [OF inv, of "fst p" "snd p"] js_get_iff [OF ok] that by (simp add: queued_ok_def in_queue_def)
    then show ?thesis by simp
  qed
  show "r \<in> set (ordered q) \<longleftrightarrow> js_get (bq_queued q) (in_queue r) = Some r"
  proof
    assume "r \<in> set (ordered q)"
    then obtain k where k: "js_get (bq_queued q) k = Some r" using js_values_get [OF ok] by (auto simp: sort)
    then show "js_get (bq_queued q) (in_queue r) = Some r" using bq_inv_get [OF inv k] by (simp add: queued_ok_def in_queue_def)
  qed (auto simp: sort dest: js_get_in_values)
  have "mset (map in_queue (ordered q)) = mset (js_keys (bq_queued q))" unfolding keys [symmetric] sort by (simp add: multiset.map_comp)
  then show "distinct (map in_queue (ordered q))" using ok by (metis js_ok_def mset_eq_imp_distinct_iff)
  show "sorted (map queue_key (ordered q))" by (simp add: sort)
qed

text \<open>
  What the loop adds to what it was given: some of the records in their order, within the
  budgets, leaving out a record only for the buddy, the count or the bytes.
\<close>

lemma pack_loop_result:
  assumes "\<forall>r \<in> set rs. 0 \<le> qb_encodedBytes r + overhead" and "distinct (map in_queue rs)"
  shows "\<exists>cs. pack_loop rs k budget overhead buddy s = \<lparr>pk_chosen = pk_chosen s @ map qb_update cs,
      pk_included = pk_included s @ map (\<lambda>r. (in_queue r, qb_generation r)) cs,
      pk_bytes = pk_bytes s + sum_list (map (\<lambda>r. qb_encodedBytes r + overhead) cs)\<rparr>
    \<and> set cs \<subseteq> set rs \<and> distinct (map in_queue cs) \<and> (\<forall>r \<in> set cs. Some (in_queue r) \<noteq> buddy)
    \<and> (int (length (pk_chosen s)) \<le> k \<longrightarrow> int (length (pk_chosen s @ map qb_update cs)) \<le> k)
    \<and> (pk_bytes s \<le> budget \<longrightarrow> pk_bytes s + sum_list (map (\<lambda>r. qb_encodedBytes r + overhead) cs) \<le> budget)
    \<and> (\<forall>r \<in> set rs. r \<in> set cs \<or> Some (in_queue r) = buddy \<or> k \<le> int (length (pk_chosen s @ map qb_update cs))
         \<or> budget < pk_bytes s + sum_list (map (\<lambda>r. qb_encodedBytes r + overhead) cs) + (qb_encodedBytes r + overhead))"
  (is "\<exists>cs. ?P rs s cs")
  using assms
proof (induction rs arbitrary: s)
  case Nil
  show ?case by (rule exI [of _ "[]"]) simp
next
  case (Cons r rs)
  have ih: "\<exists>cs. ?P rs s cs" for s using Cons by simp
  have pos: "0 \<le> sum_list (map (\<lambda>r. qb_encodedBytes r + overhead) cs)" if "set cs \<subseteq> set rs" for cs
    using that Cons.prems(1) by (intro sum_list_nonneg) auto
  consider "int (length (pk_chosen s)) \<ge> k" | "int (length (pk_chosen s)) < k" "Some (in_queue r) = buddy"
    | "int (length (pk_chosen s)) < k" "Some (in_queue r) \<noteq> buddy" "pk_bytes s + (qb_encodedBytes r + overhead) > budget"
    | "int (length (pk_chosen s)) < k" "Some (in_queue r) \<noteq> buddy" "pk_bytes s + (qb_encodedBytes r + overhead) \<le> budget" by linarith
  then show ?case
  proof cases
    case 1
    then show ?thesis by (intro exI [of _ "[]"]) simp
  next
    case 2
    obtain cs where "?P rs s cs" using ih by blast
    then show ?thesis using 2 by (intro exI [of _ cs]) (auto simp: in_queue_def)
  next
    case 3
    obtain cs where cs: "?P rs s cs" using ih by blast
    then have "budget < pk_bytes s + sum_list (map (\<lambda>r. qb_encodedBytes r + overhead) cs) + (qb_encodedBytes r + overhead)"
      using 3(3) pos [of cs] by linarith
    then show ?thesis using 3 cs by (intro exI [of _ cs]) (auto simp: in_queue_def Let_def)
  next
    case 4
    let ?s = "\<lparr>pk_chosen = pk_chosen s @ [qb_update r], pk_included = pk_included s @ [(in_queue r, qb_generation r)],
      pk_bytes = pk_bytes s + (qb_encodedBytes r + overhead)\<rparr>"
    obtain cs where cs: "?P rs ?s cs" using ih by blast
    have "in_queue r \<notin> in_queue ` set cs" using cs Cons.prems(2) by auto
    moreover have "pack_loop (r # rs) k budget overhead buddy s = pack_loop rs k budget overhead buddy ?s"
      using 4 by (simp add: in_queue_def Let_def)
    ultimately show ?thesis using 4 cs by (intro exI [of _ "r # cs"]) (auto simp: add.assoc)
  qed
qed

definition pack_overhead :: "BroadcastPackOptions \<Rightarrow> int" where
  "pack_overhead options = (case po_perRecordOverhead options of None \<Rightarrow> 0 | Some n \<Rightarrow> n)"

definition pack_limit :: "BroadcastPackOptions \<Rightarrow> int" where
  "pack_limit options = (case po_maxRecords options of None \<Rightarrow> int UPDATE_LIST_MAX_RECORDS | Some n \<Rightarrow> n)"

definition wire_size :: "MembershipUpdate \<Rightarrow> int" where
  "wire_size u = int (the (membershipUpdateSize u))"

lemma queued_size: "queued_ok g k r \<Longrightarrow> wire_size (qb_update r) = qb_encodedBytes r"
  by (simp add: queued_ok_def wire_size_def)

lemma buddy_result:
  assumes "pack_buddy buddy k budget overhead q = Inr (s, bm)" and "bq_inv q" and "0 \<le> k" and "0 \<le> budget"
  shows "int (length (pk_chosen s)) \<le> k" "pk_bytes s \<le> budget" "pk_bytes s = sum_list (map (\<lambda>u. wire_size u + overhead) (pk_chosen s))"
    "map mu_member (pk_chosen s) = (case bm of None \<Rightarrow> [] | Some m \<Rightarrow> [m])" "distinct (map fst (pk_included s))"
    "fst ` set (pk_included s) \<subseteq> set (map mu_member (pk_chosen s))" "buddy = None \<Longrightarrow> bm = None \<and> pk_included s = []"
proof -
  have own: "mu_member (qb_update r) = m" if "js_get (bq_queued q) m = Some r" for m r
    using bq_inv_get [OF assms(2) that] by (simp add: queued_ok_def)
  show "int (length (pk_chosen s)) \<le> k" "pk_bytes s \<le> budget" "pk_bytes s = sum_list (map (\<lambda>u. wire_size u + overhead) (pk_chosen s))"
    "map mu_member (pk_chosen s) = (case bm of None \<Rightarrow> [] | Some m \<Rightarrow> [m])" "distinct (map fst (pk_included s))"
    "fst ` set (pk_included s) \<subseteq> set (map mu_member (pk_chosen s))" "buddy = None \<Longrightarrow> bm = None \<and> pk_included s = []"
    using assms(1,3,4) own
    by (auto simp: pack_buddy_def Let_def wire_size_def split: option.splits if_splits)
qed

lemma pack_result:
  assumes inv: "bq_inv q" and ran: "bq_pack budget options q = Inr (sel, q')"
  obtains cs inc where "bq_queued q' = bq_queued q" "bq_nextGeneration q' = bq_nextGeneration q"
    "bs_id sel = bq_nextSelection q" "bq_nextSelection q' = Suc (bq_nextSelection q)"
    "bq_receipts q' = js_set (bq_nextSelection q) inc (bq_receipts q)" "distinct (map fst inc)"
    "\<forall>r \<in> set cs. js_get (bq_queued q) (in_queue r) = Some r"
    "distinct (map mu_member (bs_updates sel))" "bs_bytes sel = sum_list (map (\<lambda>u. wire_size u + pack_overhead options) (bs_updates sel))"
    "bs_bytes sel \<le> budget" "int (length (bs_updates sel)) \<le> pack_limit options"
    "\<forall>k r. js_get (bq_queued q) k = Some r \<longrightarrow> k \<in> mu_member ` set (bs_updates sel) \<or> int (length (bs_updates sel)) = pack_limit options
       \<or> budget < bs_bytes sel + (qb_encodedBytes r + pack_overhead options)"
    "po_buddy options = None \<Longrightarrow> bs_updates sel = map qb_update cs \<and> inc = map (\<lambda>r. (in_queue r, qb_generation r)) cs"
proof -
  let ?h = "pack_overhead options" and ?k = "pack_limit options"
  obtain s bm where s: "pack_buddy (po_buddy options) ?k budget ?h q = Inr (s, bm)"
    and pos: "0 \<le> ?h" "0 \<le> ?k" "0 \<le> budget"
    and sel: "sel = \<lparr>bs_id = bq_nextSelection q, bs_updates = pk_chosen (pack_loop (ordered q) ?k budget ?h bm s),
        bs_bytes = pk_bytes (pack_loop (ordered q) ?k budget ?h bm s)\<rparr>"
    and q': "q' = q\<lparr>bq_receipts := js_set (bq_nextSelection q) (pk_included (pack_loop (ordered q) ?k budget ?h bm s)) (bq_receipts q),
        bq_nextSelection := bq_nextSelection q + 1\<rparr>"
    using ran by (auto simp: bq_pack_def Let_def assertNonnegativeInteger_def pack_overhead_def pack_limit_def ordered_def
        split: if_splits sum.splits)
  note b = buddy_result [OF s inv pos(2,3)] and o = ordered_queue [OF inv]
  have "\<forall>r \<in> set (ordered q). 0 \<le> qb_encodedBytes r + ?h"
    using o(1) bq_inv_get [OF inv] pos(1) by (fastforce simp: queued_ok_def)
  from pack_loop_result [OF this o(2), of ?k budget bm s] obtain cs where
    l: "pack_loop (ordered q) ?k budget ?h bm s = \<lparr>pk_chosen = pk_chosen s @ map qb_update cs,
      pk_included = pk_included s @ map (\<lambda>r. (in_queue r, qb_generation r)) cs,
      pk_bytes = pk_bytes s + sum_list (map (\<lambda>r. qb_encodedBytes r + ?h) cs)\<rparr>"
    and cs: "set cs \<subseteq> set (ordered q)" "distinct (map in_queue cs)" "\<forall>r \<in> set cs. Some (in_queue r) \<noteq> bm"
    and len: "int (length (pk_chosen s @ map qb_update cs)) \<le> ?k"
    and bytes: "pk_bytes s + sum_list (map (\<lambda>r. qb_encodedBytes r + ?h) cs) \<le> budget"
    and out: "\<forall>r \<in> set (ordered q). r \<in> set cs \<or> Some (in_queue r) = bm \<or> ?k \<le> int (length (pk_chosen s @ map qb_update cs))
         \<or> budget < pk_bytes s + sum_list (map (\<lambda>r. qb_encodedBytes r + ?h) cs) + (qb_encodedBytes r + ?h)"
    using b(1,2) by blast
  have held: "\<forall>r \<in> set cs. js_get (bq_queued q) (in_queue r) = Some r" using cs(1) o(1) by auto
  have members: "map mu_member (map qb_update cs) = map in_queue cs" by (simp add: in_queue_def)
  have sizes: "map (\<lambda>r. qb_encodedBytes r + ?h) cs = map (\<lambda>u. wire_size u + ?h) (map qb_update cs)"
    using held bq_inv_get [OF inv] queued_size by fastforce
  have apart: "distinct (map mu_member (pk_chosen s @ map qb_update cs))"
    unfolding map_append members b(4) using cs(2,3) by (auto split: option.splits)
  have all: "k \<in> mu_member ` set (pk_chosen s @ map qb_update cs) \<or> int (length (pk_chosen s @ map qb_update cs)) = ?k
       \<or> budget < pk_bytes s + sum_list (map (\<lambda>r. qb_encodedBytes r + ?h) cs) + (qb_encodedBytes r + ?h)"
    if r: "js_get (bq_queued q) k = Some r" for k r
  proof -
    have k: "in_queue r = k" using bq_inv_get [OF inv r] by (simp add: queued_ok_def in_queue_def)
    then have "r \<in> set (ordered q)" using o(1) r by simp
    then consider "r \<in> set cs" | "Some k = bm" | "?k \<le> int (length (pk_chosen s @ map qb_update cs))"
      | "budget < pk_bytes s + sum_list (map (\<lambda>r. qb_encodedBytes r + ?h) cs) + (qb_encodedBytes r + ?h)" using out k by blast
    then show ?thesis
    proof cases
      case 1
      then show ?thesis using k by (auto simp: in_queue_def)
    next
      case 2
      then have "k \<in> set (map mu_member (pk_chosen s))" using b(4) by (auto simp del: set_map)
      then show ?thesis by auto
    qed (use len in auto)
  qed
  have inc: "distinct (map fst (pk_included s @ map (\<lambda>r. (in_queue r, qb_generation r)) cs))"
  proof -
    have "fst ` set (pk_included s) \<inter> in_queue ` set cs = {}" using b(4,6) cs(3) by (auto split: option.splits)
    then show ?thesis using b(5) cs(2) by (simp add: o_def image_image)
  qed
  have total: "pk_bytes s + sum_list (map (\<lambda>r. qb_encodedBytes r + ?h) cs) = sum_list (map (\<lambda>u. wire_size u + ?h) (pk_chosen s @ map qb_update cs))"
    unfolding sizes b(3) by simp
  have plain: "bs_updates sel = map qb_update cs \<and> pk_included s @ map (\<lambda>r. (in_queue r, qb_generation r)) cs = map (\<lambda>r. (in_queue r, qb_generation r)) cs"
    if "po_buddy options = None"
    unfolding sel l using b(4) b(7) [OF that] by simp
  show ?thesis
    by (rule that [OF _ _ _ _ _ inc held _ _ _ _ _ plain]) (use apart all len bytes total in \<open>simp_all only: sel q' l BroadcastSelection.select_convs
        BroadcastQueue.select_convs BroadcastQueue.update_convs BroadcastQueue.surjective PackState.select_convs, simp_all\<close>)
qed

section \<open>Acknowledgements\<close>

definition spent :: "QueuedBroadcast \<Rightarrow> QueuedBroadcast option" where
  "spent r = (if qb_remaining r - 1 = 0 then None else Some (r\<lparr>qb_remaining := qb_remaining r - 1\<rparr>))"

lemma charge_get:
  "js_get (charge i m) k =
     (case js_get m k of None \<Rightarrow> None | Some r \<Rightarrow> if i = (k, qb_generation r) then spent r else Some r)"
  by (cases i) (auto simp: charge_def spent_def Let_def split: option.splits)

lemma charge_ok: "js_ok m \<Longrightarrow> js_ok (charge i m)"
  by (auto simp: charge_def Let_def split: option.splits)

lemma charges_ok: "js_ok m \<Longrightarrow> js_ok (fold charge inc m)"
  by (induction inc arbitrary: m) (simp_all add: charge_ok)

lemma spent_generation: "spent r = Some r' \<Longrightarrow> qb_generation r' = qb_generation r"
  by (auto simp: spent_def split: if_splits)

lemma charges_get:
  assumes "distinct (map fst inc)"
  shows "js_get (fold charge inc m) k =
     (case js_get m k of None \<Rightarrow> None | Some r \<Rightarrow> if (k, qb_generation r) \<in> set inc then spent r else Some r)"
  using assms
proof (induction inc arbitrary: m)
  case (Cons i inc)
  have once: "(k, g) \<notin> set inc" if "i = (k, g')" for g g'
  proof
    assume "(k, g) \<in> set inc"
    then have "k \<in> fst ` set inc" by (metis fst_conv imageI)
    then show False using Cons.prems that by simp
  qed
  have "js_get (fold charge (i # inc) m) k =
      (case js_get (charge i m) k of None \<Rightarrow> None | Some r \<Rightarrow> if (k, qb_generation r) \<in> set inc then spent r else Some r)"
    using Cons by simp
  then show ?case using once spent_generation unfolding charge_get
    by (auto split: option.splits)
qed (simp split: option.split)

lemma spent_ok: "queued_ok g k r \<Longrightarrow> spent r = Some r' \<Longrightarrow> queued_ok g k r'"
  by (auto simp: spent_def queued_ok_def split: if_splits)

lemma pack_inv:
  assumes inv: "bq_inv q" and ran: "bq_pack budget options q = Inr (sel, q')"
  shows "bq_inv q'"
  using inv ran
proof (cases rule: pack_result)
  case (1 cs inc)
  have "i < bq_nextSelection q' \<and> distinct (map fst jnc)" if "js_get (bq_receipts q') i = Some jnc" for i jnc
    using that 1(4-6) inv by (auto simp: bq_inv_def less_Suc_eq split: if_splits)
  then show ?thesis using inv 1(1,2) by (simp add: bq_inv_def)
qed

lemma acknowledge_inv:
  assumes inv: "bq_inv q"
  shows "bq_inv (snd (bq_acknowledge sel accepted q))"
proof (cases "js_get (bq_receipts q) (bs_id sel)")
  case None
  then show ?thesis using inv by (simp add: bq_acknowledge_def)
next
  case (Some inc)
  have d: "distinct (map fst inc)" using inv Some by (auto simp: bq_inv_def)
  have ok: "js_ok (bq_queued q)" using inv by (simp add: bq_inv_def)
  have "queued_ok (bq_nextGeneration q) k r'" if "js_get (fold charge inc (bq_queued q)) k = Some r'" for k r'
    using that unfolding charges_get [OF d] by (auto split: option.splits if_splits intro: bq_inv_get [OF inv] spent_ok [OF bq_inv_get [OF inv]])
  then show ?thesis using inv Some charges_ok [OF ok]
    by (auto simp: bq_acknowledge_def Let_def bq_inv_def split: if_splits)
qed

inductive bq_reach :: "BroadcastQueue \<Rightarrow> bool" where
  initially: "bq_reach bq_new"
| enqueues: "bq_reach q \<Longrightarrow> bq_enqueue u c p q = Inr (b, q') \<Longrightarrow> bq_reach q'"
| confirms: "bq_reach q \<Longrightarrow> bq_enqueueConfirmation u c q = Inr (b, q') \<Longrightarrow> bq_reach q'"
| packs: "bq_reach q \<Longrightarrow> bq_pack budget options q = Inr (sel, q') \<Longrightarrow> bq_reach q'"
| acknowledges: "bq_reach q \<Longrightarrow> bq_reach (snd (bq_acknowledge sel accepted q))"

lemma bq_reach_inv: "bq_reach q \<Longrightarrow> bq_inv q"
proof (induction rule: bq_reach.induct)
  case initially
  show ?case by (simp add: bq_inv_def bq_new_def)
qed (blast intro: enqueue_inv enqueueConfirmation_inv pack_inv acknowledge_inv)+

section \<open>Sending everything\<close>

text \<open>One destination: select, send, and acknowledge the send as accepted.\<close>

definition send_round :: "int \<Rightarrow> BroadcastPackOptions \<Rightarrow> BroadcastQueue \<Rightarrow> MembershipUpdate list \<times> BroadcastQueue" where
  "send_round budget options q =
     (case bq_pack budget options q of
        Inl _ \<Rightarrow> ([], q)
      | Inr (sel, q) \<Rightarrow> (bs_updates sel, snd (bq_acknowledge sel True q)))"

fun send_rounds :: "nat \<Rightarrow> int \<Rightarrow> BroadcastPackOptions \<Rightarrow> BroadcastQueue \<Rightarrow> MembershipUpdate list \<times> BroadcastQueue" where
  "send_rounds 0 budget options q = ([], q)"
| "send_rounds (Suc n) budget options q =
     (let (sent, q) = send_round budget options q; (more, q) = send_rounds n budget options q in (sent @ more, q))"

definition owed :: "BroadcastQueue \<Rightarrow> jsstr \<Rightarrow> nat" where
  "owed q k = (case js_get (bq_queued q) k of None \<Rightarrow> 0 | Some r \<Rightarrow> nat (qb_remaining r))"

definition owed_of :: "BroadcastQueue \<Rightarrow> MembershipUpdate \<Rightarrow> nat" where
  "owed_of q u =
     (case js_get (bq_queued q) (mu_member u) of
        None \<Rightarrow> 0
      | Some r \<Rightarrow> if qb_update r = u then nat (qb_remaining r) else 0)"

definition total_owed :: "BroadcastQueue \<Rightarrow> nat" where
  "total_owed q = (\<Sum>k \<in> set (js_keys (bq_queued q)). owed q k)"

definition round_ok :: "int \<Rightarrow> BroadcastPackOptions \<Rightarrow> BroadcastQueue \<Rightarrow> bool" where
  "round_ok budget options q \<longleftrightarrow> po_buddy options = None \<and> isSafeInteger budget \<and> 0 \<le> budget
     \<and> isSafeInteger (pack_overhead options) \<and> 0 \<le> pack_overhead options \<and> 0 < pack_limit options
     \<and> pack_limit options \<le> int UPDATE_LIST_MAX_RECORDS
     \<and> (\<forall>k r. js_get (bq_queued q) k = Some r \<longrightarrow> qb_encodedBytes r + pack_overhead options \<le> budget)"

lemma send_round_result:
  assumes inv: "bq_inv q" and ok: "round_ok budget options q"
  obtains cs where "fst (send_round budget options q) = map qb_update cs" "\<forall>r \<in> set cs. js_get (bq_queued q) (in_queue r) = Some r"
    "distinct (map in_queue cs)" "bq_queued q \<noteq> [] \<Longrightarrow> cs \<noteq> []"
    "\<forall>k. js_get (bq_queued (snd (send_round budget options q))) k =
       (case js_get (bq_queued q) k of None \<Rightarrow> None | Some r \<Rightarrow> if r \<in> set cs then spent r else Some r)"
    "bq_inv (snd (send_round budget options q))"
proof -
  have limit: "isSafeInteger (pack_limit options)" using ok by (auto simp: round_ok_def isSafeInteger_def UPDATE_LIST_MAX_RECORDS_def)
  obtain sel q1 where pack: "bq_pack budget options q = Inr (sel, q1)"
    using ok limit unfolding bq_pack_def round_ok_def pack_overhead_def [symmetric] pack_limit_def [symmetric]
    by (simp add: assertNonnegativeInteger_def pack_buddy_def Let_def)
  obtain cs inc where f: "bq_queued q1 = bq_queued q" "bq_nextGeneration q1 = bq_nextGeneration q"
    "bs_id sel = bq_nextSelection q" "bq_nextSelection q1 = Suc (bq_nextSelection q)"
    "bq_receipts q1 = js_set (bq_nextSelection q) inc (bq_receipts q)" "distinct (map fst inc)"
    "\<forall>r \<in> set cs. js_get (bq_queued q) (in_queue r) = Some r"
    "distinct (map mu_member (bs_updates sel))" "bs_bytes sel = sum_list (map (\<lambda>u. wire_size u + pack_overhead options) (bs_updates sel))"
    "bs_bytes sel \<le> budget" "int (length (bs_updates sel)) \<le> pack_limit options"
    "\<forall>k r. js_get (bq_queued q) k = Some r \<longrightarrow> k \<in> mu_member ` set (bs_updates sel) \<or> int (length (bs_updates sel)) = pack_limit options
       \<or> budget < bs_bytes sel + (qb_encodedBytes r + pack_overhead options)"
    "po_buddy options = None \<Longrightarrow> bs_updates sel = map qb_update cs \<and> inc = map (\<lambda>r. (in_queue r, qb_generation r)) cs"
    by (rule pack_result [OF inv pack]) (rule that)
  have "po_buddy options = None" using ok by (simp add: round_ok_def)
  from f(13) [OF this] have g: "bs_updates sel = map qb_update cs" "inc = map (\<lambda>r. (in_queue r, qb_generation r)) cs" by simp_all
  note p = f(1,3,5,6,7,8,12) g f(9)
  have round: "send_round budget options q = (map qb_update cs, snd (bq_acknowledge sel True q1))"
    using pack p(8) by (simp add: send_round_def)
  have d: "distinct (map in_queue cs)" using p(6) by (simp add: p(8) in_queue_def o_def cong: map_cong)
  have same: "r \<in> set cs \<longleftrightarrow> (k, qb_generation r) \<in> set inc" if r: "js_get (bq_queued q) k = Some r" for k r
  proof -
    have "in_queue r = k" using bq_inv_get [OF inv r] by (simp add: queued_ok_def in_queue_def)
    moreover have "r' = r" if "r' \<in> set cs" "in_queue r' = k" for r'
      using bspec [OF p(5) that(1)] that(2) r by simp
    ultimately show ?thesis by (auto simp: p(9) image_iff)
  qed
  have queued: "bq_queued (snd (bq_acknowledge sel True q1)) = fold charge inc (bq_queued q)"
    using p(1-3) by (simp add: bq_acknowledge_def Let_def)
  have get: "js_get (bq_queued (snd (send_round budget options q))) k =
       (case js_get (bq_queued q) k of None \<Rightarrow> None | Some r \<Rightarrow> if r \<in> set cs then spent r else Some r)" for k
    unfolding round snd_conv queued charges_get [OF p(4)] using same by (auto split: option.split)
  have some: "cs \<noteq> []" if "bq_queued q \<noteq> []"
  proof
    assume none: "cs = []"
    have "hd (bq_queued q) \<in> set (bq_queued q)" using that by simp
    then obtain k r where r: "js_get (bq_queued q) k = Some r"
      using inv js_get_iff [of "bq_queued q"] by (metis bq_inv_def prod.collapse)
    have "int (length (bs_updates sel)) \<noteq> pack_limit options" "bs_bytes sel = 0" "bs_updates sel = []"
      using none p(8,10) ok by (simp_all add: round_ok_def)
    moreover have "qb_encodedBytes r + pack_overhead options \<le> budget" using ok r unfolding round_ok_def by blast
    ultimately show False using p(7) [rule_format, OF r] by simp
  qed
  show ?thesis
    using that [OF _ p(5) d some] get pack_inv [OF inv pack] acknowledge_inv [of q1 sel True] by (simp add: round)
qed

lemma count_distinct: "distinct xs \<Longrightarrow> count_list xs x = (if x \<in> set xs then 1 else 0)"
  by (induction xs) auto

definition after_round :: "BroadcastQueue \<Rightarrow> QueuedBroadcast list \<Rightarrow> BroadcastQueue \<Rightarrow> bool" where
  "after_round q cs q' \<longleftrightarrow> (\<forall>r \<in> set cs. js_get (bq_queued q) (in_queue r) = Some r) \<and> distinct (map in_queue cs)
     \<and> (\<forall>k. js_get (bq_queued q') k =
          (case js_get (bq_queued q) k of None \<Rightarrow> None | Some r \<Rightarrow> if r \<in> set cs then spent r else Some r))"

lemma after_round_get:
  assumes "after_round q cs q'"
  shows "js_get (bq_queued q') k = (case js_get (bq_queued q) k of None \<Rightarrow> None | Some r \<Rightarrow> if r \<in> set cs then spent r else Some r)"
    "r \<in> set cs \<Longrightarrow> js_get (bq_queued q) (in_queue r) = Some r"
  using assms by (simp_all add: after_round_def)

lemma round_owed_of:
  assumes inv: "bq_inv q" and r: "after_round q cs q'"
  shows "owed_of q u = count_list (map qb_update cs) u + owed_of q' u"
proof -
  have "distinct (map mu_member (map qb_update cs))" using r by (simp add: after_round_def in_queue_def o_def cong: map_cong)
  then have d: "distinct (map qb_update cs)" by (simp only: distinct_map)
  have mem: "u \<in> set (map qb_update cs) \<longleftrightarrow> (\<exists>r \<in> set cs. js_get (bq_queued q) (mu_member u) = Some r \<and> qb_update r = u)"
    using after_round_get(2) [OF r] by (auto simp: in_queue_def)
  have pos: "0 < qb_remaining s" if "js_get (bq_queued q) (mu_member u) = Some s" for s
    using bq_inv_get [OF inv that] by (simp add: queued_ok_def)
  show ?thesis
  proof (cases "js_get (bq_queued q) (mu_member u)")
    case None
    then show ?thesis using mem by (simp add: owed_of_def count_distinct [OF d] after_round_get(1) [OF r])
  next
    case (Some s)
    have "count_list (map qb_update cs) u = (if s \<in> set cs \<and> qb_update s = u then 1 else 0)"
      using mem Some by (auto simp: count_distinct [OF d])
    then show ?thesis using Some pos [OF Some]
      by (auto simp: owed_of_def after_round_get(1) [OF r] spent_def nat_diff_distrib)
  qed
qed

lemma round_total:
  assumes inv: "bq_inv q" and r: "after_round q cs q'" and "cs \<noteq> []"
  shows "total_owed q' < total_owed q"
proof -
  let ?D = "set (js_keys (bq_queued q))" and ?D' = "set (js_keys (bq_queued q'))"
  have dom: "k \<in> set (js_keys m) \<longleftrightarrow> js_get m k \<noteq> None" for k and m :: "(jsstr, QueuedBroadcast) jsmap"
    by (metis map_of_eq_None_iff list.set_map)
  have sub: "?D' \<subseteq> ?D"
  proof
    fix k assume "k \<in> ?D'"
    then show "k \<in> ?D" unfolding dom after_round_get(1) [OF r] by (auto split: option.splits)
  qed
  have zero: "owed q' k = 0" if "k \<notin> ?D'" for k using that unfolding dom by (simp add: owed_def)
  have le: "owed q' k \<le> owed q k" for k
    unfolding owed_def after_round_get(1) [OF r] by (auto simp: spent_def split: option.split)
  obtain c where c: "c \<in> set cs" using assms(3) by (cases cs) auto
  have held: "js_get (bq_queued q) (in_queue c) = Some c" by (rule after_round_get(2) [OF r c])
  then have "0 < qb_remaining c" using bq_inv_get [OF inv] by (auto simp: queued_ok_def)
  then have "owed q' (in_queue c) < owed q (in_queue c)"
    using held c by (simp add: owed_def after_round_get(1) [OF r] spent_def)
  moreover have "in_queue c \<in> ?D" using held unfolding dom by simp
  ultimately have "(\<Sum>k \<in> ?D. owed q' k) < (\<Sum>k \<in> ?D. owed q k)" using sum_strict_mono_ex1 [of ?D "owed q'" "owed q"] le finite_set by blast
  moreover have "(\<Sum>k \<in> ?D'. owed q' k) = (\<Sum>k \<in> ?D. owed q' k)" using sub zero by (intro sum.mono_neutral_left) auto
  ultimately show ?thesis by (simp only: total_owed_def)
qed

lemma round_ok_kept:
  assumes ok: "round_ok budget options q" and r: "after_round q cs q'"
  shows "round_ok budget options q'"
proof -
  have "qb_encodedBytes s + pack_overhead options \<le> budget" if s: "js_get (bq_queued q') k = Some s" for k s
  proof -
    obtain s0 where "js_get (bq_queued q) k = Some s0" "qb_encodedBytes s = qb_encodedBytes s0"
      using s unfolding after_round_get(1) [OF r] by (auto simp: spent_def split: option.splits if_splits)
    then show ?thesis using ok unfolding round_ok_def by auto
  qed
  then show ?thesis using ok by (simp add: round_ok_def)
qed

lemma rounds_drain:
  assumes "bq_inv q" and "round_ok budget options q" and "total_owed q \<le> n"
  shows "bq_queued (snd (send_rounds n budget options q)) = [] \<and> (\<forall>u. count_list (fst (send_rounds n budget options q)) u = owed_of q u)"
  using assms
proof (induction n arbitrary: q)
  case 0
  have "bq_queued q = []"
  proof (rule ccontr)
    assume some: "bq_queued q \<noteq> []"
    obtain cs where "fst (send_round budget options q) = map qb_update cs" "\<forall>r \<in> set cs. js_get (bq_queued q) (in_queue r) = Some r"
      "distinct (map in_queue cs)" "bq_queued q \<noteq> [] \<Longrightarrow> cs \<noteq> []"
      "\<forall>k. js_get (bq_queued (snd (send_round budget options q))) k =
         (case js_get (bq_queued q) k of None \<Rightarrow> None | Some r \<Rightarrow> if r \<in> set cs then spent r else Some r)"
      by (rule send_round_result [OF 0(1,2)]) (rule that)
    then have "after_round q cs (snd (send_round budget options q))" "cs \<noteq> []" using some by (simp_all add: after_round_def)
    from round_total [OF 0(1) this] show False using 0(3) by simp
  qed
  then show ?case by (simp add: owed_of_def)
next
  case (Suc n)
  let ?q = "snd (send_round budget options q)"
  obtain cs where cs: "fst (send_round budget options q) = map qb_update cs" "\<forall>r \<in> set cs. js_get (bq_queued q) (in_queue r) = Some r"
    "distinct (map in_queue cs)" "bq_queued q \<noteq> [] \<Longrightarrow> cs \<noteq> []"
    "\<forall>k. js_get (bq_queued ?q) k = (case js_get (bq_queued q) k of None \<Rightarrow> None | Some r \<Rightarrow> if r \<in> set cs then spent r else Some r)"
    "bq_inv ?q"
    by (rule send_round_result [OF Suc.prems(1,2)]) (rule that)
  have r: "after_round q cs ?q" using cs(2,3,5) by (simp add: after_round_def)
  have "total_owed ?q \<le> n"
  proof (cases "bq_queued q = []")
    case True
    then have "\<forall>k. js_get (bq_queued ?q) k = None" using cs(5) by simp
    then have "bq_queued ?q = []" by (metis map_of_eq_empty_iff ext)
    then show ?thesis by (simp add: total_owed_def)
  next
    case False
    from round_total [OF Suc.prems(1) r cs(4) [OF False]] show ?thesis using Suc.prems(3) by simp
  qed
  from Suc.IH [OF cs(6) round_ok_kept [OF Suc.prems(2) r] this] show ?case
    using round_owed_of [OF Suc.prems(1) r] cs(1) by (simp add: case_prod_beta Let_def)
qed

text \<open>A queue with one accusation, enqueued in a cluster of two.\<close>

definition sample_accusation :: MembershipUpdate where
  "sample_accusation = truth (js ''b'') STATE_SUSPECT 3 (js ''a'') []"

definition sample_queued :: QueuedBroadcast where
  "sample_queued = \<lparr>qb_update = sample_accusation, qb_encodedBytes = 22, qb_priority = False, qb_initialRemaining = 4, qb_order = 0,
     qb_generation = 0, qb_remaining = 4\<rparr>"

definition sample_queue :: BroadcastQueue where
  "sample_queue = \<lparr>bq_queued = [(js ''b'', sample_queued)], bq_receipts = [], bq_nextOrder = 1, bq_nextGeneration = 1, bq_nextSelection = 0\<rparr>"

definition plain_options :: BroadcastPackOptions where
  "plain_options = \<lparr>po_perRecordOverhead = None, po_buddy = None, po_maxRecords = None\<rparr>"

lemma sample_size: "membershipUpdateSize sample_accusation = Some 22"
proof -
  have "mw_encodeName (js ''a'') e = Some [97]" "mw_encodeName (js ''b'') e = Some [98]" for e
    by (simp_all add: mw_encodeName_def js_def encode_def utf8_bytes_def is_high_def is_low_def mw_sizes)
  then show ?thesis
    by (simp add: membershipUpdateSize_def prepareUpdate_def sample_accusation_def truth_def assertUint_def mw_assertU64_def mw_sizes)
qed

lemma sample_queue_reach: "bq_reach sample_queue"
proof (rule bq_reach.enqueues [OF bq_reach.initially])
  show "bq_enqueue sample_accusation 2 False bq_new = Inr (True, sample_queue)"
    by (simp add: bq_enqueue_def sample_size bq_new_def bq_store_def assertNonnegativeInteger_def isSafeInteger_def RETRANSMIT_MULTIPLIER_def
        ceil_log10.simps sample_queue_def sample_queued_def Let_def) (simp add: sample_accusation_def truth_def)
qed

lemma sample_round: "round_ok 100 plain_options sample_queue" "total_owed sample_queue = 4"
  by (simp_all add: round_ok_def plain_options_def pack_overhead_def pack_limit_def isSafeInteger_def UPDATE_LIST_MAX_RECORDS_def
      sample_queue_def sample_queued_def total_owed_def owed_def)



text \<open>
  C17. Every queued truth is sent exactly as often as its budget says: selecting, sending
  and acknowledging again and again, with budgets in which every single record fits,
  empties the queue in at most as many rounds as sends are owed, and by then each
  truth has been sent the number of times it had left.
\<close>

theorem queue_drains:
  assumes "bq_reach q" and "round_ok budget options q" and "total_owed q \<le> n"
  shows "bq_queued (snd (send_rounds n budget options q)) = []
    \<and> (\<forall>k r. js_get (bq_queued q) k = Some r \<longrightarrow> count_list (fst (send_rounds n budget options q)) (qb_update r) = nat (qb_remaining r))"
proof -
  have inv: "bq_inv q" by (rule bq_reach_inv [OF assms(1)])
  have "owed_of q (qb_update r) = nat (qb_remaining r)" if "js_get (bq_queued q) k = Some r" for k r
    using bq_inv_get [OF inv that] that by (simp add: owed_of_def queued_ok_def)
  then show ?thesis using rounds_drain [OF inv assms(2,3)] by simp
qed

theorem queue_drains_witness:
  "bq_queued (snd (send_rounds 4 100 plain_options sample_queue)) = []
   \<and> count_list (fst (send_rounds 4 100 plain_options sample_queue)) sample_accusation = 4"
proof -
  have r: "js_get (bq_queued sample_queue) (js ''b'') = Some sample_queued" by (simp add: sample_queue_def)
  have n: "total_owed sample_queue \<le> 4" using sample_round(2) by simp
  note d = queue_drains [OF sample_queue_reach sample_round(1) n]
  have "qb_update sample_queued = sample_accusation" "nat (qb_remaining sample_queued) = 4" by (simp_all add: sample_queued_def)
  then show ?thesis using conjunct1 [OF d] conjunct2 [OF d, rule_format, OF r] by metis
qed

end
