(* ===== verification/SyncStream.thy ===== *)
theory SyncStream
  imports MembershipWire
begin

text \<open>
  Full-table synchronization on the wire, \<open>src/membership/wire.ts\<close>: a table is cut into
  canonical chunks, every chunk filled as far as it goes, each chunk is framed by its
  length, and the receiving side splits the stream however the carrier cut it, checks the
  chunks and joins them.  The splitter's loop is a partial function; that it returns
  is part of what is proved.

  The theory shows that the splitter computes the frames of everything pushed so far, and
  that every table the encoder accepts arrives.
\<close>

section \<open>Synchronization chunks\<close>

record DecodedSyncExchange =
  de_type :: SyncMessageType
  de_exchangeId :: int
  de_updates :: "MembershipUpdate list"

fun sync_sizes :: "MembershipUpdate list \<Rightarrow> jsstr set \<Rightarrow> nat list option" where
  "sync_sizes [] names = Some []"
| "sync_sizes (update # updates) names = do {
     names \<leftarrow> addDistinctMember names (mu_member update);
     size' \<leftarrow> membershipUpdateSize update;
     sizes \<leftarrow> sync_sizes updates names;
     Some (size' # sizes)
   }"

fun chunk_loop ::
  "(MembershipUpdate \<times> nat) list \<Rightarrow> MembershipUpdate list list \<Rightarrow> MembershipUpdate list \<Rightarrow> nat \<Rightarrow> MembershipUpdate list list" where
  "chunk_loop [] chunks current currentSize = chunks @ [current]"
| "chunk_loop ((update, size') # rest) chunks current currentSize =
     (if length current > 0 \<and> currentSize + size' > MAX_SYNC_MESSAGE_BYTES
      then chunk_loop rest (chunks @ [current]) [update] (MESSAGE_HEADER_BYTES + SYNC_HEADER_BYTES + size')
      else chunk_loop rest chunks (current @ [update]) (currentSize + size'))"

definition encodeSyncChunks :: "SyncMessageType \<Rightarrow> int \<Rightarrow> MembershipUpdate list \<Rightarrow> bytes list option" where
  "encodeSyncChunks type exchangeId updates = do {
     _ \<leftarrow> mw_assertU64 exchangeId True;
     if length updates > MAX_MEMBERS then None
     else do {
       sizes \<leftarrow> sync_sizes updates {};
       let chunks = chunk_loop (zip updates sizes) [] [] (MESSAGE_HEADER_BYTES + SYNC_HEADER_BYTES);
       those (map (\<lambda>(chunkIndex, chunk). mw_encodeMessage (SyncChunk \<lparr>sy_type = type, sy_exchangeId = exchangeId,
                sy_chunkIndex = int chunkIndex, sy_chunkCount = int (length chunks), sy_updates = chunk\<rparr>)) (enumerate 0 chunks))
     }
   }"

fun exchange_budget :: "bytes list \<Rightarrow> nat \<Rightarrow> unit option" where
  "exchange_budget [] framedBytes = Some ()"
| "exchange_budget (bytes # chunks) framedBytes =
     (let framedBytes = framedBytes + (4 + length bytes) in
      if framedBytes > MAX_SYNC_EXCHANGE_BYTES then None else exchange_budget chunks framedBytes)"

definition assertSyncExchangeBudget :: "bytes list \<Rightarrow> unit option" where
  "assertSyncExchangeBudget chunks = exchange_budget chunks 0"

fun appendCanonicalChunkUpdates ::
  "MembershipUpdate list \<Rightarrow> jsstr set \<Rightarrow> MembershipUpdate list \<Rightarrow> (jsstr set \<times> MembershipUpdate list) option" where
  "appendCanonicalChunkUpdates [] names updates = Some (names, updates)"
| "appendCanonicalChunkUpdates (update # chunk) names updates = do {
     names \<leftarrow> addDistinctMember names (mu_member update);
     let updates = updates @ [update];
     if length updates > MAX_MEMBERS then None else appendCanonicalChunkUpdates chunk names updates
   }"

definition validateCanonicalChunk :: "SyncMessage \<Rightarrow> SyncMessage \<Rightarrow> nat \<Rightarrow> nat \<Rightarrow> unit option" where
  "validateCanonicalChunk chunk first index totalChunks =
     (if sy_type chunk \<noteq> sy_type first \<or> sy_exchangeId chunk \<noteq> sy_exchangeId first
         \<or> sy_chunkCount chunk \<noteq> sy_chunkCount first \<or> sy_chunkIndex chunk \<noteq> int index then None
      else if length (sy_updates chunk) = 0 \<and> \<not> (totalChunks = 1 \<and> index = 0) then None
      else Some ())"

definition validateLargestPrefix :: "bytes \<Rightarrow> SyncMessage option \<Rightarrow> unit option" where
  "validateLargestPrefix currentBytes next' =
     (case next' of
        None \<Rightarrow> Some ()
      | Some message \<Rightarrow>
          (case sy_updates message of
             [] \<Rightarrow> Some ()
           | nextUpdate # _ \<Rightarrow> do {
               size' \<leftarrow> membershipUpdateSize nextUpdate;
               if length currentBytes + size' \<le> MAX_SYNC_MESSAGE_BYTES then None else Some ()
             }))"

fun validate_chunks ::
  "(bytes \<times> SyncMessage) list \<Rightarrow> SyncMessage \<Rightarrow> nat \<Rightarrow> nat \<Rightarrow> jsstr set \<Rightarrow> MembershipUpdate list \<Rightarrow> MembershipUpdate list option" where
  "validate_chunks [] first index totalChunks names updates = Some updates"
| "validate_chunks ((bytes, chunk) # rest) first index totalChunks names updates = do {
     _ \<leftarrow> validateCanonicalChunk chunk first index totalChunks;
     (names, updates) \<leftarrow> appendCanonicalChunkUpdates (sy_updates chunk) names updates;
     _ \<leftarrow> validateLargestPrefix bytes (case rest of [] \<Rightarrow> None | (_, following) # _ \<Rightarrow> Some following);
     validate_chunks rest first (index + 1) totalChunks names updates
   }"

definition validateCanonicalSyncChunks :: "bytes list \<Rightarrow> SyncMessage list \<Rightarrow> MembershipUpdate list option" where
  "validateCanonicalSyncChunks chunks decoded =
     (let first = hd decoded in
      if sy_chunkCount first \<noteq> int (length decoded) then None
      else validate_chunks (zip chunks decoded) first 0 (length decoded) {} [])"

definition combineSyncChunks :: "bytes list \<Rightarrow> SyncMessage list \<Rightarrow> DecodedSyncExchange option" where
  "combineSyncChunks chunks decoded =
     (if length decoded = 0 \<or> length chunks \<noteq> length decoded then None
      else do {
        updates \<leftarrow> validateCanonicalSyncChunks chunks decoded;
        Some \<lparr>de_type = sy_type (hd decoded), de_exchangeId = sy_exchangeId (hd decoded), de_updates = updates\<rparr>
      })"

definition decodeSyncChunks :: "bytes list \<Rightarrow> DecodedSyncExchange option" where
  "decodeSyncChunks chunks =
     (if length chunks = 0 then None
      else do {
        _ \<leftarrow> assertSyncExchangeBudget chunks;
        decoded \<leftarrow> those (map decodeSyncMessage chunks);
        combineSyncChunks chunks decoded
      })"

section \<open>The stream splitter\<close>

record SyncFrameAssembler =
  fa_prefix :: bytes
  fa_prefixBytes :: nat
  fa_frame :: "bytes option"
  fa_frameBytes :: nat

definition fa_new :: SyncFrameAssembler where
  "fa_new = \<lparr>fa_prefix = replicate 4 0, fa_prefixBytes = 0, fa_frame = None, fa_frameBytes = 0\<rparr>"

definition fa_complete :: "SyncFrameAssembler \<Rightarrow> bool" where
  "fa_complete st \<longleftrightarrow> fa_prefixBytes st = 0 \<and> fa_frame st = None"

definition fa_awaitingPrefix :: "SyncFrameAssembler \<Rightarrow> bool" where
  "fa_awaitingPrefix st \<longleftrightarrow> fa_frame st = None"

definition overwrite :: "nat \<Rightarrow> bytes \<Rightarrow> bytes \<Rightarrow> bytes" where
  "overwrite offset xs buf = take offset buf @ xs @ drop (offset + length xs) buf"

text \<open>
  One turn of the loop that has a frame under construction: copy what belongs to it, and
  hand it over when it is full.
\<close>

definition fa_copy :: "bytes \<Rightarrow> nat \<Rightarrow> bytes \<Rightarrow> SyncFrameAssembler \<Rightarrow> bytes list \<times> nat \<times> SyncFrameAssembler" where
  "fa_copy bytes offset frame st =
     (let n = min (length frame - fa_frameBytes st) (length bytes - offset);
          frame = overwrite (fa_frameBytes st) (take n (drop offset bytes)) frame;
          frameBytes = fa_frameBytes st + n
      in if frameBytes = length frame
         then ([frame], offset + n, st\<lparr>fa_prefixBytes := 0, fa_frame := None, fa_frameBytes := 0\<rparr>)
         else ([], offset + n, st\<lparr>fa_frame := Some frame, fa_frameBytes := frameBytes\<rparr>))"

text \<open>
  The loop.  Its value is \<^term>\<open>None\<close> if it does not end and \<^term>\<open>Some None\<close> if it raises a
  protocol error.
\<close>

partial_function (option) fa_loop ::
  "bytes \<Rightarrow> nat \<Rightarrow> bytes list \<Rightarrow> SyncFrameAssembler \<Rightarrow> (bytes list \<times> SyncFrameAssembler) option option" where
  "fa_loop bytes offset frames st =
     (if \<not> offset < length bytes then Some (Some (frames, st))
      else
        case fa_frame st of
          Some frame \<Rightarrow>
            (let (done', offset, st) = fa_copy bytes offset frame st in fa_loop bytes offset (frames @ done') st)
        | None \<Rightarrow>
            (let n = min (4 - fa_prefixBytes st) (length bytes - offset);
                 st = st\<lparr>fa_prefix := overwrite (fa_prefixBytes st) (take n (drop offset bytes)) (fa_prefix st),
                         fa_prefixBytes := fa_prefixBytes st + n\<rparr>;
                 offset = offset + n
             in
             if fa_prefixBytes st < 4 then Some (Some (frames, st))
             else
               let len = get_uint 4 0 (fa_prefix st) in
               if len < 4 \<or> len > MAX_SYNC_MESSAGE_BYTES then Some None
               else
                 let st = st\<lparr>fa_frame := Some (replicate len 0), fa_frameBytes := 0\<rparr>;
                     (done', offset, st) = fa_copy bytes offset (replicate len 0) st
                 in fa_loop bytes offset (frames @ done') st))"

definition fa_push :: "bytes \<Rightarrow> SyncFrameAssembler \<Rightarrow> (bytes list \<times> SyncFrameAssembler) option option" where
  "fa_push bytes st = fa_loop bytes 0 [] st"

definition frame_message :: "bytes \<Rightarrow> bytes" where
  "frame_message message = put_be 4 (length message) @ message"

section \<open>Chunks are as full as they can be\<close>

definition record_size :: "MembershipUpdate \<Rightarrow> nat" where
  "record_size u = (case membershipUpdateSize u of None \<Rightarrow> 0 | Some n \<Rightarrow> n)"

definition chunk_size :: "MembershipUpdate list \<Rightarrow> nat" where
  "chunk_size c = 18 + sum_list (map record_size c)"

definition tight :: "MembershipUpdate list \<Rightarrow> MembershipUpdate list \<Rightarrow> bool" where
  "tight c d \<longleftrightarrow> MAX_SYNC_MESSAGE_BYTES < chunk_size c + record_size (hd d)"

lemma record_size_prepared: "prepareUpdate u = Some p \<Longrightarrow> record_size u = pu_length p"
  by (simp add: record_size_def membershipUpdateSize_def)

lemma record_size_bound: "record_size u \<le> 787"
proof (cases "prepareUpdate u")
  case (Some p)
  note f = prepared_facts [OF Some]
  have "pu_reporter p = [] \<or> mu_metadata u = []" using f(5,6) by auto
  then show ?thesis using f(4,8,14,15) record_size_prepared [OF Some] by auto
qed (simp add: record_size_def membershipUpdateSize_def)

lemma sizes_of:
  assumes "sync_sizes us names = Some sizes"
  shows "sizes = map record_size us \<and> distinct (map mu_member us) \<and> mu_member ` set us \<inter> names = {} \<and> (\<forall>u \<in> set us. prepareUpdate u \<noteq> None)"
  using assms
  by (induction us arbitrary: names sizes)
    (auto simp: bind_eq_Some_conv addDistinctMember_def record_size_def membershipUpdateSize_def split: if_splits)

lemma sizes_defined:
  assumes "distinct (map mu_member us)" and "mu_member ` set us \<inter> names = {}" and "\<forall>u \<in> set us. prepareUpdate u \<noteq> None"
  shows "sync_sizes us names = Some (map record_size us)"
  using assms
  by (induction us arbitrary: names) (auto simp: addDistinctMember_def record_size_def membershipUpdateSize_def)

lemma chunks_packed:
  assumes "chunk_size cur \<le> MAX_SYNC_MESSAGE_BYTES"
  shows "\<exists>tail. chunk_loop (zip us (map record_size us)) done' cur (chunk_size cur) = done' @ tail \<and> tail \<noteq> [] \<and> concat tail = cur @ us
    \<and> (cur @ us \<noteq> [] \<longrightarrow> [] \<notin> set tail) \<and> (\<forall>c \<in> set tail. chunk_size c \<le> MAX_SYNC_MESSAGE_BYTES)
    \<and> successively tight tail \<and> (\<exists>x. hd tail = cur @ x)"
  using assms
proof (induction us arbitrary: done' cur)
  case Nil
  then show ?case by simp
next
  case (Cons u us)
  have one: "chunk_size [u] \<le> MAX_SYNC_MESSAGE_BYTES" using record_size_bound [of u] by (simp add: chunk_size_def MAX_SYNC_MESSAGE_BYTES_def)
  show ?case
  proof (cases "cur \<noteq> [] \<and> chunk_size cur + record_size u > MAX_SYNC_MESSAGE_BYTES")
    case True
    have size: "MESSAGE_HEADER_BYTES + SYNC_HEADER_BYTES + record_size u = chunk_size [u]"
      by (simp add: chunk_size_def MESSAGE_HEADER_BYTES_def SYNC_HEADER_BYTES_def)
    obtain tail x where t: "chunk_loop (zip us (map record_size us)) (done' @ [cur]) [u] (chunk_size [u]) = (done' @ [cur]) @ tail"
      "tail \<noteq> []" "concat tail = [u] @ us" "[] \<notin> set tail" "\<forall>c \<in> set tail. chunk_size c \<le> MAX_SYNC_MESSAGE_BYTES"
      "successively tight tail" "hd tail = [u] @ x"
      using Cons.IH [OF one, of "done' @ [cur]"] by auto
    have "tight cur (hd tail)" using t(7) True by (simp add: tight_def)
    then have "successively tight (cur # tail)" using t(2,6) by (cases tail) simp_all
    then show ?thesis using t True Cons.prems size by (intro exI [of _ "cur # tail"]) auto
  next
    case False
    have size: "chunk_size cur + record_size u = chunk_size (cur @ [u])" by (simp add: chunk_size_def)
    have fits: "chunk_size (cur @ [u]) \<le> MAX_SYNC_MESSAGE_BYTES" using False one size by (cases "cur = []") auto
    obtain tail x where t: "chunk_loop (zip us (map record_size us)) done' (cur @ [u]) (chunk_size (cur @ [u])) = done' @ tail"
      "tail \<noteq> []" "concat tail = (cur @ [u]) @ us" "[] \<notin> set tail" "\<forall>c \<in> set tail. chunk_size c \<le> MAX_SYNC_MESSAGE_BYTES"
      "successively tight tail" "hd tail = (cur @ [u]) @ x"
      using Cons.IH [OF fits, of done'] by auto
    then show ?thesis using False size by (intro exI [of _ tail]) auto
  qed
qed

definition sync_chunks :: "MembershipUpdate list \<Rightarrow> MembershipUpdate list list" where
  "sync_chunks us = chunk_loop (zip us (map record_size us)) [] [] (MESSAGE_HEADER_BYTES + SYNC_HEADER_BYTES)"

lemma sync_chunks:
  "sync_chunks us \<noteq> []" "concat (sync_chunks us) = us" "us \<noteq> [] \<Longrightarrow> [] \<notin> set (sync_chunks us)"
  "\<forall>c \<in> set (sync_chunks us). chunk_size c \<le> MAX_SYNC_MESSAGE_BYTES" "successively tight (sync_chunks us)"
proof -
  have e: "chunk_size [] = MESSAGE_HEADER_BYTES + SYNC_HEADER_BYTES" "chunk_size [] \<le> MAX_SYNC_MESSAGE_BYTES"
    by (simp_all add: chunk_size_def mw_sizes)
  obtain tail where t: "sync_chunks us = tail" "tail \<noteq> []" "concat tail = us" "us \<noteq> [] \<longrightarrow> [] \<notin> set tail"
    "\<forall>c \<in> set tail. chunk_size c \<le> MAX_SYNC_MESSAGE_BYTES" "successively tight tail"
    using chunks_packed [OF e(2), of us "[]"] unfolding sync_chunks_def e(1) by auto
  then show "sync_chunks us \<noteq> []" "concat (sync_chunks us) = us" "us \<noteq> [] \<Longrightarrow> [] \<notin> set (sync_chunks us)"
    "\<forall>c \<in> set (sync_chunks us). chunk_size c \<le> MAX_SYNC_MESSAGE_BYTES" "successively tight (sync_chunks us)" by simp_all
qed

lemma length_nonempty_chunks: "[] \<notin> set cs \<Longrightarrow> length cs \<le> length (concat cs)"
proof (induction cs)
  case (Cons c cs)
  then show ?case by (cases c) auto
qed simp

lemma length_sync_chunks: "length (sync_chunks us) \<le> max 1 (length us)"
proof (cases "us = []")
  case False
  then show ?thesis using length_nonempty_chunks [OF sync_chunks(3) [OF False]] sync_chunks(2) [of us] by simp
qed (simp add: sync_chunks_def)

section \<open>A table comes back from its chunks\<close>

definition chunk_message :: "SyncMessageType \<Rightarrow> int \<Rightarrow> nat \<Rightarrow> nat \<Rightarrow> MembershipUpdate list \<Rightarrow> SyncMessage" where
  "chunk_message t x k i c = \<lparr>sy_type = t, sy_exchangeId = x, sy_chunkIndex = int i, sy_chunkCount = int k, sy_updates = c\<rparr>"

definition chunk_bytes :: "SyncMessageType \<Rightarrow> int \<Rightarrow> nat \<Rightarrow> nat \<Rightarrow> MembershipUpdate list \<Rightarrow> bytes" where
  "chunk_bytes t x k i c = envelope (sync_type t) (sync_body (chunk_message t x k i c) (map (\<lambda>u. the (prepareUpdate u)) c))"

lemma chunk_message_fields [simp]:
  "sy_updates (chunk_message t x k i c) = c" "sy_chunkCount (chunk_message t x k i c) = int k"
  "sy_type (chunk_message t x k i c) = t" "sy_exchangeId (chunk_message t x k i c) = x"
  by (simp_all add: chunk_message_def)

lemma those_map: "(\<forall>a \<in> set xs. f a = Some (g a)) \<Longrightarrow> those (map f xs) = Some (map g xs)"
  by (induction xs) auto

lemma all_prepared:
  assumes "\<forall>u \<in> set c. prepareUpdate u \<noteq> None"
  shows "list_all2 (\<lambda>u p. prepareUpdate u = Some p) c (map (\<lambda>u. the (prepareUpdate u)) c)"
    "sum_list (map pu_length (map (\<lambda>u. the (prepareUpdate u)) c)) = sum_list (map record_size c)"
  using assms by (induction c) (auto simp: record_size_def membershipUpdateSize_def)

lemma chunk_sent:
  assumes "0 < x" and "x < 2 ^ 64" and "i < k" and "k < 2 ^ 16" and "length c \<le> MAX_MEMBERS" and "distinct (map mu_member c)"
    and prep: "\<forall>u \<in> set c. prepareUpdate u \<noteq> None \<and> mw_unmarked u" and size: "chunk_size c \<le> MAX_SYNC_MESSAGE_BYTES"
  shows "mw_encodeMessage (SyncChunk (chunk_message t x k i c)) = Some (chunk_bytes t x k i c)"
    "decodeSyncMessage (chunk_bytes t x k i c) = Some (chunk_message t x k i c)" "length (chunk_bytes t x k i c) = chunk_size c"
proof -
  let ?m = "chunk_message t x k i c" and ?ps = "map (\<lambda>u. the (prepareUpdate u)) c"
  have ps: "list_all2 (\<lambda>u p. prepareUpdate u = Some p) c ?ps" "sum_list (map pu_length ?ps) = sum_list (map record_size c)"
    using all_prepared [of c] prep by auto
  have body: "prepareSyncBody ?m = Some (?ps, 14 + sum_list (map record_size c))"
    unfolding sync_prepared using assms(1-6) ps by (simp add: chunk_message_def)
  have n: "14 + sum_list (map record_size c) \<le> 0xffff" using size by (simp add: chunk_size_def MAX_SYNC_MESSAGE_BYTES_def)
  show "mw_encodeMessage (SyncChunk ?m) = Some (chunk_bytes t x k i c)"
    using sync_encoded [OF body n] by (simp add: chunk_bytes_def chunk_message_def)
  show "decodeSyncMessage (chunk_bytes t x k i c) = Some ?m"
    using sync_decoded [OF body n] prep by (simp add: chunk_bytes_def chunk_message_def)
  show "length (chunk_bytes t x k i c) = chunk_size c"
    using length_sync_body [OF ps(1), of ?m] ps(2) by (simp add: chunk_bytes_def envelope_def chunk_size_def)
qed

lemma chunk_appended:
  assumes "distinct (map mu_member c)" and "mu_member ` set c \<inter> names = {}" and "length acc + length c \<le> MAX_MEMBERS"
  shows "appendCanonicalChunkUpdates c names acc = Some (names \<union> mu_member ` set c, acc @ c)"
  using assms by (induction c arbitrary: names acc) (auto simp: addDistinctMember_def Let_def insert_commute)

lemma largest_prefix:
  assumes "tight c d" and "length b = chunk_size c" and "d = u # us" and "prepareUpdate u \<noteq> None" and "sy_updates m = d"
  shows "validateLargestPrefix b (Some m) = Some ()"
  using assms by (auto simp: validateLargestPrefix_def tight_def record_size_def membershipUpdateSize_def)

lemma chunks_validated:
  assumes "successively tight cs" and "distinct (map mu_member (acc @ concat cs))" and "length (acc @ concat cs) \<le> MAX_MEMBERS"
    and "\<forall>c \<in> set cs. c \<noteq> [] \<or> k = 1 \<and> i = 0 \<and> cs = [c]" and "\<forall>u \<in> set (concat cs). prepareUpdate u \<noteq> None"
    and "\<forall>j < length cs. length (bytes j) = chunk_size (cs ! j)" and "first = chunk_message t x k j0 c0"
  shows "validate_chunks (map (\<lambda>j. (bytes j, chunk_message t x k (i + j) (cs ! j))) [0..<length cs]) first i k (mu_member ` set acc) acc
    = Some (acc @ concat cs)"
  using assms
proof (induction cs arbitrary: i acc bytes)
  case (Cons c cs)
  have idx: "[0..<length (c # cs)] = 0 # map Suc [0..<length cs]" by (simp add: map_Suc_upt upt_conv_Cons del: upt_Suc)
  have valid: "validateCanonicalChunk (chunk_message t x k i c) first i k = Some ()"
    using Cons.prems(4,7) by (auto simp: validateCanonicalChunk_def chunk_message_def)
  have app: "appendCanonicalChunkUpdates c (mu_member ` set acc) acc = Some (mu_member ` set (acc @ c), acc @ c)"
  proof -
    have "distinct (map mu_member c)" "mu_member ` set c \<inter> mu_member ` set acc = {}" "length acc + length c \<le> MAX_MEMBERS"
      using Cons.prems(2,3) by auto
    from chunk_appended [OF this] show ?thesis by (simp add: image_Un)
  qed
  have ne: "\<forall>d \<in> set cs. d \<noteq> []" using Cons.prems(4) by auto
  let ?rest = "map (\<lambda>j. (bytes (Suc j), chunk_message t x k (i + Suc j) (cs ! j))) [0..<length cs]"
  have prefix: "validateLargestPrefix (bytes 0) (case ?rest of [] \<Rightarrow> None | (_, following) # _ \<Rightarrow> Some following) = Some ()"
  proof (cases cs)
    case Nil
    then show ?thesis by (simp add: validateLargestPrefix_def)
  next
    case (Cons d ds)
    then obtain u us where d: "d = u # us" using ne by (cases d) auto
    have "validateLargestPrefix (bytes 0) (Some (chunk_message t x k (i + Suc 0) d)) = Some ()"
      by (rule largest_prefix [OF _ _ d]) (use Cons.prems Cons d in \<open>auto simp: chunk_message_def\<close>)
    moreover have "?rest = (bytes (Suc 0), chunk_message t x k (i + Suc 0) d) # tl ?rest" using Cons by (simp add: upt_conv_Cons del: upt_Suc)
    ultimately show ?thesis by (metis (no_types, lifting) list.simps(5) case_prod_conv)
  qed
  have "validate_chunks ?rest first (Suc i) k (mu_member ` set (acc @ c)) (acc @ c) = Some ((acc @ c) @ concat cs)"
    using Cons.IH [of "acc @ c" "Suc i" "\<lambda>j. bytes (Suc j)"] Cons.prems ne by (auto simp: successively_Cons)
  then show ?case using valid app prefix unfolding idx by (simp add: o_def)
qed simp

lemma map_enumerate: "map (\<lambda>(i, c). f i c) (enumerate 0 cs) = map (\<lambda>j. f j (cs ! j)) [0..<length cs]"
  by (rule nth_equalityI) (simp_all add: nth_enumerate_eq)

lemma budget_kept: "n + sum_list (map (\<lambda>b. 4 + length b) bs) \<le> MAX_SYNC_EXCHANGE_BYTES \<Longrightarrow> exchange_budget bs n = Some ()"
  by (induction bs arbitrary: n) (auto simp: Let_def)

lemma sum_chunk_sizes: "sum_list (map (\<lambda>c. 4 + chunk_size c) cs) = 22 * length cs + sum_list (map record_size (concat cs))"
  by (induction cs) (simp_all add: chunk_size_def)

lemma sum_records: "sum_list (map record_size us) \<le> 787 * length us"
proof (induction us)
  case (Cons u us)
  then show ?case using record_size_bound [of u] by simp
qed simp

definition table_ok :: "int \<Rightarrow> MembershipUpdate list \<Rightarrow> bool" where
  "table_ok x us \<longleftrightarrow> 0 < x \<and> x < 2 ^ 64 \<and> length us \<le> MAX_MEMBERS \<and> distinct (map mu_member us)
     \<and> (\<forall>u \<in> set us. prepareUpdate u \<noteq> None \<and> mw_unmarked u)"

lemma chunk_of_table:
  assumes "c \<in> set (sync_chunks us)" and "table_ok x us"
  shows "length c \<le> MAX_MEMBERS \<and> distinct (map mu_member c) \<and> (\<forall>u \<in> set c. prepareUpdate u \<noteq> None \<and> mw_unmarked u)"
proof -
  obtain ls rs where "sync_chunks us = ls @ c # rs" using assms(1) by (auto simp: in_set_conv_decomp)
  then have "us = concat ls @ c @ concat rs" using sync_chunks(2) [of us] by simp
  then show ?thesis using assms(2) by (auto simp: table_ok_def)
qed

lemma table_comes_back:
  assumes ok: "table_ok x us"
  obtains bs where "encodeSyncChunks t x us = Some bs" "decodeSyncChunks bs = Some \<lparr>de_type = t, de_exchangeId = x, de_updates = us\<rparr>"
    "\<forall>b \<in> set bs. 4 \<le> length b \<and> length b \<le> MAX_SYNC_MESSAGE_BYTES"
proof -
  let ?cs = "sync_chunks us" and ?k = "length (sync_chunks us)"
  let ?js = "[0..<length (sync_chunks us)]"
  let ?b = "\<lambda>j. chunk_bytes t x (length (sync_chunks us)) j (sync_chunks us ! j)"
  let ?m = "\<lambda>j. chunk_message t x (length (sync_chunks us)) j (sync_chunks us ! j)"
  have x: "0 < x" "x < 2 ^ 64" "length us \<le> MAX_MEMBERS" "distinct (map mu_member us)" "\<forall>u \<in> set us. prepareUpdate u \<noteq> None"
    using ok by (auto simp: table_ok_def)
  have k: "?k \<le> MAX_MEMBERS" "?k < 2 ^ 16" using length_sync_chunks [of us] x(3) by (auto simp: MAX_MEMBERS_def)
  have sent: "mw_encodeMessage (SyncChunk (?m j)) = Some (?b j)" "decodeSyncMessage (?b j) = Some (?m j)" "length (?b j) = chunk_size (?cs ! j)"
    if "j < ?k" for j
    using chunk_sent [OF x(1,2) that k(2), of "?cs ! j" t] chunk_of_table [OF nth_mem [OF that] ok] sync_chunks(4) [of us] nth_mem [OF that] by auto
  have sizes: "sync_sizes us {} = Some (map record_size us)" using sizes_defined [OF x(4) _ x(5)] by simp
  have "encodeSyncChunks t x us = those (map (\<lambda>(i, c). mw_encodeMessage (SyncChunk (chunk_message t x ?k i c))) (enumerate 0 ?cs))"
    using x(1-3) sizes by (simp add: encodeSyncChunks_def mw_assertU64_def sync_chunks_def chunk_message_def Let_def del: mw_encodeMessage.simps)
  also have "\<dots> = Some (map ?b ?js)" unfolding map_enumerate by (rule those_map) (use sent in \<open>simp del: mw_encodeMessage.simps\<close>)
  finally have enc: "encodeSyncChunks t x us = Some (map ?b ?js)" .
  have "sum_list (map (\<lambda>b. 4 + length b) (map ?b ?js)) = sum_list (map (\<lambda>c. 4 + chunk_size c) (map ((!) ?cs) ?js))"
    unfolding map_map o_def by (rule arg_cong [of _ _ sum_list], rule map_cong [OF refl]) (use sent in simp)
  also have "\<dots> = 22 * ?k + sum_list (map record_size us)" unfolding map_nth sum_chunk_sizes sync_chunks(2) ..
  finally have budget: "assertSyncExchangeBudget (map ?b ?js) = Some ()"
    unfolding assertSyncExchangeBudget_def using sum_records [of us] x(3) k(1)
    by (intro budget_kept) (simp add: MAX_MEMBERS_def MAX_SYNC_EXCHANGE_BYTES_def)
  have decoded: "those (map decodeSyncMessage (map ?b ?js)) = Some (map ?m ?js)"
    unfolding map_map o_def by (rule those_map) (use sent in simp)
  have ne: "?cs \<noteq> []" by (rule sync_chunks(1))
  then have hd: "hd (map ?m ?js) = ?m 0" "?js \<noteq> []" by (simp_all add: hd_map)
  have "us = [] \<Longrightarrow> ?cs = [[]]" by (simp add: sync_chunks_def)
  then have full: "\<forall>c \<in> set ?cs. c \<noteq> [] \<or> ?k = 1 \<and> (0::nat) = 0 \<and> ?cs = [c]" using sync_chunks(3) [of us] by (cases "us = []") auto
  have "validate_chunks (zip (map ?b ?js) (map ?m ?js)) (?m 0) 0 ?k {} [] = Some us"
    using chunks_validated [OF sync_chunks(5) _ _ full _ _ refl, of "[]" ?b t x 0 "?cs ! 0"] x(3-5) sent(3) sync_chunks(2) [of us]
    by (simp add: zip_map_map zip_same_conv_map o_def)
  then have "combineSyncChunks (map ?b ?js) (map ?m ?js) = Some \<lparr>de_type = t, de_exchangeId = x, de_updates = us\<rparr>"
    unfolding combineSyncChunks_def validateCanonicalSyncChunks_def hd(1) using ne by simp
  then have "decodeSyncChunks (map ?b ?js) = Some \<lparr>de_type = t, de_exchangeId = x, de_updates = us\<rparr>"
    unfolding decodeSyncChunks_def budget decoded using ne by simp
  then show ?thesis using that [OF enc] sent(3) sync_chunks(4) [of us] by (auto simp: chunk_size_def)
qed

section \<open>The splitter computes the frames of the stream\<close>

text \<open>
  What the splitter should do with everything it was given: the complete frames in front,
  and what is left over.
\<close>

function split_frames :: "bytes \<Rightarrow> (bytes list \<times> bytes) option" where
  "split_frames p =
     (if length p < 4 then Some ([], p)
      else
        let n = get_be (take 4 p) in
        if n < 4 \<or> n > MAX_SYNC_MESSAGE_BYTES then None
        else if length p < 4 + n then Some ([], p)
        else map_option (\<lambda>(fs, r). (take n (drop 4 p) # fs, r)) (split_frames (drop (4 + n) p)))"
  by pat_completeness auto
termination
  by (relation "measure length") auto

declare split_frames.simps [simp del]

definition fa_pending :: "SyncFrameAssembler \<Rightarrow> bytes" where
  "fa_pending st =
     (case fa_frame st of
        None \<Rightarrow> take (fa_prefixBytes st) (fa_prefix st)
      | Some frame \<Rightarrow> fa_prefix st @ take (fa_frameBytes st) frame)"

definition fa_ok :: "SyncFrameAssembler \<Rightarrow> bool" where
  "fa_ok st \<longleftrightarrow> length (fa_prefix st) = 4
     \<and> (case fa_frame st of
          None \<Rightarrow> fa_prefixBytes st < 4
        | Some frame \<Rightarrow> fa_prefixBytes st = 4 \<and> length frame = get_be (fa_prefix st) \<and> 4 \<le> length frame
            \<and> length frame \<le> MAX_SYNC_MESSAGE_BYTES \<and> fa_frameBytes st < length frame)"

definition fa_post ::
  "bytes list \<Rightarrow> (bytes list \<times> bytes) option \<Rightarrow> (bytes list \<times> SyncFrameAssembler) option option \<Rightarrow> bool" where
  "fa_post frames sf R =
     (case sf of
        None \<Rightarrow> R = Some None
      | Some (fs, r) \<Rightarrow> (\<exists>st'. R = Some (Some (frames @ fs, st')) \<and> fa_ok st' \<and> fa_pending st' = r))"

lemma split_started:
  assumes "length h = 4" and "4 \<le> get_be h" and "get_be h \<le> MAX_SYNC_MESSAGE_BYTES"
  shows "split_frames (h @ xs) =
    (if length xs < get_be h then Some ([], h @ xs)
     else map_option (\<lambda>(fs, r). (take (get_be h) xs # fs, r)) (split_frames (drop (get_be h) xs)))"
  using assms by (subst split_frames.simps) (simp add: Let_def)

lemma copy_step:
  assumes ok: "fa_ok st" and f: "fa_frame st = Some f" and off: "offset \<le> length bytes"
    and more: "\<And>o' fr st'. offset < o' \<Longrightarrow> o' \<le> length bytes \<Longrightarrow> fa_ok st' \<Longrightarrow>
      fa_post fr (split_frames (fa_pending st' @ drop o' bytes)) (fa_loop bytes o' fr st')"
  shows "fa_post frames (split_frames (fa_pending st @ drop offset bytes))
    (let (done', offset, st) = fa_copy bytes offset f st in fa_loop bytes offset (frames @ done') st)"
proof -
  let ?k = "fa_frameBytes st" and ?rem = "drop offset bytes" and ?h = "fa_prefix st"
  have st: "length ?h = 4" "length f = get_be ?h" "4 \<le> get_be ?h" "get_be ?h \<le> MAX_SYNC_MESSAGE_BYTES" "?k < length f" "fa_prefixBytes st = 4"
    using ok f by (auto simp: fa_ok_def)
  have split: "split_frames (fa_pending st @ ?rem) =
    (if length (take ?k f @ ?rem) < get_be ?h then Some ([], fa_pending st @ ?rem)
     else map_option (\<lambda>(fs, r). (take (get_be ?h) (take ?k f @ ?rem) # fs, r)) (split_frames (drop (get_be ?h) (take ?k f @ ?rem))))"
    using split_started [OF st(1,3,4), of "take ?k f @ ?rem"] f by (simp add: fa_pending_def)
  show ?thesis
  proof (cases "length ?rem < length f - ?k")
    case True
    let ?f = "overwrite ?k ?rem f" and ?st = "st\<lparr>fa_frame := Some (overwrite ?k ?rem f), fa_frameBytes := ?k + length ?rem\<rparr>"
    have len: "length ?f = length f" "take (?k + length ?rem) ?f = take ?k f @ ?rem" using True st(5) by (simp_all add: overwrite_def)
    have copy: "fa_copy bytes offset f st = ([], length bytes, ?st)"
      using True off len(1) by (simp add: fa_copy_def Let_def min_def)
    have "fa_ok ?st" "fa_pending ?st = fa_pending st @ ?rem"
      using st True len f by (simp_all add: fa_ok_def fa_pending_def)
    moreover have "length (take ?k f @ ?rem) < get_be ?h" using True st(2,5) by simp
    then have "split_frames (fa_pending st @ ?rem) = Some ([], fa_pending st @ ?rem)" using split by (simp only: if_True)
    ultimately show ?thesis unfolding copy by (simp add: fa_post_def fa_loop.simps [of bytes "length bytes"])
  next
    case False
    let ?n = "length f - ?k" and ?st = "st\<lparr>fa_prefixBytes := 0, fa_frame := None, fa_frameBytes := 0\<rparr>"
    let ?f = "take ?k f @ take ?n ?rem"
    have over: "overwrite ?k (take ?n ?rem) f = ?f" "length ?f = length f" using False st(5) by (simp_all add: overwrite_def)
    have copy: "fa_copy bytes offset f st = ([?f], offset + ?n, ?st)"
      using False st(5) over by (simp add: fa_copy_def Let_def min_def)
    have "fa_ok ?st" "fa_pending ?st = []" using st by (simp_all add: fa_ok_def fa_pending_def)
    then have rest: "fa_post (frames @ [?f]) (split_frames (drop (offset + ?n) bytes)) (fa_loop bytes (offset + ?n) (frames @ [?f]) ?st)"
      using more [of "offset + ?n" ?st "frames @ [?f]"] False st(5) by simp
    have "take (get_be ?h) (take ?k f @ ?rem) = ?f" "drop (get_be ?h) (take ?k f @ ?rem) = drop (offset + ?n) bytes"
      "\<not> length (take ?k f @ ?rem) < get_be ?h"
      using st(2,5) False by (simp_all add: min_def add.commute)
    then show ?thesis using rest split unfolding copy
      by (cases "split_frames (drop (offset + ?n) bytes)") (auto simp: fa_post_def)
  qed
qed

lemma loop_splits:
  assumes "fa_ok st" and "offset \<le> length bytes"
  shows "fa_post frames (split_frames (fa_pending st @ drop offset bytes)) (fa_loop bytes offset frames st)"
  using assms
proof (induction "length bytes - offset" arbitrary: offset frames st rule: less_induct)
  case less
  have more: "fa_post fr (split_frames (fa_pending st' @ drop o' bytes)) (fa_loop bytes o' fr st')"
    if "offset < o'" "o' \<le> length bytes" "fa_ok st'" for o' fr st'
    using less.hyps [of o' st' fr] that by simp
  show ?case
  proof (cases "offset < length bytes")
    case False
    have small: "split_frames (fa_pending st) = Some ([], fa_pending st)"
    proof (cases "fa_frame st")
      case None
      then show ?thesis using less.prems(1) by (subst split_frames.simps) (simp add: fa_pending_def fa_ok_def)
    next
      case (Some f)
      then show ?thesis using less.prems(1) split_started [of "fa_prefix st" "take (fa_frameBytes st) f"]
        by (simp add: fa_pending_def fa_ok_def)
    qed
    then show ?thesis using False less.prems by (simp add: fa_loop.simps [of bytes "length bytes"] fa_post_def)
  next
    case True
    show ?thesis
    proof (cases "fa_frame st")
      case (Some f)
      have "fa_loop bytes offset frames st = (let (done', offset, st) = fa_copy bytes offset f st in fa_loop bytes offset (frames @ done') st)"
        using True Some by (subst fa_loop.simps) simp
      then show ?thesis using copy_step [OF less.prems(1) Some less.prems(2) more] by simp
    next
      case None
      let ?j = "fa_prefixBytes st" and ?rem = "drop offset bytes"
      define n where "n = min (4 - ?j) (length bytes - offset)"
      define p where "p = overwrite ?j (take n ?rem) (fa_prefix st)"
      let ?st = "st\<lparr>fa_prefix := p, fa_prefixBytes := ?j + n\<rparr>"
      have st: "length (fa_prefix st) = 4" "?j < 4" "fa_pending st = take ?j (fa_prefix st)" using less.prems(1) None
        by (simp_all add: fa_ok_def fa_pending_def)
      have n: "n \<le> length ?rem" "n \<le> 4 - ?j" "0 < n" "?j + n < 4 \<Longrightarrow> n = length ?rem" using True st(2) by (auto simp: n_def)
      have p: "length p = 4" "take (?j + n) p = fa_pending st @ take n ?rem" using st n by (simp_all add: p_def overwrite_def)
      have unroll: "fa_loop bytes offset frames st =
          (if ?j + n < 4 then Some (Some (frames, ?st))
           else if get_be p < 4 \<or> get_be p > MAX_SYNC_MESSAGE_BYTES then Some None
           else (let (done', offset, st) = fa_copy bytes (offset + n) (replicate (get_be p) 0) (?st\<lparr>fa_frame := Some (replicate (get_be p) 0), fa_frameBytes := 0\<rparr>)
                 in fa_loop bytes offset (frames @ done') st))"
        using True None p(1) unfolding p_def n_def
        by (subst fa_loop.simps) (simp only: Let_def get_uint_def option.case not_not if_False, simp add: Let_def)
      show ?thesis
      proof (cases "?j + n < 4")
        case short: True
        have "fa_ok ?st" "fa_pending ?st = fa_pending st @ ?rem" using short p None n(4) by (simp_all add: fa_ok_def fa_pending_def)
        moreover have "length (fa_pending st @ ?rem) < 4" using short st n(4) by simp
        then have "split_frames (fa_pending st @ ?rem) = Some ([], fa_pending st @ ?rem)"
          by (subst split_frames.simps) (simp only: if_True)
        ultimately show ?thesis using unroll short by (simp add: fa_post_def)
      next
        case False
        have whole: "fa_pending st @ ?rem = p @ drop (offset + n) bytes"
        proof -
          have "take (?j + n) p = p" using False n(2) st(2) p(1) by simp
          then have "p @ drop (offset + n) bytes = fa_pending st @ take n ?rem @ drop n ?rem" using p(2) by (simp add: add.commute)
          then show ?thesis by (simp only: append_take_drop_id)
        qed
        show ?thesis
        proof (cases "get_be p < 4 \<or> get_be p > MAX_SYNC_MESSAGE_BYTES")
          case bad: True
          then have "split_frames (p @ drop (offset + n) bytes) = None" using p(1) by (subst split_frames.simps) (simp add: Let_def)
          then show ?thesis unfolding whole using unroll bad False by (simp add: fa_post_def)
        next
          case good: False
          let ?st' = "?st\<lparr>fa_frame := Some (replicate (get_be p) 0), fa_frameBytes := 0\<rparr>"
          have ok: "fa_ok ?st'" "fa_frame ?st' = Some (replicate (get_be p) 0)" "fa_pending ?st' = p"
            using good p(1) n(2) False st(2) by (simp_all add: fa_ok_def fa_pending_def)
          have "fa_post frames (split_frames (fa_pending ?st' @ drop (offset + n) bytes))
              (let (done', offset, st) = fa_copy bytes (offset + n) (replicate (get_be p) 0) ?st' in fa_loop bytes offset (frames @ done') st)"
            by (rule copy_step [OF ok(1,2)]) (use more n(1) True in auto)
          then show ?thesis unfolding whole ok(3) using unroll good False by simp
        qed
      qed
    qed
  qed
qed

lemma split_append:
  "split_frames (p @ q) =
     (case split_frames p of
        None \<Rightarrow> None
      | Some (fs, r) \<Rightarrow> map_option (\<lambda>(gs, r'). (fs @ gs, r')) (split_frames (r @ q)))"
proof (induction p rule: split_frames.induct)
  case (1 p)
  let ?n = "get_be (take 4 p)"
  consider "length p < 4" | "4 \<le> length p" "?n < 4 \<or> ?n > MAX_SYNC_MESSAGE_BYTES"
    | "4 \<le> length p" "4 \<le> ?n" "?n \<le> MAX_SYNC_MESSAGE_BYTES" "length p < 4 + ?n"
    | "4 \<le> length p" "4 \<le> ?n" "?n \<le> MAX_SYNC_MESSAGE_BYTES" "4 + ?n \<le> length p" by linarith
  then show ?case
  proof cases
    case 1
    then show ?thesis by (simp add: split_frames.simps [of p] option.map_id)
  next
    case 2
    then show ?thesis by (simp add: split_frames.simps [of p] split_frames.simps [of "p @ q"] Let_def)
  next
    case 3
    then show ?thesis by (simp add: split_frames.simps [of p] option.map_id)
  next
    case 4
    have "split_frames (drop (4 + ?n) p @ q) =
      (case split_frames (drop (4 + ?n) p) of None \<Rightarrow> None
       | Some (fs, r) \<Rightarrow> map_option (\<lambda>(gs, r'). (fs @ gs, r')) (split_frames (r @ q)))"
      using 1 [OF _ refl] 4 by simp
    then show ?thesis using 4
      by (simp add: split_frames.simps [of p] split_frames.simps [of "p @ q"] Let_def option.map_comp o_def case_prod_unfold split: option.split)
  qed
qed

text \<open>The carrier hands the stream over in pieces.\<close>

fun fa_pushes :: "bytes list \<Rightarrow> SyncFrameAssembler \<Rightarrow> (bytes list \<times> SyncFrameAssembler) option option" where
  "fa_pushes [] st = Some (Some ([], st))"
| "fa_pushes (piece # pieces) st = do {
     R \<leftarrow> fa_push piece st;
     case R of
       None \<Rightarrow> Some None
     | Some (frames, st) \<Rightarrow> map_option (map_option (\<lambda>(more, st). (frames @ more, st))) (fa_pushes pieces st)
   }"

lemma pending_splits:
  assumes "fa_ok st"
  shows "split_frames (fa_pending st) = Some ([], fa_pending st)"
  using loop_splits [OF assms, of 0 "[]" "[]"]
  by (auto simp: fa_post_def fa_loop.simps [of "[]"] split: option.splits)

lemma pushes_split:
  assumes "fa_ok st"
  shows "fa_post [] (split_frames (fa_pending st @ concat pieces)) (fa_pushes pieces st)"
  using assms
proof (induction pieces arbitrary: st)
  case Nil
  then show ?case using pending_splits by (simp add: fa_post_def)
next
  case (Cons b bs)
  have one: "fa_post [] (split_frames (fa_pending st @ b)) (fa_push b st)"
    using loop_splits [OF Cons.prems, of 0 b "[]"] by (simp add: fa_push_def)
  show ?case
  proof (cases "split_frames (fa_pending st @ b)")
    case None
    then show ?thesis using one split_append [of "fa_pending st @ b" "concat bs"] by (simp add: fa_post_def)
  next
    case (Some z)
    obtain fs r where z: "z = (fs, r)" by (cases z)
    obtain st' where st': "fa_push b st = Some (Some (fs, st'))" "fa_ok st'" "fa_pending st' = r"
      using one Some z by (auto simp: fa_post_def)
    have "split_frames (fa_pending st @ concat (b # bs)) = map_option (\<lambda>(gs, r'). (fs @ gs, r')) (split_frames (r @ concat bs))"
      using split_append [of "fa_pending st @ b" "concat bs"] Some z by simp
    then show ?thesis using Cons.IH [OF st'(2)] st' by (auto simp: fa_post_def split: option.splits)
  qed
qed

lemma new_ok: "fa_ok fa_new" "fa_pending fa_new = []"
  by (simp_all add: fa_ok_def fa_new_def fa_pending_def)

lemma framed_splits:
  assumes "\<forall>b \<in> set bs. 4 \<le> length b \<and> length b \<le> MAX_SYNC_MESSAGE_BYTES"
  shows "split_frames (concat (map frame_message bs)) = Some (bs, [])"
  using assms
proof (induction bs)
  case Nil
  then show ?case by (simp add: split_frames.simps)
next
  case (Cons b bs)
  have len: "get_be (put_be 4 (length b)) = length b" using Cons.prems by (simp add: MAX_SYNC_MESSAGE_BYTES_def)
  have "split_frames (put_be 4 (length b) @ b @ concat (map frame_message bs)) = Some (b # bs, [])"
    using split_started [of "put_be 4 (length b)" "b @ concat (map frame_message bs)"] Cons unfolding len by simp
  then show ?case by (simp add: frame_message_def [of b])
qed

lemma pending_complete: "fa_ok st \<Longrightarrow> fa_pending st = [] \<Longrightarrow> fa_complete st"
  by (auto simp: fa_ok_def fa_pending_def fa_complete_def split: option.splits)

text \<open>
  However the carrier cuts the synchronization stream, the splitter returns and hands out
  the same frames: those of everything pushed so far, keeping the rest for later, and an
  error exactly when the stream contains a length out of range.
\<close>

lemma splitter_ignores_cuts:
  "case split_frames (concat pieces) of
     None \<Rightarrow> fa_pushes pieces fa_new = Some None
   | Some (fs, r) \<Rightarrow> (\<exists>st. fa_pushes pieces fa_new = Some (Some (fs, st)) \<and> fa_pending st = r)"
  using pushes_split [OF new_ok(1), of pieces] new_ok(2) by (auto simp: fa_post_def split: option.splits)

text \<open>
  C22. A table arrives: for every table the protocol allows, up to the largest, the encoder
  produces chunks; their frames, cut into pieces in any way, come out of the splitter as
  those chunks with nothing left over; and decoding them, with all the checks on order,
  packing and budget, gives back the table.
\<close>

theorem sync_table_arrives:
  assumes "0 < x" and "x < 2 ^ 64" and "length us \<le> MAX_MEMBERS" and "distinct (map mu_member us)"
    and "\<forall>u \<in> set us. prepareUpdate u \<noteq> None \<and> mw_unmarked u"
  shows "\<exists>chunks. encodeSyncChunks t x us = Some chunks
    \<and> (\<forall>pieces. concat pieces = concat (map frame_message chunks) \<longrightarrow>
         (\<exists>st. fa_pushes pieces fa_new = Some (Some (chunks, st)) \<and> fa_complete st))
    \<and> decodeSyncChunks chunks = Some \<lparr>de_type = t, de_exchangeId = x, de_updates = us\<rparr>"
proof -
  have "table_ok x us" using assms by (simp add: table_ok_def)
  then obtain chunks where c: "encodeSyncChunks t x us = Some chunks"
    "decodeSyncChunks chunks = Some \<lparr>de_type = t, de_exchangeId = x, de_updates = us\<rparr>"
    "\<forall>b \<in> set chunks. 4 \<le> length b \<and> length b \<le> MAX_SYNC_MESSAGE_BYTES"
    by (rule table_comes_back)
  have "\<exists>st. fa_pushes pieces fa_new = Some (Some (chunks, st)) \<and> fa_complete st" if "concat pieces = concat (map frame_message chunks)" for pieces
    using pushes_split [OF new_ok(1), of pieces] new_ok(2) framed_splits [OF c(3)] pending_complete that by (auto simp: fa_post_def)
  then show ?thesis using c by blast
qed

definition sample_table :: "MembershipUpdate list" where
  "sample_table = [truth (js ''a'') STATE_ALIVE 0 [] [1, 2], truth (js ''b'') STATE_SUSPECT 3 (js ''a'') []]"

theorem sync_table_arrives_witness:
  "\<exists>chunks. encodeSyncChunks SyncRequest 9 sample_table = Some chunks
    \<and> decodeSyncChunks chunks = Some \<lparr>de_type = SyncRequest, de_exchangeId = 9, de_updates = sample_table\<rparr>"
proof -
  have name: "mw_encodeName (js ''a'') e = Some [97]" "mw_encodeName (js ''b'') e = Some [98]" "mw_encodeName [] True = Some []" for e
    by (simp_all add: mw_encodeName_def js_def encode_def utf8_bytes_def is_high_def is_low_def mw_sizes)
  have "\<forall>u \<in> set sample_table. prepareUpdate u \<noteq> None \<and> mw_unmarked u"
    by (simp add: sample_table_def truth_def prepareUpdate_def assertUint_def mw_assertU64_def name mw_sizes mw_unmarked_def)
      (simp add: unmarked_def js_def bom_def)
  moreover have "length sample_table \<le> MAX_MEMBERS" "distinct (map mu_member sample_table)"
    by (simp_all add: sample_table_def truth_def MAX_MEMBERS_def js_def)
  ultimately show ?thesis using sync_table_arrives [of 9 sample_table SyncRequest] by auto
qed

end
