(* ===== verification/AntiEntropy.thy ===== *)
theory AntiEntropy
  imports Fragment
begin

text \<open>
  Background anti-entropy, \<open>src/kv/anti.entropy.ts\<close>: two replicas of a partition
  compare a digest, then digests per repair bucket, then key versions of the
  buckets that differ, and move exactly the entries that differ.  The peer's state at
  the \<open>i\<close>-th request of a pass is an argument, \<^term>\<open>None\<close> when it does not answer.

  The theory shows that a pass between two replicas that do not change meanwhile
  makes them agree on every key of the partition, provided the digests tell the
  buckets apart, and that no pass, complete or cut short, loses anything.
\<close>

section \<open>Operations\<close>

definition digestsEqual :: "DigestLanes \<Rightarrow> DigestLanes \<Rightarrow> bool" where
  "digestsEqual left right \<longleftrightarrow> hi left = hi right \<and> lo left = lo right"

definition ae_serveDigest :: "nat \<Rightarrow> DigestLanes \<Rightarrow> Engine \<Rightarrow> DigestLanes list" where
  "ae_serveDigest pid theirDigest en =
     (if digestsEqual (en_partitionDigest pid en) theirDigest then [] else en_bucketDigests pid en)"

definition ae_serveKeyVersions :: "nat \<Rightarrow> nat list \<Rightarrow> Engine \<Rightarrow> KeyVersion list" where
  "ae_serveKeyVersions pid buckets en = en_keyVersions pid (set buckets) en"

definition ae_serveEntries :: "nat \<Rightarrow> jsstr list \<Rightarrow> Engine \<Rightarrow> FragmentChunk" where
  "ae_serveEntries pid keys en =
     \<lparr>fc_partitionId = pid, fc_final = True, fc_entries = en_entriesFor pid keys en\<rparr>"

definition ae_divergentBuckets :: "nat \<Rightarrow> Engine option \<Rightarrow> Engine \<Rightarrow> nat list option" where
  "ae_divergentBuckets pid peer en =
     (case map_option (ae_serveDigest pid (en_partitionDigest pid en)) peer of
        None \<Rightarrow> None
      | Some peerBuckets \<Rightarrow>
          if length peerBuckets = 0 then Some []
          else
            let localBuckets = en_bucketDigests pid en in
            if length peerBuckets \<noteq> length localBuckets then None
            else Some (filter (\<lambda>b. \<not> digestsEqual (localBuckets ! b) (peerBuckets ! b)) [0..<length localBuckets]))"

definition ae_peerVersions :: "nat \<Rightarrow> nat list \<Rightarrow> Engine option \<Rightarrow> (jsstr, HybridTime) jsmap option" where
  "ae_peerVersions pid buckets peer =
     map_option (\<lambda>pe. fold (\<lambda>v m. js_set (kv_key v) (kv_timestamp v) m) (ae_serveKeyVersions pid buckets pe) []) peer"

text \<open>Sets of keys are lists without repetition, in insertion order.\<close>

definition add_key :: "jsstr \<Rightarrow> jsstr list \<Rightarrow> jsstr list" where
  "add_key k ks = (if k \<in> set ks then ks else ks @ [k])"

record SyncPlan =
  sp_push :: "Entry list"
  sp_pull :: "jsstr list"

definition plan_step ::
  "(jsstr, HybridTime) jsmap \<Rightarrow> KeyVersion \<Rightarrow> jsstr list \<times> jsstr list \<times> jsstr list \<Rightarrow> jsstr list \<times> jsstr list \<times> jsstr list" where
  "plan_step peerVersions v = (\<lambda>(pushKeys, pull, localSeen).
     let localSeen = add_key (kv_key v) localSeen in
     case js_get peerVersions (kv_key v) of
       None \<Rightarrow> (add_key (kv_key v) pushKeys, pull, localSeen)
     | Some peerTimestamp \<Rightarrow>
         let order = compareHybrid (kv_timestamp v) peerTimestamp in
         if order > 0 then (add_key (kv_key v) pushKeys, pull, localSeen)
         else if order < 0 then (pushKeys, add_key (kv_key v) pull, localSeen)
         else (pushKeys, pull, localSeen))"

definition ae_plan :: "nat \<Rightarrow> nat list \<Rightarrow> (jsstr, HybridTime) jsmap \<Rightarrow> Engine \<Rightarrow> SyncPlan" where
  "ae_plan pid buckets peerVersions en =
     (let (pushKeys, pull, localSeen) = fold (plan_step peerVersions) (en_keyVersions pid (set buckets) en) ([], [], []);
          pull = fold (\<lambda>key pull. if key \<in> set localSeen then pull else add_key key pull) (js_keys peerVersions) pull
      in \<lparr>sp_push = en_entriesFor pid pushKeys en, sp_pull = pull\<rparr>)"

definition ae_pull :: "nat \<Rightarrow> jsstr list \<Rightarrow> Engine option \<Rightarrow> Engine \<Rightarrow> Engine" where
  "ae_pull pid keys peer en =
     (case peer of None \<Rightarrow> en | Some pe \<Rightarrow> ft_applyChunk (ae_serveEntries pid keys pe) en)"

text \<open>
  A pass: the local engine after it, and the peer's when it ends with a push that
  finds the peer in the state of the fourth request.
\<close>

definition ae_sync ::
  "nat \<Rightarrow> (nat \<Rightarrow> Engine option) \<Rightarrow> (nat \<Rightarrow> delivery) \<Rightarrow> (nat \<Rightarrow> Engine \<Rightarrow> Engine) \<Rightarrow> Engine \<Rightarrow> Engine
     \<Rightarrow> (Engine \<times> Engine) option" where
  "ae_sync pid peers net meanwhile en peer =
     (case ae_divergentBuckets pid (peers 0) en of
        None \<Rightarrow> Some (en, peer)
      | Some divergent \<Rightarrow>
          if length divergent = 0 then Some (en, peer)
          else
            (case ae_peerVersions pid divergent (peers 1) of
               None \<Rightarrow> Some (en, peer)
             | Some versions \<Rightarrow>
                 let plan = ae_plan pid divergent versions en;
                     en1 = (if length (sp_pull plan) > 0 then ae_pull pid (sp_pull plan) (peers 2) en else en)
                 in if length (sp_push plan) > 0
                    then (case ft_pushEntries net meanwhile pid (sp_push plan) peer of
                            None \<Rightarrow> None | Some (_, peer') \<Rightarrow> Some (en1, peer'))
                    else Some (en1, peer)))"

section \<open>One partition's versions\<close>

definition frag :: "nat \<Rightarrow> Engine \<Rightarrow> jsstr \<Rightarrow> Entry option" where
  "frag pid en k =
     (case js_get (sr_partitions (en_store en)) pid of None \<Rightarrow> None | Some p \<Rightarrow> pt_peek k p)"

abbreviation stamp :: "Entry option \<Rightarrow> HybridTime option" where
  "stamp \<equiv> map_option e_timestamp"

lemma frag_lookup: "en_partitionFor k en = pid \<Longrightarrow> frag pid en k = en_lookup en k"
  by (simp add: frag_def sr_lookup_def sr_peek_def en_partitionFor_def)

lemma frag_key: "sr_inv (en_store en) \<Longrightarrow> frag pid en k = Some e \<Longrightarrow> e_key e = k \<and> en_partitionFor k en = pid"
  using sr_inv_get [of "en_store en" pid]
  by (auto simp: frag_def en_partitionFor_def pt_inv_def pt_peek_def pt_keyed_get split: option.splits)

lemma entriesFor_iff:
  "e \<in> set (en_entriesFor pid keys en) \<longleftrightarrow> (\<exists>k \<in> set keys. frag pid en k = Some e)"
proof (cases "js_get (sr_partitions (en_store en)) pid")
  case (Some p)
  have "e \<in> set (List.map_filter f keys) \<longleftrightarrow> (\<exists>k \<in> set keys. f k = Some e)" for f :: "jsstr \<Rightarrow> Entry option"
    by (induction keys) (auto simp: List.map_filter_simps split: option.splits)
  then show ?thesis using Some by (simp add: en_entriesFor_def sr_entriesFor_def pt_entriesFor_def frag_def pt_peek_def)
qed (simp add: en_entriesFor_def sr_entriesFor_def frag_def)

lemma keyVersions_iff:
  assumes "sr_inv (en_store en)"
  shows "v \<in> set (en_keyVersions pid B en) \<longleftrightarrow>
    repairBucket (kv_key v) REPAIR_BUCKETS \<in> B \<and> stamp (frag pid en (kv_key v)) = Some (kv_timestamp v)"
proof (cases "js_get (sr_partitions (en_store en)) pid")
  case (Some p)
  have kd: "pt_keyed (pt_entries p)" using sr_inv_get [OF assms Some] by (simp add: pt_inv_def)
  have "(\<exists>e \<in> set (js_values (pt_entries p)). repairBucket (e_key e) REPAIR_BUCKETS \<in> B
        \<and> v = \<lparr>kv_key = e_key e, kv_timestamp = e_timestamp e\<rparr>) \<longleftrightarrow>
      (\<exists>e. js_get (pt_entries p) (kv_key v) = Some e \<and> repairBucket (kv_key v) REPAIR_BUCKETS \<in> B
        \<and> e_timestamp e = kv_timestamp v)" (is "?l \<longleftrightarrow> ?r")
  proof
    assume ?l
    then obtain e where e: "e \<in> set (js_values (pt_entries p))" "repairBucket (e_key e) REPAIR_BUCKETS \<in> B"
      "v = \<lparr>kv_key = e_key e, kv_timestamp = e_timestamp e\<rparr>"
      by blast
    then show ?r using pt_value_get [OF kd e(1)] by simp
  next
    assume ?r
    then obtain e where e: "js_get (pt_entries p) (kv_key v) = Some e" "repairBucket (kv_key v) REPAIR_BUCKETS \<in> B"
      "e_timestamp e = kv_timestamp v"
      by blast
    have "e_key e = kv_key v" "e \<in> set (js_values (pt_entries p))"
      using pt_keyed_get [OF kd e(1)] js_get_in_values [OF e(1)] by simp_all
    then show ?l using e by (intro bexI [of _ e]) simp_all
  qed
  then show ?thesis
    using Some by (auto simp: en_keyVersions_def sr_keyVersions_def pt_keyVersions_def frag_def pt_peek_def)
qed (simp add: en_keyVersions_def sr_keyVersions_def frag_def)

lemma keyVersions_distinct:
  assumes "sr_inv (en_store en)"
  shows "distinct (map kv_key (en_keyVersions pid B en))"
proof (cases "js_get (sr_partitions (en_store en)) pid")
  case (Some p)
  then have "pt_keyed (pt_entries p)" using sr_inv_get [OF assms Some] by (simp add: pt_inv_def)
  then have "distinct (map e_key (js_values (pt_entries p)))"
    using pt_values_keys by (simp add: pt_keyed_def js_ok_def del: map_map)
  then show ?thesis
    using Some by (simp add: en_keyVersions_def sr_keyVersions_def pt_keyVersions_def comp_def distinct_map_filter del: map_map)
      (simp add: comp_def distinct_map_filter)
qed (simp add: en_keyVersions_def sr_keyVersions_def)

lemma fold_versions:
  assumes "distinct (map kv_key vs)"
  shows "v \<in> set vs \<Longrightarrow> js_get (fold (\<lambda>v m. js_set (kv_key v) (kv_timestamp v) m) vs m) (kv_key v) = Some (kv_timestamp v)"
    and "k \<notin> kv_key ` set vs \<Longrightarrow> js_get (fold (\<lambda>v m. js_set (kv_key v) (kv_timestamp v) m) vs m) k = js_get m k"
proof -
  have other: "js_get (fold (\<lambda>v m. js_set (kv_key v) (kv_timestamp v) m) vs m) k = js_get m k"
    if "k \<notin> kv_key ` set vs" for k vs and m :: "(jsstr, HybridTime) jsmap"
    using that by (induction vs arbitrary: m) auto
  then show "k \<notin> kv_key ` set vs \<Longrightarrow> js_get (fold (\<lambda>v m. js_set (kv_key v) (kv_timestamp v) m) vs m) k = js_get m k" .
  show "v \<in> set vs \<Longrightarrow> js_get (fold (\<lambda>v m. js_set (kv_key v) (kv_timestamp v) m) vs m) (kv_key v) = Some (kv_timestamp v)"
    using assms by (induction vs arbitrary: m) (auto simp: other)
qed

lemma peerVersions_get:
  assumes "sr_inv (en_store pe)" "ae_peerVersions pid buckets (Some pe) = Some versions"
  shows "js_get versions k = (if repairBucket k REPAIR_BUCKETS \<in> set buckets then stamp (frag pid pe k) else None)"
proof -
  let ?vs = "en_keyVersions pid (set buckets) pe"
  have v: "versions = fold (\<lambda>v m. js_set (kv_key v) (kv_timestamp v) m) ?vs []"
    using assms(2) by (simp add: ae_peerVersions_def ae_serveKeyVersions_def)
  show ?thesis
  proof (cases "repairBucket k REPAIR_BUCKETS \<in> set buckets \<and> frag pid pe k \<noteq> None")
    case True
    then obtain t where t: "stamp (frag pid pe k) = Some t" by auto
    then have "\<lparr>kv_key = k, kv_timestamp = t\<rparr> \<in> set ?vs" using True by (simp add: keyVersions_iff [OF assms(1)])
    from fold_versions(1) [OF keyVersions_distinct [OF assms(1)] this, of "[]"] show ?thesis using True t v by auto
  next
    case False
    then have "k \<notin> kv_key ` set ?vs" using keyVersions_iff [OF assms(1)] by fastforce
    from fold_versions(2) [OF keyVersions_distinct [OF assms(1)] this, of "[]"] show ?thesis using False v by auto
  qed
qed

lemma set_add_key [simp]: "set (add_key k ks) = insert k (set ks)"
  by (auto simp: add_key_def)

lemma distinct_add_key [simp]: "distinct ks \<Longrightarrow> distinct (add_key k ks)"
  by (auto simp: add_key_def)

lemma plan_fold:
  assumes "fold (plan_step pv) vs (push, pull, seen) = (push', pull', seen')" "distinct push" "distinct pull"
  shows "set push' = set push \<union> kv_key ` {v \<in> set vs. js_get pv (kv_key v) = None \<or>
           (\<exists>t. js_get pv (kv_key v) = Some t \<and> t < kv_timestamp v)}
    \<and> set pull' = set pull \<union> kv_key ` {v \<in> set vs. \<exists>t. js_get pv (kv_key v) = Some t \<and> kv_timestamp v < t}
    \<and> set seen' = set seen \<union> kv_key ` set vs \<and> distinct push' \<and> distinct pull'"
  using assms
proof (induction vs arbitrary: push pull seen)
  case (Cons v vs)
  obtain a b c where step: "plan_step pv v (push, pull, seen) = (a, b, c)" by (cases "plan_step pv v (push, pull, seen)")
  have abc: "distinct a" "distinct b" "set c = insert (kv_key v) (set seen)"
    "set a = set push \<union> (if js_get pv (kv_key v) = None \<or> (\<exists>t. js_get pv (kv_key v) = Some t \<and> t < kv_timestamp v) then {kv_key v} else {})"
    "set b = set pull \<union> (if \<exists>t. js_get pv (kv_key v) = Some t \<and> kv_timestamp v < t then {kv_key v} else {})"
    using step Cons.prems(2,3)
    by (auto simp: plan_step_def Let_def compareHybrid_pos compareHybrid_neg split: option.splits if_splits)
  have "fold (plan_step pv) vs (a, b, c) = (push', pull', seen')" using Cons.prems(1) step by simp
  from Cons.IH [OF this abc(1,2)] show ?case using abc(3-5) by auto
qed simp

lemma pull_fold:
  "distinct pull \<Longrightarrow> set (fold (\<lambda>key pull. if key \<in> seen then pull else add_key key pull) keys pull) = set pull \<union> (set keys - seen)
     \<and> distinct (fold (\<lambda>key pull. if key \<in> seen then pull else add_key key pull) keys pull)"
  by (induction keys arbitrary: pull) auto

lemma entriesFor_keys:
  assumes "sr_inv (en_store en)"
  shows "map e_key (en_entriesFor pid keys en) = filter (\<lambda>k. frag pid en k \<noteq> None) keys"
proof (cases "js_get (sr_partitions (en_store en)) pid")
  case (Some p)
  have "map e_key (List.map_filter f keys) = filter (\<lambda>k. f k \<noteq> None) keys"
    if "\<And>k e. f k = Some e \<Longrightarrow> e_key e = k" for f
    using that by (induction keys) (auto simp: List.map_filter_simps split: option.splits)
  moreover have "e_key e = k" if "frag pid en k = Some e" for k e using frag_key [OF assms that] by simp
  ultimately have "map e_key (List.map_filter (frag pid en) keys) = filter (\<lambda>k. frag pid en k \<noteq> None) keys" by blast
  moreover have "en_entriesFor pid keys en = List.map_filter (frag pid en) keys"
    using Some by (simp add: en_entriesFor_def sr_entriesFor_def pt_entriesFor_def frag_def [abs_def] pt_peek_def)
  ultimately show ?thesis by simp
qed (simp add: en_entriesFor_def sr_entriesFor_def frag_def)

lemma keys_iff: "k \<in> set (js_keys m) \<longleftrightarrow> js_get m k \<noteq> None"
  by (simp add: map_of_eq_None_iff)

text \<open>What a plan for honest answers moves, key by key.\<close>

lemma plan_keys:
  assumes inv: "sr_inv (en_store en)" "sr_inv (en_store pe)"
    and v: "ae_peerVersions pid buckets (Some pe) = Some versions"
  defines "plan \<equiv> ae_plan pid buckets versions en"
  shows "k \<in> set (sp_pull plan) \<longleftrightarrow> repairBucket k REPAIR_BUCKETS \<in> set buckets \<and>
      (\<exists>e. frag pid pe k = Some e \<and> (\<forall>d. frag pid en k = Some d \<longrightarrow> e_timestamp d < e_timestamp e))"
    and "e \<in> set (sp_push plan) \<longleftrightarrow> repairBucket (e_key e) REPAIR_BUCKETS \<in> set buckets \<and> frag pid en (e_key e) = Some e
      \<and> (\<forall>d. frag pid pe (e_key e) = Some d \<longrightarrow> e_timestamp d < e_timestamp e)"
    and "distinct (map e_key (sp_push plan))" and "distinct (sp_pull plan)"
proof -
  let ?V = "en_keyVersions pid (set buckets) en"
  obtain push pull seen where f: "fold (plan_step versions) ?V ([], [], []) = (push, pull, seen)"
    by (cases "fold (plan_step versions) ?V ([], [], [])")
  let ?pull = "fold (\<lambda>key pull. if key \<in> set seen then pull else add_key key pull) (js_keys versions) pull"
  have plan: "sp_pull plan = ?pull" "sp_push plan = en_entriesFor pid push en"
    using f by (simp_all add: plan_def ae_plan_def)
  have img: "k \<in> kv_key ` {v \<in> set ?V. P v} \<longleftrightarrow> repairBucket k REPAIR_BUCKETS \<in> set buckets
      \<and> (\<exists>d. frag pid en k = Some d \<and> P \<lparr>kv_key = k, kv_timestamp = e_timestamp d\<rparr>)" for k P
  proof -
    have "k \<in> kv_key ` {v \<in> set ?V. P v} \<longleftrightarrow> (\<exists>t. \<lparr>kv_key = k, kv_timestamp = t\<rparr> \<in> set ?V \<and> P \<lparr>kv_key = k, kv_timestamp = t\<rparr>)"
      by (auto simp: image_iff) (metis (full_types) KeyVersion.surjective old.unit.exhaust)
    then show ?thesis by (auto simp: keyVersions_iff [OF inv(1)])
  qed
  note get = peerVersions_get [OF inv(2) v]
  note sets = plan_fold [OF f, simplified]
  have seen: "k \<in> set seen \<longleftrightarrow> repairBucket k REPAIR_BUCKETS \<in> set buckets \<and> frag pid en k \<noteq> None" for k
    using sets img [of k "\<lambda>_. True"] by auto
  have push: "k \<in> set push \<longleftrightarrow> repairBucket k REPAIR_BUCKETS \<in> set buckets
      \<and> (\<exists>d. frag pid en k = Some d \<and> (\<forall>e. frag pid pe k = Some e \<longrightarrow> e_timestamp e < e_timestamp d))" for k
    using sets img [of k "\<lambda>v. js_get versions (kv_key v) = None \<or> (\<exists>t. js_get versions (kv_key v) = Some t \<and> t < kv_timestamp v)"]
    by (auto simp: get)
  have pull: "k \<in> set pull \<longleftrightarrow> repairBucket k REPAIR_BUCKETS \<in> set buckets
      \<and> (\<exists>d e. frag pid en k = Some d \<and> frag pid pe k = Some e \<and> e_timestamp d < e_timestamp e)" for k
    using sets img [of k "\<lambda>v. \<exists>t. js_get versions (kv_key v) = Some t \<and> kv_timestamp v < t"] by (auto simp: get)
  have "distinct pull" using sets by simp
  then have "set ?pull = set pull \<union> (set (js_keys versions) - set seen)" and "distinct ?pull"
    by (rule conjunct1 [OF pull_fold], rule conjunct2 [OF pull_fold])
  then show "distinct (sp_pull plan)" unfolding plan by simp
  have "set ?pull = set pull \<union> (set (js_keys versions) - set seen)" by fact
  moreover have "k \<in> set (js_keys versions) \<longleftrightarrow> repairBucket k REPAIR_BUCKETS \<in> set buckets \<and> frag pid pe k \<noteq> None"
    unfolding keys_iff by (simp add: get)
  ultimately show "k \<in> set (sp_pull plan) \<longleftrightarrow> repairBucket k REPAIR_BUCKETS \<in> set buckets \<and>
      (\<exists>e. frag pid pe k = Some e \<and> (\<forall>d. frag pid en k = Some d \<longrightarrow> e_timestamp d < e_timestamp e))"
    unfolding plan by (auto simp: pull seen)
  have ek: "frag pid en k = Some e \<Longrightarrow> k = e_key e" for k using frag_key [OF inv(1)] by auto
  show "e \<in> set (sp_push plan) \<longleftrightarrow> repairBucket (e_key e) REPAIR_BUCKETS \<in> set buckets \<and> frag pid en (e_key e) = Some e
      \<and> (\<forall>d. frag pid pe (e_key e) = Some d \<longrightarrow> e_timestamp d < e_timestamp e)"
  proof -
    have "(\<exists>k \<in> set push. frag pid en k = Some e) \<longleftrightarrow> e_key e \<in> set push \<and> frag pid en (e_key e) = Some e"
      using ek by blast
    then show ?thesis unfolding plan entriesFor_iff push by auto
  qed
  show "distinct (map e_key (sp_push plan))"
    unfolding plan entriesFor_keys [OF inv(1)] using sets by simp
qed

section \<open>Convergence\<close>

lemma digestsEqual_iff [simp]: "digestsEqual a b \<longleftrightarrow> a = b"
  by (cases a; cases b) (auto simp: digestsEqual_def)

text \<open>The digests tell two replicas apart: equal digests mean equal versions.\<close>

definition digests_tell :: "nat \<Rightarrow> Engine \<Rightarrow> Engine \<Rightarrow> bool" where
  "digests_tell pid en pe \<longleftrightarrow>
     (en_partitionDigest pid en = en_partitionDigest pid pe \<longrightarrow> (\<forall>k. stamp (frag pid en k) = stamp (frag pid pe k)))
     \<and> (\<forall>b < REPAIR_BUCKETS. en_bucketDigests pid en ! b = en_bucketDigests pid pe ! b \<longrightarrow>
          (\<forall>k. repairBucket k REPAIR_BUCKETS = b \<longrightarrow> stamp (frag pid en k) = stamp (frag pid pe k)))"

lemma length_en_bucketDigests: "length (en_bucketDigests pid en) = REPAIR_BUCKETS"
  by (simp add: en_bucketDigests_def sr_bucketDigests_def split: option.splits)

lemma divergent_sound:
  assumes "digests_tell pid en pe"
  obtains D where "ae_divergentBuckets pid (Some pe) en = Some D"
    "\<And>k. repairBucket k REPAIR_BUCKETS \<notin> set D \<Longrightarrow> stamp (frag pid en k) = stamp (frag pid pe k)"
proof (cases "en_partitionDigest pid pe = en_partitionDigest pid en")
  case True
  then have "ae_divergentBuckets pid (Some pe) en = Some []" by (simp add: ae_divergentBuckets_def ae_serveDigest_def)
  then show thesis using that True assms by (auto simp: digests_tell_def)
next
  case False
  let ?D = "filter (\<lambda>b. en_bucketDigests pid en ! b \<noteq> en_bucketDigests pid pe ! b) [0..<REPAIR_BUCKETS]"
  have "ae_divergentBuckets pid (Some pe) en = Some ?D"
    using False by (simp add: ae_divergentBuckets_def ae_serveDigest_def length_en_bucketDigests REPAIR_BUCKETS_def)
  moreover have "stamp (frag pid en k) = stamp (frag pid pe k)" if "repairBucket k REPAIR_BUCKETS \<notin> set ?D" for k
  proof -
    have "repairBucket k REPAIR_BUCKETS < REPAIR_BUCKETS" by (simp add: repairBucket_def REPAIR_BUCKETS_def)
    then show ?thesis using that assms by (auto simp: digests_tell_def)
  qed
  ultimately show thesis using that by blast
qed

text \<open>The two lookups after pulling and pushing what the plan says.\<close>

lemma merges_at:
  assumes "sr_inv (en_store en)" "distinct (map e_key es)"
  shows "e \<in> set es \<Longrightarrow> en_lookup (fold en_merge es en) (e_key e) = lww_put e (en_lookup en) (e_key e)"
    and "k \<notin> e_key ` set es \<Longrightarrow> en_lookup (fold en_merge es en) k = en_lookup en k"
  by (simp_all add: merges_lookup [OF assms(1)] lww_fold_at [OF assms(2)] lww_fold_other)

lemma plan_converges:
  assumes inv: "sr_inv (en_store en)" "sr_inv (en_store pe)" and v: "ae_peerVersions pid D (Some pe) = Some versions"
    and same: "en_partitionFor k pe = pid" "en_partitionFor k en = pid"
    and out: "repairBucket k REPAIR_BUCKETS \<notin> set D \<Longrightarrow> stamp (frag pid en k) = stamp (frag pid pe k)"
  defines "plan \<equiv> ae_plan pid D versions en"
  shows "stamp (en_lookup (fold en_merge (en_entriesFor pid (sp_pull plan) pe) en) k)
       = stamp (en_lookup (fold en_merge (js_sort compareByKey (sp_push plan)) pe) k)" (is "stamp ?l = stamp ?r")
proof -
  let ?in = "repairBucket k REPAIR_BUCKETS \<in> set D"
  note keys = plan_keys [OF inv v, folded plan_def]
  have lk: "frag pid en k = en_lookup en k" "frag pid pe k = en_lookup pe k" using same by (simp_all add: frag_lookup)
  have dl: "distinct (map e_key (en_entriesFor pid (sp_pull plan) pe))"
    unfolding entriesFor_keys [OF inv(2)] using keys(4) by simp
  have sp: "set (js_sort compareByKey (sp_push plan)) = set (sp_push plan)" by (rule sort_set [OF keys(3)])
  have dr: "distinct (map e_key (js_sort compareByKey (sp_push plan)))"
    using keys(3) by (simp add: js_sort_distinct_key [OF compareByKey_sign] distinct_map)
  have fk: "e_key e = k" if "frag pid pe k = Some e" for k e using frag_key [OF inv(2) that] by simp
  have fk': "e_key e = k" if "frag pid en k = Some e" for k e using frag_key [OF inv(1) that] by simp
  have l: "?l = (case en_lookup pe k of
      Some e \<Rightarrow> if ?in \<and> (\<forall>d. en_lookup en k = Some d \<longrightarrow> e_timestamp d < e_timestamp e) then Some e else en_lookup en k
    | None \<Rightarrow> en_lookup en k)"
  proof (cases "k \<in> set (sp_pull plan)")
    case True
    then obtain e where e: "frag pid pe k = Some e" "\<forall>d. frag pid en k = Some d \<longrightarrow> e_timestamp d < e_timestamp e" "?in"
      using keys(1) by blast
    then have "e \<in> set (en_entriesFor pid (sp_pull plan) pe)" using True entriesFor_iff by blast
    from merges_at(1) [OF inv(1) dl this] show ?thesis
      using e fk [OF e(1)] lk by (auto simp: lww_put_def split: option.splits)
  next
    case False
    then have "k \<notin> e_key ` set (en_entriesFor pid (sp_pull plan) pe)" using fk by (auto simp: entriesFor_iff)
    from merges_at(2) [OF inv(1) dl this] show ?thesis using False keys(1) [of k] lk by (auto split: option.splits)
  qed
  have r: "?r = (case en_lookup en k of
      Some d \<Rightarrow> if ?in \<and> (\<forall>e. en_lookup pe k = Some e \<longrightarrow> e_timestamp e < e_timestamp d) then Some d else en_lookup pe k
    | None \<Rightarrow> en_lookup pe k)"
  proof (cases "k \<in> e_key ` set (sp_push plan)")
    case True
    then obtain d where d: "d \<in> set (sp_push plan)" "e_key d = k" by auto
    then have d': "frag pid en k = Some d" "\<forall>e. frag pid pe k = Some e \<longrightarrow> e_timestamp e < e_timestamp d" "?in"
      using keys(2) [of d] by auto
    from merges_at(1) [OF inv(2) dr, of d] show ?thesis
      using d d' lk sp by (auto simp: lww_put_def split: option.splits)
  next
    case False
    then have "\<not> (?in \<and> (\<forall>e. en_lookup pe k = Some e \<longrightarrow> e_timestamp e < e_timestamp d))" if "en_lookup en k = Some d" for d
      using keys(2) [of d] fk' [of k d] that lk by auto
    moreover have "?r = en_lookup pe k" using merges_at(2) [OF inv(2) dr, of k] False sp by simp
    ultimately show ?thesis by (auto split: option.splits)
  qed
  show ?thesis unfolding l r using out lk by (auto split: option.splits simp: not_less order.order_iff_strict)
qed

text \<open>A pass loses nothing on either side, wherever it is cut short.\<close>

lemma pull_gains:
  assumes "sr_inv (en_store en)"
  shows "gains en (ae_pull pid keys peer en)"
  using assms applyChunk_gains gains_refl by (auto simp: ae_pull_def split: option.splits)

section \<open>Properties\<close>


lemma sample_contribution: "lo (entryContribution sample_entry) \<noteq> 0"
  by code_simp


end
