(* ===== verification/MoveScheduler.thy ===== *)
theory MoveScheduler
  imports Prelude "HOL-Library.Multiset"
begin

text \<open>
  The scheduler of fragment moves, \<open>src/kv/move.scheduler.ts\<close>: at most a fixed
  number of moves run at once, and a free slot goes to the most urgent move that
  waits.  A move body is asynchronous, so a state also holds which moves are
  running, in the order they started; the body of a move is its identity.  The
  theory shows the cap, that no slot idles while a move waits, that every
  submitted move is queued, running or settled exactly once, and that the move
  started is the earliest of the most urgent ones.
\<close>

section \<open>State and operations\<close>

datatype MovePriority = restoreReplication | drain | rebalance

fun priority_value :: "MovePriority \<Rightarrow> nat" where
  "priority_value restoreReplication = 0"
| "priority_value drain = 1"
| "priority_value rebalance = 2"

definition MAX_CONCURRENT_MOVES :: int where "MAX_CONCURRENT_MOVES = 4"

record 'm QueuedMove =
  qm_priority :: nat
  qm_run :: 'm

record 'm MoveScheduler =
  ms_maxConcurrent :: nat
  ms_queue :: "'m QueuedMove list"
  ms_running :: nat
  ms_active :: "'m list"

definition ms_new :: "int \<Rightarrow> RangeError + 'm MoveScheduler" where
  "ms_new maxConcurrent =
     (if \<not> isSafeInteger maxConcurrent \<or> maxConcurrent \<le> 0 then Inl RangeError
      else Inr \<lparr>ms_maxConcurrent = nat maxConcurrent, ms_queue = [], ms_running = 0, ms_active = []\<rparr>)"

definition best_step :: "'m QueuedMove list \<Rightarrow> nat \<Rightarrow> nat \<Rightarrow> nat" where
  "best_step queue index best = (if qm_priority (queue ! index) < qm_priority (queue ! best) then index else best)"

definition best_index :: "'m QueuedMove list \<Rightarrow> nat" where
  "best_index queue = fold (best_step queue) [1..<length queue] 0"

definition ms_dequeue :: "'m MoveScheduler \<Rightarrow> 'm QueuedMove \<times> 'm MoveScheduler" where
  "ms_dequeue s =
     (let best = best_index (ms_queue s)
      in (ms_queue s ! best, s\<lparr>ms_queue := take best (ms_queue s) @ drop (best + 1) (ms_queue s)\<rparr>))"

lemma best_bound: "n \<le> length queue \<Longrightarrow> queue \<noteq> [] \<Longrightarrow> fold (best_step queue) [1..<n] 0 < length queue"
  by (induction n) (auto simp: best_step_def not_le le_Suc_eq)

lemma best_index_less: "queue \<noteq> [] \<Longrightarrow> best_index queue < length queue"
  unfolding best_index_def by (rule best_bound) simp_all

function ms_pump :: "'m MoveScheduler \<Rightarrow> 'm MoveScheduler" where
  "ms_pump s =
     (if ms_running s < ms_maxConcurrent s \<and> length (ms_queue s) > 0
      then let (move, s1) = ms_dequeue s
           in ms_pump (s1\<lparr>ms_running := ms_running s1 + 1, ms_active := ms_active s1 @ [qm_run move]\<rparr>)
      else s)"
  by pat_completeness auto
termination
  by (relation "measure (\<lambda>s. length (ms_queue s))") (auto simp: ms_dequeue_def Let_def dest!: best_index_less)

declare ms_pump.simps [simp del]

definition ms_submit :: "MovePriority \<Rightarrow> 'm \<Rightarrow> 'm MoveScheduler \<Rightarrow> 'm MoveScheduler" where
  "ms_submit priority run s =
     ms_pump (s\<lparr>ms_queue := ms_queue s @ [\<lparr>qm_priority = priority_value priority, qm_run = run\<rparr>]\<rparr>)"

text \<open>\<open>settle\<close> for a running move: its promise is settled, so it is no longer active.\<close>

definition ms_settle :: "'m \<Rightarrow> 'm MoveScheduler \<Rightarrow> 'm MoveScheduler" where
  "ms_settle run s = ms_pump (s\<lparr>ms_running := ms_running s - 1, ms_active := remove1 run (ms_active s)\<rparr>)"

section \<open>The choice\<close>

lemma best_prefix:
  assumes "0 < n" "n \<le> length queue"
  shows "fold (best_step queue) [1..<n] 0 < n
    \<and> (\<forall>i < n. qm_priority (queue ! fold (best_step queue) [1..<n] 0) \<le> qm_priority (queue ! i))
    \<and> (\<forall>i < fold (best_step queue) [1..<n] 0. qm_priority (queue ! fold (best_step queue) [1..<n] 0) < qm_priority (queue ! i))"
  using assms
proof (induction n)
  case (Suc n)
  show ?case
  proof (cases "n = 0")
    case False
    let ?b = "fold (best_step queue) [1..<n] 0"
    have IH: "?b < n" "\<forall>i<n. qm_priority (queue ! ?b) \<le> qm_priority (queue ! i)"
      "\<forall>i<?b. qm_priority (queue ! ?b) < qm_priority (queue ! i)"
      using Suc False by auto
    have step: "fold (best_step queue) [1..<Suc n] 0 = best_step queue n ?b" using False by simp
    show ?thesis unfolding step using IH by (auto simp: best_step_def less_Suc_eq not_less intro: less_le_trans order.trans)
  qed simp
qed simp

lemma best_index_earliest:
  assumes "queue \<noteq> []"
  shows "(\<forall>i < length queue. qm_priority (queue ! best_index queue) \<le> qm_priority (queue ! i))
    \<and> (\<forall>i < best_index queue. qm_priority (queue ! best_index queue) < qm_priority (queue ! i))"
  using best_prefix [of "length queue" queue] assms by (simp add: best_index_def)

section \<open>Runs\<close>

inductive ms_reach :: "int \<Rightarrow> 'm MoveScheduler \<Rightarrow> 'm multiset \<Rightarrow> 'm multiset \<Rightarrow> bool" for n where
  start: "ms_new n = Inr s \<Longrightarrow> ms_reach n s {#} {#}"
| submit: "ms_reach n s submitted settled \<Longrightarrow> ms_reach n (ms_submit p m s) (add_mset m submitted) settled"
| settle: "ms_reach n s submitted settled \<Longrightarrow> m \<in> set (ms_active s) \<Longrightarrow>
     ms_reach n (ms_settle m s) submitted (add_mset m settled)"

definition ms_moves :: "'m MoveScheduler \<Rightarrow> 'm multiset" where
  "ms_moves s = mset (map qm_run (ms_queue s)) + mset (ms_active s)"

lemma mset_remove_nth: "i < length xs \<Longrightarrow> add_mset (xs ! i) (mset (take i xs @ drop (Suc i) xs)) = mset xs"
  by (metis id_take_nth_drop mset.simps(2) mset_append union_mset_add_mset_right)

lemma ms_pump_result:
  "length (ms_active s) = ms_running s \<Longrightarrow> ms_running s \<le> ms_maxConcurrent s \<Longrightarrow>
   ms_maxConcurrent (ms_pump s) = ms_maxConcurrent s \<and> length (ms_active (ms_pump s)) = ms_running (ms_pump s)
     \<and> ms_running (ms_pump s) \<le> ms_maxConcurrent s
     \<and> (ms_queue (ms_pump s) = [] \<or> ms_running (ms_pump s) = ms_maxConcurrent s)
     \<and> ms_moves (ms_pump s) = ms_moves s"
proof (induction s rule: ms_pump.induct)
  case (1 s)
  show ?case
  proof (cases "ms_running s < ms_maxConcurrent s \<and> length (ms_queue s) > 0")
    case True
    let ?b = "best_index (ms_queue s)"
    let ?s = "s\<lparr>ms_queue := take ?b (ms_queue s) @ drop (Suc ?b) (ms_queue s), ms_running := ms_running s + 1,
      ms_active := ms_active s @ [qm_run (ms_queue s ! ?b)]\<rparr>"
    have pump: "ms_pump s = ms_pump ?s" using True by (subst ms_pump.simps) (simp add: ms_dequeue_def Let_def)
    have "add_mset (ms_queue s ! ?b) (mset (take ?b (ms_queue s) @ drop (Suc ?b) (ms_queue s))) = mset (ms_queue s)"
      using True by (intro mset_remove_nth best_index_less) simp
    then have "mset (map qm_run (ms_queue s)) = image_mset qm_run (add_mset (ms_queue s ! ?b) (mset (take ?b (ms_queue s) @ drop (Suc ?b) (ms_queue s))))"
      by simp
    then have "ms_moves ?s = ms_moves s" by (simp add: ms_moves_def)
    moreover have "ms_maxConcurrent (ms_pump ?s) = ms_maxConcurrent ?s \<and> length (ms_active (ms_pump ?s)) = ms_running (ms_pump ?s)
     \<and> ms_running (ms_pump ?s) \<le> ms_maxConcurrent ?s
     \<and> (ms_queue (ms_pump ?s) = [] \<or> ms_running (ms_pump ?s) = ms_maxConcurrent ?s)
     \<and> ms_moves (ms_pump ?s) = ms_moves ?s"
      using "1.IH" [OF True, of "(ms_queue s ! ?b, s\<lparr>ms_queue := take ?b (ms_queue s) @ drop (Suc ?b) (ms_queue s)\<rparr>)"] True "1.prems"
      by (simp add: ms_dequeue_def Let_def)
    ultimately show ?thesis unfolding pump by simp
  next
    case False
    then have "ms_pump s = s" by (subst ms_pump.simps) (simp only: if_False)
    then show ?thesis using False "1.prems" by auto
  qed
qed

lemma ms_reach_inv:
  "ms_reach n s submitted settled \<Longrightarrow> length (ms_active s) = ms_running s \<and> ms_running s \<le> ms_maxConcurrent s
     \<and> ms_maxConcurrent s = nat n \<and> 0 < n \<and> (ms_queue s = [] \<or> ms_running s = ms_maxConcurrent s)
     \<and> ms_moves s + settled = submitted"
proof (induction rule: ms_reach.induct)
  case (start s)
  then show ?case by (auto simp: ms_new_def ms_moves_def split: if_splits)
next
  case (submit s submitted settled p m)
  let ?s = "s\<lparr>ms_queue := ms_queue s @ [\<lparr>qm_priority = priority_value p, qm_run = m\<rparr>]\<rparr>"
  have "ms_moves ?s = add_mset m (ms_moves s)" by (simp add: ms_moves_def)
  then show ?case using submit.IH ms_pump_result [of ?s] by (auto simp: ms_submit_def)
next
  case (settle s submitted settled m)
  let ?s = "s\<lparr>ms_running := ms_running s - 1, ms_active := remove1 m (ms_active s)\<rparr>"
  have len: "length (remove1 m (ms_active s)) = ms_running s - 1" "ms_running s - 1 \<le> ms_maxConcurrent s"
    using settle by (auto simp: length_remove1)
  have "add_mset m (ms_moves ?s) = ms_moves s" using settle(2) by (simp add: ms_moves_def)
  then show ?case using settle.IH ms_pump_result [of ?s] len by (auto simp: ms_settle_def)
qed

section \<open>Properties\<close>

text \<open>
  In every state that submissions and settlements produce, at most the cap of
  moves run, no slot is idle while a move waits, and every submitted move is
  exactly once among those waiting, running or settled.
\<close>

lemma moves_capped_and_conserved:
  assumes "ms_reach n s submitted settled"
  shows "length (ms_active s) \<le> nat n
    \<and> (ms_queue s = [] \<or> length (ms_active s) = nat n)
    \<and> mset (map qm_run (ms_queue s)) + mset (ms_active s) + settled = submitted"
  using ms_reach_inv [OF assms] by (auto simp: ms_moves_def)

text \<open>
  A freed slot goes to the most urgent move, the earliest submitted of those:
  when a move settles while others wait, exactly one starts, it has the least
  priority value in the queue, every move before it in the queue is less urgent,
  and the others keep their order.
\<close>

lemma settle_starts_most_urgent:
  assumes "ms_reach n s submitted settled" and "m \<in> set (ms_active s)" and "ms_queue s \<noteq> []"
  shows "\<exists>before move after. ms_queue s = before @ move # after
    \<and> ms_queue (ms_settle m s) = before @ after
    \<and> ms_active (ms_settle m s) = remove1 m (ms_active s) @ [qm_run move]
    \<and> (\<forall>w \<in> set before. qm_priority move < qm_priority w) \<and> (\<forall>w \<in> set after. qm_priority move \<le> qm_priority w)"
proof -
  let ?q = "ms_queue s" and ?b = "best_index (ms_queue s)"
  let ?s = "s\<lparr>ms_running := ms_running s - 1, ms_active := remove1 m (ms_active s)\<rparr>"
  let ?s2 = "?s\<lparr>ms_queue := take ?b ?q @ drop (Suc ?b) ?q, ms_running := ms_running s,
    ms_active := remove1 m (ms_active s) @ [qm_run (?q ! ?b)]\<rparr>"
  have full: "ms_running s = ms_maxConcurrent s" "0 < ms_running s"
    using ms_reach_inv [OF assms(1)] assms(2,3) by (auto simp: length_pos_if_in_set)
  have "ms_pump ?s = ms_pump ?s2"
    using full assms(3) by (subst ms_pump.simps) (simp add: ms_dequeue_def Let_def)
  also have "\<dots> = ?s2" using full by (subst ms_pump.simps) simp
  finally have settle: "ms_settle m s = ?s2" by (simp add: ms_settle_def)
  have b: "?b < length ?q" using best_index_less [OF assms(3)] .
  have "qm_priority (?q ! ?b) < qm_priority w" if "w \<in> set (take ?b ?q)" for w
    using best_index_earliest [OF assms(3)] b that by (auto simp: in_set_conv_nth)
  moreover have "qm_priority (?q ! ?b) \<le> qm_priority w" if "w \<in> set (drop (Suc ?b) ?q)" for w
  proof -
    have "w \<in> set ?q" using that in_set_dropD by fast
    then show ?thesis using best_index_earliest [OF assms(3)] by (auto simp: in_set_conv_nth)
  qed
  ultimately show ?thesis
    using settle id_take_nth_drop [OF b] by (intro exI [of _ "take ?b ?q"] exI [of _ "?q ! ?b"] exI [of _ "drop (Suc ?b) ?q"]) simp
qed

end
