(* ===== verification/Mailbox.thy ===== *)
theory Mailbox
  imports Prelude
begin

text \<open>
  The mailbox interface of \<open>src/mailbox.ts\<close>: the operations every mailbox
  implements as a record of functions over the mailbox's state, sequences of
  calls and their results, the contract the interface's comments promise as the
  locale \<open>mailbox\<close>, its FIFO strengthening \<open>fifo_mailbox\<close>, and the simulation
  locale \<open>mailbox_refinement\<close> that compares a mailbox with a reference queue
  call by call.
\<close>

section \<open>The interface\<close>

datatype MailboxError = ErrMailboxDisposed | ErrMailboxFull

text \<open>
  \<open>enqueue\<close> answers \<^term>\<open>None\<close> for the source's \<open>null\<close> (accepted) and
  \<^term>\<open>Some e\<close> for a returned error; \<open>dequeue\<close> answers \<^term>\<open>None\<close> for
  \<open>undefined\<close>.
\<close>

record ('m, 'q) Mailbox =
  mb_enqueue :: "'m \<Rightarrow> 'q \<Rightarrow> MailboxError option \<times> 'q"
  mb_dequeue :: "'q \<Rightarrow> 'm option \<times> 'q"
  mb_isEmpty :: "'q \<Rightarrow> bool"
  mb_len :: "'q \<Rightarrow> nat"
  mb_dispose :: "'q \<Rightarrow> 'q"

section \<open>Sequences of calls\<close>

datatype 'm call = Enqueue 'm | Dequeue | IsEmpty | Len | Dispose

datatype 'm answer =
    Enqueued "MailboxError option" | Dequeued "'m option" | Emptiness bool | Length nat | Disposed

fun mb_call :: "('m, 'q) Mailbox \<Rightarrow> 'm call \<Rightarrow> 'q \<Rightarrow> 'm answer \<times> 'q" where
  "mb_call I (Enqueue m) q = (let (e, q') = mb_enqueue I m q in (Enqueued e, q'))"
| "mb_call I Dequeue q = (let (r, q') = mb_dequeue I q in (Dequeued r, q'))"
| "mb_call I IsEmpty q = (Emptiness (mb_isEmpty I q), q)"
| "mb_call I Len q = (Length (mb_len I q), q)"
| "mb_call I Dispose q = (Disposed, mb_dispose I q)"

fun mb_run :: "('m, 'q) Mailbox \<Rightarrow> 'm call list \<Rightarrow> 'q \<Rightarrow> 'm answer list \<times> 'q" where
  "mb_run I [] q = ([], q)"
| "mb_run I (c # cs) q =
     (let (a, q') = mb_call I c q; (as, q'') = mb_run I cs q' in (a # as, q''))"

text \<open>The messages a sequence of calls put into the mailbox, and those it got out.\<close>

fun accepted :: "'m call list \<Rightarrow> 'm answer list \<Rightarrow> 'm list" where
  "accepted (Enqueue m # cs) (Enqueued None # as) = m # accepted cs as"
| "accepted (c # cs) (a # as) = accepted cs as"
| "accepted _ _ = []"

fun delivered :: "'m answer list \<Rightarrow> 'm list" where
  "delivered (Dequeued (Some m) # as) = m # delivered as"
| "delivered (a # as) = delivered as"
| "delivered [] = []"

lemma accepted_Cons: "accepted (c # cs) (a # as) = accepted [c] [a] @ accepted cs as"
  by (induction "c # cs" "a # as" rule: accepted.induct) auto

lemma delivered_Cons: "delivered (a # as) = delivered [a] @ delivered as"
  by (induction "a # as" rule: delivered.induct) auto

section \<open>The contract\<close>

locale mailbox =
  fixes I :: "('m, 'q) Mailbox"
    and inv :: "'q \<Rightarrow> bool"
    and closed :: "'q \<Rightarrow> bool"
    and pending :: "'q \<Rightarrow> 'm multiset"
  assumes enqueue_ok:
      "inv q \<Longrightarrow> mb_enqueue I m q = (None, q') \<Longrightarrow>
         inv q' \<and> \<not> closed q \<and> \<not> closed q' \<and> pending q' = add_mset m (pending q)"
    and enqueue_error:
      "inv q \<Longrightarrow> mb_enqueue I m q = (Some e, q') \<Longrightarrow>
         inv q' \<and> closed q' = closed q \<and> pending q' = pending q"
    and enqueue_closed: "inv q \<Longrightarrow> closed q \<Longrightarrow> fst (mb_enqueue I m q) = Some ErrMailboxDisposed"
    and dequeue_some:
      "inv q \<Longrightarrow> mb_dequeue I q = (Some m, q') \<Longrightarrow>
         inv q' \<and> closed q' = closed q \<and> pending q = add_mset m (pending q')"
    and dequeue_none:
      "inv q \<Longrightarrow> mb_dequeue I q = (None, q') \<Longrightarrow>
         inv q' \<and> closed q' = closed q \<and> pending q = {#} \<and> pending q' = {#}"
    and isEmpty_len: "inv q \<Longrightarrow> mb_isEmpty I q = (mb_len I q = 0)"
    and len_pending: "inv q \<Longrightarrow> mb_len I q = size (pending q)"
    and dispose_closed: "inv q \<Longrightarrow> inv (mb_dispose I q) \<and> closed (mb_dispose I q)"
    and closed_empty: "inv q \<Longrightarrow> closed q \<Longrightarrow> pending q = {#}"
begin

text \<open>One call, by the operation called and its answer.\<close>

lemma call_cases:
  assumes "inv q" "mb_call I c q = (a, q')"
  obtains (accept) m where "c = Enqueue m" "a = Enqueued None" "mb_enqueue I m q = (None, q')"
  | (refuse) m e where "c = Enqueue m" "a = Enqueued (Some e)" "mb_enqueue I m q = (Some e, q')"
  | (deliver) m where "c = Dequeue" "a = Dequeued (Some m)" "mb_dequeue I q = (Some m, q')"
  | (drained) "c = Dequeue" "a = Dequeued None" "mb_dequeue I q = (None, q')"
  | (query) "c = IsEmpty \<or> c = Len" "q' = q" "accepted [c] [a] = []" "delivered [a] = []"
  | (dispose) "c = Dispose" "a = Disposed" "q' = mb_dispose I q"
proof (cases c)
  case (Enqueue m)
  then show thesis using assms accept refuse
    by (cases "mb_enqueue I m q"; cases "fst (mb_enqueue I m q)") auto
next
  case Dequeue
  then show thesis using assms deliver drained
    by (cases "mb_dequeue I q"; cases "fst (mb_dequeue I q)") auto
qed (use assms query dispose in auto)

lemma call_inv:
  assumes q: "inv q" and c: "mb_call I c q = (a, q')"
  shows "inv q'"
  using q c
  by (cases rule: call_cases)
    (use q enqueue_ok enqueue_error dequeue_some dequeue_none dispose_closed in blast)+

lemma run_inv: "inv q \<Longrightarrow> mb_run I cs q = (as, q') \<Longrightarrow> inv q'"
proof (induction cs arbitrary: q as)
  case (Cons c cs)
  then show ?case by (fastforce split: prod.splits dest: call_inv)
qed simp

lemma call_conserves:
  assumes "inv q" "mb_call I c q = (a, q')" "c \<noteq> Dispose"
  shows "mset (accepted [c] [a]) + pending q = mset (delivered [a]) + pending q'"
  using assms(1,2)
proof (cases rule: call_cases)
  case (accept m)
  then show ?thesis using enqueue_ok [OF assms(1)] by simp
next
  case (refuse m e)
  then show ?thesis using enqueue_error [OF assms(1)] by simp
next
  case (deliver m)
  then show ?thesis using dequeue_some [OF assms(1)] by simp
next
  case drained
  then show ?thesis using dequeue_none [OF assms(1)] by simp
qed (use assms(3) in auto)

lemma run_conserves:
  "inv q \<Longrightarrow> mb_run I cs q = (as, q') \<Longrightarrow> Dispose \<notin> set cs \<Longrightarrow>
     mset (accepted cs as) + pending q = mset (delivered as) + pending q'"
proof (induction cs arbitrary: q as)
  case (Cons c cs)
  obtain a q1 where c: "mb_call I c q = (a, q1)" by fastforce
  obtain as' where as: "as = a # as'" and r: "mb_run I cs q1 = (as', q')"
    using Cons.prems(2) c by (auto split: prod.splits)
  have "mset (accepted cs as') + pending q1 = mset (delivered as') + pending q'"
    using Cons.IH [OF call_inv [OF Cons.prems(1) c] r] Cons.prems(3) by simp
  moreover have "mset (accepted [c] [a]) + pending q = mset (delivered [a]) + pending q1"
    using call_conserves [OF Cons.prems(1) c] Cons.prems(3) by auto
  ultimately show ?case
    unfolding as accepted_Cons [of c cs a as'] delivered_Cons [of a as']
    by (simp add: ac_simps) (metis add.assoc add.commute)
qed simp

text \<open>A disposed mailbox refuses every message and delivers none, forever.\<close>

lemma call_closed:
  assumes "inv q" "closed q" "mb_call I c q = (a, q')"
  shows "closed q' \<and> accepted [c] [a] = [] \<and> delivered [a] = []"
  using assms(1,3)
proof (cases rule: call_cases)
  case (accept m)
  then show ?thesis using enqueue_ok [OF assms(1)] assms(2) by blast
next
  case (refuse m e)
  then show ?thesis using enqueue_error [OF assms(1)] assms(2) by simp
next
  case (deliver m)
  then show ?thesis using dequeue_some [OF assms(1)] closed_empty [OF assms(1,2)] by simp
next
  case drained
  then show ?thesis using dequeue_none [OF assms(1)] assms(2) by simp
qed (use assms(1,2) dispose_closed in auto)

lemma run_closed:
  "inv q \<Longrightarrow> closed q \<Longrightarrow> mb_run I cs q = (as, q') \<Longrightarrow>
     closed q' \<and> accepted cs as = [] \<and> delivered as = []"
proof (induction cs arbitrary: q as)
  case (Cons c cs)
  obtain a q1 where c: "mb_call I c q = (a, q1)" by fastforce
  obtain as' where as: "as = a # as'" and r: "mb_run I cs q1 = (as', q')"
    using Cons.prems(3) c by (auto split: prod.splits)
  show ?case
    using Cons.IH [OF call_inv [OF Cons.prems(1) c] _ r] call_closed [OF Cons.prems(1,2) c]
    unfolding as accepted_Cons [of c cs a as'] delivered_Cons [of a as'] by simp
qed simp

end

locale fifo_mailbox = mailbox I inv closed pending
  for I :: "('m, 'q) Mailbox" and inv closed and pending :: "'q \<Rightarrow> 'm multiset" +
  fixes contents :: "'q \<Rightarrow> 'm list"
  assumes pending_contents: "inv q \<Longrightarrow> pending q = mset (contents q)"
    and enqueue_refused:
      "inv q \<Longrightarrow> mb_enqueue I m q = (Some e, q') \<Longrightarrow> contents q' = contents q"
    and enqueue_last:
      "inv q \<Longrightarrow> mb_enqueue I m q = (None, q') \<Longrightarrow> contents q' = contents q @ [m]"
    and dequeue_first:
      "inv q \<Longrightarrow> mb_dequeue I q = (Some m, q') \<Longrightarrow> contents q = m # contents q'"
begin

lemma run_fifo:
  "inv q \<Longrightarrow> mb_run I cs q = (as, q') \<Longrightarrow> Dispose \<notin> set cs \<Longrightarrow>
     contents q @ accepted cs as = delivered as @ contents q'"
proof (induction cs arbitrary: q as)
  case (Cons c cs)
  obtain a q1 where c: "mb_call I c q = (a, q1)" by fastforce
  obtain as' where as: "as = a # as'" and r: "mb_run I cs q1 = (as', q')"
    using Cons.prems(2) c by (auto split: prod.splits)
  have IH: "contents q1 @ accepted cs as' = delivered as' @ contents q'"
    using Cons.IH [OF call_inv [OF Cons.prems(1) c] r] Cons.prems(3) by simp
  have "contents q @ accepted [c] [a] = delivered [a] @ contents q1"
    using Cons.prems(1) c
  proof (cases rule: call_cases)
    case (accept m)
    then show ?thesis using enqueue_last [OF Cons.prems(1)] by simp
  next
    case (refuse m e)
    then show ?thesis using enqueue_refused [OF Cons.prems(1)] by simp
  next
    case (deliver m)
    then show ?thesis using dequeue_first [OF Cons.prems(1)] by simp
  next
    case drained
    then show ?thesis using dequeue_none [OF Cons.prems(1)] pending_contents [of q]
        pending_contents [of q1] Cons.prems(1) by simp
  qed (use Cons.prems(3) in auto)
  then show ?case using IH
    unfolding as accepted_Cons [of c cs a as'] delivered_Cons [of a as']
    by (metis append.assoc)
qed simp

end

section \<open>Refinement of a reference mailbox\<close>

text \<open>
  A mailbox refines a reference when the abstraction of its state commutes with
  every operation; then no sequence of calls can tell the two apart.
\<close>

locale mailbox_refinement =
  fixes C :: "('m, 'c) Mailbox" and A :: "('m, 'a) Mailbox"
    and inv :: "'c \<Rightarrow> bool" and abs :: "'c \<Rightarrow> 'a"
  assumes sim: "inv q \<Longrightarrow> mb_call C c q = (r, q') \<Longrightarrow> inv q' \<and> mb_call A c (abs q) = (r, abs q')"
begin

lemma run_refines:
  "inv q \<Longrightarrow> mb_run C cs q = (rs, q') \<Longrightarrow> mb_run A cs (abs q) = (rs, abs q')"
proof (induction cs arbitrary: q rs)
  case (Cons c cs)
  obtain r q1 where c: "mb_call C c q = (r, q1)" by fastforce
  obtain rs' where rs: "rs = r # rs'" "mb_run C cs q1 = (rs', q')"
    using Cons.prems(2) c by (auto split: prod.splits)
  show ?case using sim [OF Cons.prems(1) c] Cons.IH [of q1 rs'] rs by simp
qed simp

lemma same_answers: "inv q \<Longrightarrow> fst (mb_run C cs q) = fst (mb_run A cs (abs q))"
  using run_refines by (metis fst_conv surj_pair)

end

text \<open>
  The reference FIFO mailbox: a list, a flag for disposal, and an optional
  capacity.  It is the specification the three FIFO mailboxes are compared with.
\<close>

record 'm fifo =
  items :: "'m list"
  gone :: bool

definition fifo_enqueue :: "nat option \<Rightarrow> 'm \<Rightarrow> 'm fifo \<Rightarrow> MailboxError option \<times> 'm fifo" where
  "fifo_enqueue cap m q =
     (if gone q then (Some ErrMailboxDisposed, q)
      else if cap = Some (length (items q)) then (Some ErrMailboxFull, q)
      else (None, q\<lparr>items := items q @ [m]\<rparr>))"

definition fifo_dequeue :: "'m fifo \<Rightarrow> 'm option \<times> 'm fifo" where
  "fifo_dequeue q = (case items q of [] \<Rightarrow> (None, q) | m # ms \<Rightarrow> (Some m, q\<lparr>items := ms\<rparr>))"

definition fifo_spec :: "nat option \<Rightarrow> ('m, 'm fifo) Mailbox" where
  "fifo_spec cap =
     \<lparr>mb_enqueue = fifo_enqueue cap, mb_dequeue = fifo_dequeue,
      mb_isEmpty = (\<lambda>q. items q = []), mb_len = (\<lambda>q. length (items q)),
      mb_dispose = (\<lambda>q. \<lparr>items = [], gone = True\<rparr>)\<rparr>"

definition fifo_new :: "'m fifo" where
  "fifo_new = \<lparr>items = [], gone = False\<rparr>"

lemmas fifo_defs = fifo_spec_def fifo_enqueue_def fifo_dequeue_def fifo_new_def

text \<open>
  A mailbox that refines the reference inherits the whole contract, with the
  contents and the disposal flag read off the abstraction.
\<close>

locale fifo_refinement = mailbox_refinement C "fifo_spec cap" inv abs
  for C :: "('m, 'c) Mailbox" and cap :: "nat option"
    and inv :: "'c \<Rightarrow> bool" and abs :: "'c \<Rightarrow> 'm fifo" +
  assumes closed_no_items: "inv q \<Longrightarrow> gone (abs q) \<Longrightarrow> items (abs q) = []"
begin

lemma enqueue_sim: "inv q \<Longrightarrow> mb_enqueue C m q = (e, q') \<Longrightarrow>
    inv q' \<and> e = fst (fifo_enqueue cap m (abs q)) \<and> abs q' = snd (fifo_enqueue cap m (abs q))"
  using sim [of q "Enqueue m" "Enqueued e" q'] by (auto simp: fifo_spec_def split: prod.splits)

lemma dequeue_sim: "inv q \<Longrightarrow> mb_dequeue C q = (r, q') \<Longrightarrow>
    inv q' \<and> r = fst (fifo_dequeue (abs q)) \<and> abs q' = snd (fifo_dequeue (abs q))"
  using sim [of q Dequeue "Dequeued r" q'] by (auto simp: fifo_spec_def split: prod.splits)

lemma len_sim: "inv q \<Longrightarrow> mb_len C q = length (items (abs q))"
  using sim [of q Len "Length (mb_len C q)" q] by (auto simp: fifo_spec_def)

lemma isEmpty_sim: "inv q \<Longrightarrow> mb_isEmpty C q = (items (abs q) = [])"
  using sim [of q IsEmpty "Emptiness (mb_isEmpty C q)" q] by (auto simp: fifo_spec_def)

lemma dispose_sim: "inv q \<Longrightarrow>
    inv (mb_dispose C q) \<and> abs (mb_dispose C q) = \<lparr>items = [], gone = True\<rparr>"
  using sim [of q Dispose Disposed "mb_dispose C q"] by (auto simp: fifo_spec_def)

lemma enqueue_ok_sim: "inv q \<Longrightarrow> mb_enqueue C m q = (None, q') \<Longrightarrow>
    inv q' \<and> \<not> gone (abs q) \<and> \<not> gone (abs q') \<and> items (abs q') = items (abs q) @ [m]"
  using enqueue_sim [of q m None q'] by (auto simp: fifo_enqueue_def split: if_splits)

lemma enqueue_error_sim: "inv q \<Longrightarrow> mb_enqueue C m q = (Some e, q') \<Longrightarrow>
    inv q' \<and> abs q' = abs q"
  using enqueue_sim [of q m "Some e" q'] by (auto simp: fifo_enqueue_def split: if_splits)

lemma enqueue_gone_sim: "inv q \<Longrightarrow> gone (abs q) \<Longrightarrow>
    fst (mb_enqueue C m q) = Some ErrMailboxDisposed"
  using enqueue_sim [of q m "fst (mb_enqueue C m q)" "snd (mb_enqueue C m q)"]
  by (simp add: fifo_enqueue_def)

lemma dequeue_some_sim: "inv q \<Longrightarrow> mb_dequeue C q = (Some m, q') \<Longrightarrow>
    inv q' \<and> gone (abs q') = gone (abs q) \<and> items (abs q) = m # items (abs q')"
  using dequeue_sim [of q "Some m" q'] by (auto simp: fifo_dequeue_def split: list.splits)

lemma dequeue_none_sim: "inv q \<Longrightarrow> mb_dequeue C q = (None, q') \<Longrightarrow>
    inv q' \<and> abs q' = abs q \<and> items (abs q) = []"
  using dequeue_sim [of q None q'] by (auto simp: fifo_dequeue_def split: list.splits)

sublocale fifo_mailbox C inv "\<lambda>q. gone (abs q)" "\<lambda>q. mset (items (abs q))" "\<lambda>q. items (abs q)"
proof (unfold_locales, goal_cases)
  case (1 q m q') then show ?case using enqueue_ok_sim [of q m q'] by simp
next
  case (2 q m e q') then show ?case using enqueue_error_sim [of q m e q'] by simp
next
  case (3 q m) then show ?case by (rule enqueue_gone_sim)
next
  case (4 q m q') then show ?case using dequeue_some_sim [of q m q'] by simp
next
  case (5 q q') then show ?case using dequeue_none_sim [of q q'] by simp
next
  case (6 q) then show ?case by (simp add: isEmpty_sim len_sim)
next
  case (7 q) then show ?case by (simp add: len_sim)
next
  case (8 q) then show ?case by (simp add: dispose_sim)
next
  case (9 q) then show ?case by (simp add: closed_no_items)
next
  case (10 q) then show ?case by simp
next
  case (11 q m e q') then show ?case using enqueue_error_sim [of q m e q'] by simp
next
  case (12 q m q') then show ?case using enqueue_ok_sim [of q m q'] by simp
next
  case (13 q m q') then show ?case using dequeue_some_sim [of q m q'] by simp
qed

end

end
