(* ===== verification/UnboundedMailbox.thy ===== *)
theory UnboundedMailbox
  imports Mailbox
begin

text \<open>
  The default mailbox, \<open>src/unbounded.mailbox.ts\<close>: a growable ring buffer whose
  capacity is a power of two, addressed through a bit mask.  The buffer is
  allocated on the first enqueue, doubled when full, and released by the first
  drain when it is small.  The theory shows that it refines the reference FIFO
  queue and that a processed message never lingers in a slot.
\<close>

section \<open>State and operations\<close>

definition RELEASE_CAPACITY :: nat where
  "RELEASE_CAPACITY = 64"

record 'm UnboundedMailbox =
  ub_buffer :: "'m option list option"
  ub_mask :: nat
  ub_head :: nat
  ub_size :: nat
  ub_disposed :: bool
  ub_drained :: bool

definition ub_new :: "'m UnboundedMailbox" where
  "ub_new = \<lparr>ub_buffer = None, ub_mask = 0, ub_head = 0, ub_size = 0,
             ub_disposed = False, ub_drained = False\<rparr>"

definition ub_grow :: "'m option list \<Rightarrow> 'm UnboundedMailbox \<Rightarrow> 'm UnboundedMailbox" where
  "ub_grow old q =
     (let next = fold (\<lambda>i nx. arr_set nx i (arr_get old ((ub_head q + i) AND ub_mask q)))
                   [0..<ub_size q] (replicate (length old * 2) None)
      in q\<lparr>ub_buffer := Some next, ub_mask := length next - 1, ub_head := 0\<rparr>)"

text \<open>
  The slot store and the size increment that end \<open>enqueue\<close>; the buffer is
  present by then.
\<close>

definition ub_put :: "'m \<Rightarrow> 'm UnboundedMailbox \<Rightarrow> 'm UnboundedMailbox" where
  "ub_put m q =
     q\<lparr>ub_buffer := map_option (\<lambda>b. arr_set b ((ub_head q + ub_size q) AND ub_mask q) (Some m)) (ub_buffer q),
       ub_size := ub_size q + 1\<rparr>"

definition ub_enqueue :: "'m \<Rightarrow> 'm UnboundedMailbox \<Rightarrow> MailboxError option \<times> 'm UnboundedMailbox" where
  "ub_enqueue m q =
     (if ub_disposed q then (Some ErrMailboxDisposed, q)
      else
        (None,
         ub_put m
           (case ub_buffer q of
              None \<Rightarrow> q\<lparr>ub_buffer := Some [None], ub_mask := 0\<rparr>
            | Some b \<Rightarrow> if ub_size q = length b then ub_grow b q else q)))"

definition ub_dequeue :: "'m UnboundedMailbox \<Rightarrow> 'm option \<times> 'm UnboundedMailbox" where
  "ub_dequeue q =
     (case ub_buffer q of
        None \<Rightarrow> (None, q)
      | Some b \<Rightarrow>
          if ub_size q = 0 then (None, q)
          else
            let i = ub_head q;
                msg = arr_get b i;
                q1 = q\<lparr>ub_buffer := Some (arr_set b i None),
                       ub_head := (i + 1) AND ub_mask q,
                       ub_size := ub_size q - 1\<rparr>;
                q2 = (if ub_size q1 = 0
                      then let q' = q1\<lparr>ub_head := 0\<rparr>
                           in if ub_drained q' then q'
                              else let q'' = q'\<lparr>ub_drained := True\<rparr>
                                   in if length b \<le> RELEASE_CAPACITY
                                      then q''\<lparr>ub_buffer := None, ub_mask := 0\<rparr> else q''
                      else q1)
            in (msg, q2))"

definition ub_isEmpty :: "'m UnboundedMailbox \<Rightarrow> bool" where
  "ub_isEmpty q = (ub_size q = 0)"

definition ub_len :: "'m UnboundedMailbox \<Rightarrow> nat" where
  "ub_len q = ub_size q"

definition ub_dispose :: "'m UnboundedMailbox \<Rightarrow> 'm UnboundedMailbox" where
  "ub_dispose q =
     q\<lparr>ub_disposed := True, ub_buffer := None, ub_mask := 0, ub_head := 0, ub_size := 0\<rparr>"

definition unbounded_mailbox :: "('m, 'm UnboundedMailbox) Mailbox" where
  "unbounded_mailbox =
     \<lparr>mb_enqueue = ub_enqueue, mb_dequeue = ub_dequeue, mb_isEmpty = ub_isEmpty,
      mb_len = ub_len, mb_dispose = ub_dispose\<rparr>"

section \<open>Invariant and abstraction\<close>

text \<open>
  The buffer's capacity is a power of two, the mask is one less, the \<open>size\<close>
  slots from \<open>head\<close> hold messages and every other slot is cleared.
\<close>

definition ring_ok :: "'m option list \<Rightarrow> nat \<Rightarrow> nat \<Rightarrow> nat \<Rightarrow> bool" where
  "ring_ok b msk h n \<longleftrightarrow>
     (\<exists>k. length b = 2 ^ k) \<and> msk = length b - 1 \<and> h < length b \<and> n \<le> length b \<and>
     (\<forall>i < n. b ! ((h + i) mod length b) \<noteq> None) \<and>
     (\<forall>j < length b. (\<forall>i < n. j \<noteq> (h + i) mod length b) \<longrightarrow> b ! j = None)"

definition ub_inv :: "'m UnboundedMailbox \<Rightarrow> bool" where
  "ub_inv q \<longleftrightarrow>
     (case ub_buffer q of
        None \<Rightarrow> ub_size q = 0 \<and> ub_head q = 0 \<and> ub_mask q = 0
      | Some b \<Rightarrow> \<not> ub_disposed q \<and> ring_ok b (ub_mask q) (ub_head q) (ub_size q))"

definition ub_contents :: "'m UnboundedMailbox \<Rightarrow> 'm list" where
  "ub_contents q =
     (case ub_buffer q of None \<Rightarrow> [] | Some b \<Rightarrow> map the (ring_read b (ub_head q) (ub_size q)))"

definition ub_abs :: "'m UnboundedMailbox \<Rightarrow> 'm fifo" where
  "ub_abs q = \<lparr>items = ub_contents q, gone = ub_disposed q\<rparr>"

lemma ring_ok_index: "ring_ok b msk h n \<Longrightarrow> (a AND msk) = a mod length b"
  unfolding ring_ok_def by (metis and_pow2_minus_1)

lemma ring_ok_filled: "ring_ok b msk h n \<Longrightarrow> i < n \<Longrightarrow> b ! ((h + i) mod length b) \<noteq> None"
  by (simp add: ring_ok_def)

lemma ring_ok_pos: "ring_ok b msk h n \<Longrightarrow> 0 < length b"
  by (auto simp: ring_ok_def)

lemma length_ub_contents: "ub_inv q \<Longrightarrow> length (ub_contents q) = ub_size q"
  by (auto simp: ub_inv_def ub_contents_def split: option.splits)

section \<open>Enqueue\<close>

lemma ring_ok_put:
  assumes ok: "ring_ok b msk h n" and n: "n < length b"
  shows "ring_ok (b[(h + n) mod length b := Some m]) msk h (Suc n)"
proof -
  let ?w = "(h + n) mod length b"
  have w: "?w < length b" using n by (intro mod_less_divisor) auto
  have "(b[?w := Some m]) ! ((h + i) mod length b) \<noteq> None" if "i < Suc n" for i
  proof (cases "i = n")
    case False
    with that n have "(h + i) mod length b \<noteq> ?w"
      by (intro mod_ring_distinct [where n = "length b"]) auto
    with False that ok show ?thesis by (simp add: ring_ok_def)
  qed (use w in simp)
  moreover have "(b[?w := Some m]) ! j = None"
    if "j < length b" "\<forall>i < Suc n. j \<noteq> (h + i) mod length b" for j
  proof -
    have "j \<noteq> ?w" using that(2) by blast
    moreover have "b ! j = None" using that ok by (simp add: ring_ok_def)
    ultimately show ?thesis by simp
  qed
  ultimately show ?thesis using ok n unfolding ring_ok_def by simp
qed

lemma ub_put_correct:
  assumes inv: "ub_inv q" and b: "ub_buffer q = Some b" and n: "ub_size q < length b"
  shows "ub_inv (ub_put m q)" "ub_contents (ub_put m q) = ub_contents q @ [m]"
proof -
  have ok: "ring_ok b (ub_mask q) (ub_head q) (ub_size q)"
    using inv b by (simp add: ub_inv_def)
  have idx: "(ub_head q + ub_size q) AND ub_mask q = (ub_head q + ub_size q) mod length b"
    by (rule ring_ok_index [OF ok])
  have put: "ub_put m q = q\<lparr>ub_buffer := Some (b[(ub_head q + ub_size q) mod length b := Some m]),
      ub_size := Suc (ub_size q)\<rparr>"
    using ring_ok_pos [OF ok] b by (simp add: ub_put_def idx arr_simps)
  show "ub_inv (ub_put m q)"
    using ring_ok_put [OF ok n, of m] inv b by (simp add: put ub_inv_def)
  show "ub_contents (ub_put m q) = ub_contents q @ [m]"
    using b n by (simp add: put ub_contents_def ring_read_snoc)
qed

lemma ub_grow_correct:
  assumes inv: "ub_inv q" and b: "ub_buffer q = Some b" and n: "ub_size q = length b"
  defines "g \<equiv> ub_grow b q"
  shows "ub_inv g" "ub_contents g = ub_contents q" "ub_disposed g = ub_disposed q"
    "\<exists>b'. ub_buffer g = Some b' \<and> ub_size g < length b'"
proof -
  have ok: "ring_ok b (ub_mask q) (ub_head q) (ub_size q)"
    using inv b by (simp add: ub_inv_def)
  let ?n = "length b"
  let ?b' = "ring_read b (ub_head q) ?n @ replicate ?n None"
  have "map (\<lambda>i. arr_get b ((ub_head q + i) AND ub_mask q)) [0..<?n] = ring_read b (ub_head q) ?n"
    using ring_ok_pos [OF ok] by (simp add: ring_read_def arr_simps ring_ok_index [OF ok])
  then have g: "g = q\<lparr>ub_buffer := Some ?b', ub_mask := length ?b' - 1, ub_head := 0\<rparr>"
    unfolding g_def ub_grow_def n
    by (simp add: fold_arr_set_fill mult_2_right Let_def)
  have len: "length ?b' = 2 * ?n" by simp
  obtain k where "?n = 2 ^ k" using ok by (auto simp: ring_ok_def)
  then have k: "length ?b' = 2 ^ Suc k" by simp
  have full: "b ! ((ub_head q + i) mod ?n) \<noteq> None" if "i < ?n" for i
    using ok n that by (simp add: ring_ok_def)
  have "ring_ok ?b' (length ?b' - 1) 0 ?n"
    unfolding ring_ok_def
    using k full ring_ok_pos [OF ok] by (auto simp: nth_append intro!: exI [of _ "Suc k"])
  then show "ub_inv g" using inv b n by (simp add: g ub_inv_def)
  have "ring_read ?b' 0 ?n = ring_read b (ub_head q) ?n"
    by (rule nth_equalityI) (auto simp: nth_append)
  then show "ub_contents g = ub_contents q" using b n by (simp add: g ub_contents_def)
  show "ub_disposed g = ub_disposed q" by (simp add: g)
  show "\<exists>b'. ub_buffer g = Some b' \<and> ub_size g < length b'"
    using ring_ok_pos [OF ok] n by (simp add: g)
qed

lemma ub_put_disposed [simp]: "ub_disposed (ub_put m q) = ub_disposed q"
  by (simp add: ub_put_def)

lemma ub_enqueue_correct:
  assumes inv: "ub_inv q" and open_q: "\<not> ub_disposed q"
  shows "ub_inv (snd (ub_enqueue m q)) \<and> ub_contents (snd (ub_enqueue m q)) = ub_contents q @ [m]
    \<and> \<not> ub_disposed (snd (ub_enqueue m q))"
proof (cases "ub_buffer q")
  case None
  let ?q = "q\<lparr>ub_buffer := Some [None], ub_mask := 0\<rparr>"
  have i: "ub_inv ?q" using inv None open_q
    by (auto simp: ub_inv_def ring_ok_def intro: exI [of _ 0])
  have s: "ub_size ?q < length [None :: 'a option]" using inv None by (simp add: ub_inv_def)
  have c: "ub_contents ?q = []" "ub_contents q = []"
    using inv None by (auto simp: ub_contents_def ub_inv_def)
  show ?thesis
    using ub_put_correct [OF i _ s, of m] c None open_q by (simp add: ub_enqueue_def)
next
  case (Some b)
  show ?thesis
  proof (cases "ub_size q = length b")
    case True
    obtain b' where b': "ub_buffer (ub_grow b q) = Some b'" "ub_size (ub_grow b q) < length b'"
      using ub_grow_correct(4) [OF inv Some True] by blast
    show ?thesis
      using ub_put_correct [OF ub_grow_correct(1) [OF inv Some True] b', of m]
        ub_grow_correct(2,3) [OF inv Some True] True Some open_q
      by (simp add: ub_enqueue_def)
  next
    case False
    moreover have "ub_size q \<le> length b" using inv Some by (simp add: ub_inv_def ring_ok_def)
    ultimately show ?thesis
      using ub_put_correct [OF inv Some, of m] Some open_q by (simp add: ub_enqueue_def)
  qed
qed

section \<open>Dequeue\<close>

lemma ring_ok_take:
  assumes ok: "ring_ok b msk h (Suc n)"
  shows "ring_ok (b[h := None]) msk (Suc h mod length b) n"
proof -
  have h: "h < length b" and n: "Suc n \<le> length b" using ok by (auto simp: ring_ok_def)
  have shift: "(Suc h mod length b + i) mod length b = (h + Suc i) mod length b" for i
    by (simp add: mod_add_left_eq)
  have keep: "(h + Suc i) mod length b \<noteq> h" if "i < n" for i
  proof -
    have "(h + Suc i) mod length b \<noteq> (h + 0) mod length b"
      using that n by (intro mod_ring_distinct [where n = "length b"]) auto
    then show ?thesis using h by simp
  qed
  have "b[h := None] ! ((Suc h mod length b + i) mod length b) \<noteq> None" if "i < n" for i
    using ring_ok_filled [OF ok, of "Suc i"] that keep [OF that] unfolding shift by simp
  moreover have "b[h := None] ! j = None"
    if "j < length b" "\<forall>i < n. j \<noteq> (Suc h mod length b + i) mod length b" for j
  proof (cases "j = h")
    case False
    have "\<forall>i < Suc n. j \<noteq> (h + i) mod length b"
    proof (intro allI impI)
      fix i assume "i < Suc n"
      then show "j \<noteq> (h + i) mod length b"
        using False that(2) h unfolding shift by (cases i) auto
    qed
    then show ?thesis using ok that(1) False by (simp add: ring_ok_def)
  qed (use h in simp)
  ultimately show ?thesis using ok h unfolding ring_ok_def by (auto simp: mod_less_divisor)
qed

lemma ring_ok_rewind: "ring_ok b msk h 0 \<Longrightarrow> ring_ok b msk 0 0"
  by (auto simp: ring_ok_def)

lemma ub_dequeue_correct:
  assumes inv: "ub_inv q" and n: "ub_size q = Suc n"
  shows "ub_inv (snd (ub_dequeue q)) \<and> ub_disposed (snd (ub_dequeue q)) = ub_disposed q
    \<and> (\<exists>m. fst (ub_dequeue q) = Some m \<and> ub_contents q = m # ub_contents (snd (ub_dequeue q)))"
proof -
  obtain b where b: "ub_buffer q = Some b" using inv n by (cases "ub_buffer q") (auto simp: ub_inv_def)
  have ok: "ring_ok b (ub_mask q) (ub_head q) (Suc n)" and live: "\<not> ub_disposed q"
    using inv b n by (auto simp: ub_inv_def)
  have h: "ub_head q < length b" and le: "Suc n \<le> length b" using ok by (auto simp: ring_ok_def)
  obtain m where m: "b ! ub_head q = Some m"
    using ok h unfolding ring_ok_def by (metis add.right_neutral mod_less not_None_eq zero_less_Suc)
  have next_ok: "ring_ok (b[ub_head q := None]) (ub_mask q) (Suc (ub_head q) mod length b) n"
    by (rule ring_ok_take [OF ok])
  have idx: "Suc (ub_head q) AND ub_mask q = Suc (ub_head q) mod length b"
    by (rule ring_ok_index [OF ok])
  have split: "ub_contents q = m # map the (ring_read (b[ub_head q := None]) (Suc (ub_head q) mod length b) n)"
    using b n m h le by (simp add: ub_contents_def ring_read_Cons ring_read_clear_head)
  show ?thesis
  proof (cases n)
    case 0
    then show ?thesis
      using b n m h live split ring_ok_rewind next_ok
      by (auto simp: ub_dequeue_def ub_inv_def ub_contents_def arr_simps idx Let_def)
  next
    case (Suc n')
    then show ?thesis
      using b n m h live split next_ok
      by (auto simp: ub_dequeue_def ub_inv_def ub_contents_def arr_simps idx Let_def)
  qed
qed

lemma ub_dequeue_empty: "ub_size q = 0 \<Longrightarrow> ub_dequeue q = (None, q)"
  by (auto simp: ub_dequeue_def split: option.splits)

section \<open>Refinement of the reference queue\<close>

lemma ub_new_inv: "ub_inv ub_new" "ub_abs ub_new = fifo_new"
  by (auto simp: ub_inv_def ub_new_def ub_abs_def ub_contents_def fifo_new_def)

lemma ub_dispose_correct: "ub_inv (ub_dispose q)" "ub_abs (ub_dispose q) = \<lparr>items = [], gone = True\<rparr>"
  by (auto simp: ub_inv_def ub_dispose_def ub_abs_def ub_contents_def)

lemma ub_sim:
  assumes "ub_inv q" "mb_call unbounded_mailbox c q = (r, q')"
  shows "ub_inv q' \<and> mb_call (fifo_spec None) c (ub_abs q) = (r, ub_abs q')"
proof (cases c)
  case (Enqueue m)
  then show ?thesis
    using assms ub_enqueue_correct [OF assms(1), of m]
    by (cases "ub_disposed q")
      (auto simp: unbounded_mailbox_def fifo_defs ub_abs_def ub_enqueue_def split: option.splits)
next
  case Dequeue
  show ?thesis
  proof (cases "ub_size q")
    case 0
    then have "ub_contents q = []" using length_ub_contents [OF assms(1)] by simp
    with 0 Dequeue assms show ?thesis
      by (auto simp: unbounded_mailbox_def fifo_defs ub_abs_def ub_dequeue_empty)
  next
    case (Suc n)
    from ub_dequeue_correct [OF assms(1) Suc] Dequeue assms show ?thesis
      by (auto simp: unbounded_mailbox_def fifo_defs ub_abs_def split: prod.splits)
  qed
qed (use assms length_ub_contents [OF assms(1)] ub_dispose_correct in
      \<open>auto simp: unbounded_mailbox_def fifo_spec_def ub_abs_def ub_isEmpty_def ub_len_def\<close>)

interpretation ub: fifo_refinement unbounded_mailbox None ub_inv ub_abs
proof unfold_locales
  fix q :: "'a UnboundedMailbox" assume "ub_inv q" "gone (ub_abs q)"
  then show "items (ub_abs q) = []"
    by (auto simp: ub_abs_def ub_inv_def ub_contents_def split: option.splits)
qed (rule ub_sim)

section \<open>Slot occupancy\<close>

lemma ring_ok_occupied:
  assumes ok: "ring_ok b msk h n"
  shows "length (filter (\<lambda>s. s \<noteq> None) b) = n"
proof -
  have "{j. j < length b \<and> b ! j \<noteq> None} = (\<lambda>i. (h + i) mod length b) ` {..<n}"
    using ok ring_ok_pos [OF ok] unfolding ring_ok_def by (fastforce simp: image_iff)
  moreover have "inj_on (\<lambda>i. (h + i) mod length b) {..<n}"
  proof (rule inj_onI, rule ccontr)
    fix i j assume "i \<in> {..<n}" "j \<in> {..<n}" "(h + i) mod length b = (h + j) mod length b" "i \<noteq> j"
    then show False
      using mod_ring_distinct [of i n j "length b" h] ok by (simp add: ring_ok_def)
  qed
  ultimately show ?thesis by (simp add: length_filter_conv_card card_image)
qed

section \<open>Properties\<close>

text \<open>
  No sequence of calls tells the default mailbox from the reference FIFO
  queue: growing, wrapping, releasing the buffer and disposal are invisible to
  the caller.
\<close>

lemma unbounded_refines_fifo:
  "fst (mb_run unbounded_mailbox cs ub_new) = fst (mb_run (fifo_spec None) cs fifo_new)"
  using ub.same_answers [OF ub_new_inv(1), of cs] by (simp add: ub_new_inv(2))

text \<open>
  Any sequence of calls without a disposal delivers the accepted messages in
  arrival order: what came out followed by what is still queued is what went in.
\<close>

lemma unbounded_delivery_order:
  assumes "Dispose \<notin> set cs" and "mb_run unbounded_mailbox cs ub_new = (as, q)"
  shows "accepted cs as = delivered as @ ub_contents q"
  using ub.run_fifo [OF ub_new_inv(1) assms(2,1)]
  by (simp add: ub_abs_def ub_contents_def ub_new_def)

text \<open>
  A processed message never lingers in the buffer: in every state a sequence
  of calls can reach, the occupied slots are exactly as many as the queued
  messages, and a mailbox without a buffer queues none.
\<close>

lemma unbounded_no_lingering:
  "case ub_buffer (snd (mb_run unbounded_mailbox cs ub_new)) of
     None \<Rightarrow> ub_len (snd (mb_run unbounded_mailbox cs ub_new)) = 0
   | Some b \<Rightarrow>
       length (filter (\<lambda>s. s \<noteq> None) b) = ub_len (snd (mb_run unbounded_mailbox cs ub_new))"
proof -
  have "ub_inv (snd (mb_run unbounded_mailbox cs ub_new))"
    using ub.run_inv [OF ub_new_inv(1)] by (metis surj_pair snd_conv)
  then show ?thesis
    using ring_ok_occupied
    by (auto simp only: ub_inv_def ub_len_def split: option.splits)
qed

end
