(* ===== verification/BoundedMailbox.thy ===== *)
theory BoundedMailbox
  imports Mailbox
begin

text \<open>
  The bounded mailbox, \<open>src/bounded.mailbox.ts\<close>: a fixed ring whose indices wrap
  by comparison instead of a mask, and which refuses a message when full.
\<close>

section \<open>State and operations\<close>

record 'm BoundedMailbox =
  bb_buffer :: "'m option list"
  bb_capacity :: nat
  bb_head :: nat
  bb_count :: nat
  bb_disposed :: bool

text \<open>The constructor throws on a capacity that is not positive.\<close>

definition bb_new :: "int \<Rightarrow> RangeError + 'm BoundedMailbox" where
  "bb_new capacity =
     (if capacity \<le> 0 then Inl RangeError
      else Inr \<lparr>bb_buffer = replicate (nat capacity) None, bb_capacity = nat capacity,
                bb_head = 0, bb_count = 0, bb_disposed = False\<rparr>)"

definition bb_enqueue :: "'m \<Rightarrow> 'm BoundedMailbox \<Rightarrow> MailboxError option \<times> 'm BoundedMailbox" where
  "bb_enqueue m q =
     (if bb_disposed q then (Some ErrMailboxDisposed, q)
      else if bb_count q = bb_capacity q then (Some ErrMailboxFull, q)
      else
        let write0 = bb_head q + bb_count q;
            write = (if write0 \<ge> bb_capacity q then write0 - bb_capacity q else write0)
        in (None, q\<lparr>bb_buffer := arr_set (bb_buffer q) write (Some m),
                    bb_count := bb_count q + 1\<rparr>))"

definition bb_dequeue :: "'m BoundedMailbox \<Rightarrow> 'm option \<times> 'm BoundedMailbox" where
  "bb_dequeue q =
     (if bb_count q = 0 then (None, q)
      else
        let msg = arr_get (bb_buffer q) (bb_head q);
            head1 = bb_head q + 1
        in (msg, q\<lparr>bb_buffer := arr_set (bb_buffer q) (bb_head q) None,
                   bb_head := (if head1 = bb_capacity q then 0 else head1),
                   bb_count := bb_count q - 1\<rparr>))"

definition bb_isEmpty :: "'m BoundedMailbox \<Rightarrow> bool" where
  "bb_isEmpty q = (bb_count q = 0)"

definition bb_len :: "'m BoundedMailbox \<Rightarrow> nat" where
  "bb_len q = bb_count q"

definition bb_dispose :: "'m BoundedMailbox \<Rightarrow> 'm BoundedMailbox" where
  "bb_dispose q =
     q\<lparr>bb_disposed := True, bb_buffer := replicate (length (bb_buffer q)) None,
       bb_head := 0, bb_count := 0\<rparr>"

definition bounded_mailbox :: "('m, 'm BoundedMailbox) Mailbox" where
  "bounded_mailbox =
     \<lparr>mb_enqueue = bb_enqueue, mb_dequeue = bb_dequeue, mb_isEmpty = bb_isEmpty,
      mb_len = bb_len, mb_dispose = bb_dispose\<rparr>"

section \<open>Invariant and abstraction\<close>

definition bb_inv :: "nat \<Rightarrow> 'm BoundedMailbox \<Rightarrow> bool" where
  "bb_inv c q \<longleftrightarrow>
     0 < c \<and> bb_capacity q = c \<and> length (bb_buffer q) = c \<and> bb_head q < c \<and> bb_count q \<le> c \<and>
     (\<forall>i < bb_count q. bb_buffer q ! ((bb_head q + i) mod c) \<noteq> None) \<and>
     (bb_disposed q \<longrightarrow> bb_count q = 0)"

definition bb_abs :: "'m BoundedMailbox \<Rightarrow> 'm fifo" where
  "bb_abs q = \<lparr>items = map the (ring_read (bb_buffer q) (bb_head q) (bb_count q)),
               gone = bb_disposed q\<rparr>"

lemma wrap_once: "a < c \<Longrightarrow> b < c \<Longrightarrow> (if a + b \<ge> c then a + b - c else a + b) = (a + b) mod (c::nat)"
  by (simp add: mod_if)

lemma wrap_succ: "h < c \<Longrightarrow> (if Suc h = c then 0 else Suc h) = Suc h mod (c::nat)"
  by auto

lemma bb_enqueue_correct:
  assumes inv: "bb_inv c q" and "\<not> bb_disposed q" and n: "bb_count q < c"
  shows "bb_inv c (snd (bb_enqueue m q)) \<and> fst (bb_enqueue m q) = None
    \<and> bb_abs (snd (bb_enqueue m q)) = bb_abs q\<lparr>items := items (bb_abs q) @ [m]\<rparr>"
proof -
  let ?w = "(bb_head q + bb_count q) mod c"
  have cap: "bb_capacity q = c" "length (bb_buffer q) = c" "bb_head q < c" "0 < c"
    using inv by (auto simp: bb_inv_def)
  have e: "bb_enqueue m q = (None, q\<lparr>bb_buffer := (bb_buffer q)[?w := Some m], bb_count := Suc (bb_count q)\<rparr>)"
    unfolding bb_enqueue_def Let_def cap(1) wrap_once [OF cap(3) n]
    using assms cap by (simp add: arr_simps)
  have "(bb_buffer q)[?w := Some m] ! ((bb_head q + i) mod c) \<noteq> None" if "i < Suc (bb_count q)" for i
  proof (cases "i = bb_count q")
    case False
    with that n have "(bb_head q + i) mod c \<noteq> ?w"
      by (intro mod_ring_distinct [where n = c]) auto
    with False that inv show ?thesis by (simp add: bb_inv_def)
  qed (use cap in simp)
  then have "bb_inv c (snd (bb_enqueue m q))" using assms cap by (simp add: e bb_inv_def)
  moreover have "ring_read ((bb_buffer q)[?w := Some m]) (bb_head q) (Suc (bb_count q))
      = ring_read (bb_buffer q) (bb_head q) (bb_count q) @ [Some m]"
    using ring_read_snoc [of "bb_count q" "bb_buffer q" "bb_head q" "Some m"] n cap by simp
  ultimately show ?thesis by (simp add: e bb_abs_def)
qed

lemma bb_dequeue_correct:
  assumes inv: "bb_inv c q" and n: "bb_count q = Suc n"
  shows "bb_inv c (snd (bb_dequeue q)) \<and> gone (bb_abs (snd (bb_dequeue q))) = gone (bb_abs q)
    \<and> (\<exists>m. fst (bb_dequeue q) = Some m
         \<and> items (bb_abs q) = m # items (bb_abs (snd (bb_dequeue q))))"
proof -
  let ?h = "bb_head q"
  have cap: "bb_capacity q = c" "length (bb_buffer q) = c" "?h < c" "Suc n \<le> c"
    using inv n by (auto simp: bb_inv_def)
  have filled: "bb_buffer q ! ((?h + i) mod c) \<noteq> None" if "i < Suc n" for i
    using inv n that by (simp add: bb_inv_def)
  obtain m where m: "bb_buffer q ! ?h = Some m" using filled [of 0] cap by auto
  have d: "bb_dequeue q = (Some m, q\<lparr>bb_buffer := (bb_buffer q)[?h := None],
      bb_head := Suc ?h mod c, bb_count := n\<rparr>)"
    using n cap m by (simp add: bb_dequeue_def Let_def arr_simps flip: wrap_succ)
  have shift: "(Suc ?h mod c + i) mod c = (?h + Suc i) mod c" for i
    by (simp add: mod_add_left_eq)
  have "(bb_buffer q)[?h := None] ! ((Suc ?h mod c + i) mod c) \<noteq> None" if "i < n" for i
  proof -
    have "(?h + Suc i) mod c \<noteq> (?h + 0) mod c"
      using that cap by (intro mod_ring_distinct [where n = c]) auto
    then show ?thesis using filled [of "Suc i"] that cap unfolding shift by simp
  qed
  then have "bb_inv c (snd (bb_dequeue q))"
    using inv n cap by (auto simp: d bb_inv_def)
  moreover have "ring_read (bb_buffer q) ?h (Suc n)
      = Some m # ring_read ((bb_buffer q)[?h := None]) (Suc ?h mod c) n"
    using ring_read_Cons [of ?h "bb_buffer q" n] ring_read_clear_head [of ?h "bb_buffer q" n None] cap m
    by simp
  ultimately show ?thesis using n by (simp add: d bb_abs_def)
qed

lemma bb_dispose_correct:
  "bb_inv c q \<Longrightarrow> bb_inv c (bb_dispose q) \<and> bb_abs (bb_dispose q) = \<lparr>items = [], gone = True\<rparr>"
  by (auto simp: bb_inv_def bb_dispose_def bb_abs_def)

lemma bb_new_inv:
  "bb_new c = Inr q \<Longrightarrow> bb_inv (nat c) q \<and> bb_abs q = fifo_new"
  by (auto simp: bb_new_def bb_inv_def bb_abs_def fifo_new_def split: if_splits)

lemma bb_sim:
  assumes "bb_inv c q" "mb_call bounded_mailbox op q = (r, q')"
  shows "bb_inv c q' \<and> mb_call (fifo_spec (Some c)) op (bb_abs q) = (r, bb_abs q')"
proof (cases op)
  case (Enqueue m)
  have len: "length (items (bb_abs q)) = bb_count q" by (simp add: bb_abs_def)
  have le: "bb_count q \<le> c" "bb_capacity q = c" using assms(1) by (auto simp: bb_inv_def)
  consider "bb_disposed q" | "\<not> bb_disposed q" "bb_count q = c" | "\<not> bb_disposed q" "bb_count q < c"
    using le by linarith
  then show ?thesis
  proof cases
    case 3
    then show ?thesis
      using bb_enqueue_correct [OF assms(1) 3, of m] Enqueue assms len
      by (auto simp: bounded_mailbox_def fifo_defs bb_abs_def split: prod.splits)
  qed (use Enqueue assms len le in
        \<open>auto simp: bounded_mailbox_def fifo_defs bb_abs_def bb_enqueue_def\<close>)
next
  case Dequeue
  show ?thesis
  proof (cases "bb_count q")
    case 0
    with Dequeue assms show ?thesis
      by (auto simp: bounded_mailbox_def fifo_defs bb_abs_def bb_dequeue_def)
  next
    case (Suc n)
    from bb_dequeue_correct [OF assms(1) Suc] Dequeue assms show ?thesis
      by (auto simp: bounded_mailbox_def fifo_defs split: prod.splits)
  qed
qed (use assms bb_dispose_correct in
      \<open>auto simp: bounded_mailbox_def fifo_spec_def bb_abs_def bb_isEmpty_def bb_len_def\<close>)

interpretation bb: fifo_refinement bounded_mailbox "Some c" "bb_inv c" bb_abs for c
proof unfold_locales
  fix q :: "'a BoundedMailbox" assume "bb_inv c q" "gone (bb_abs q)"
  then show "items (bb_abs q) = []" by (simp add: bb_inv_def bb_abs_def)
qed (rule bb_sim)

section \<open>Properties\<close>

text \<open>
  A bounded mailbox answers every sequence of calls as the reference FIFO
  queue of its capacity: it refuses exactly when that many messages are queued,
  and construction fails exactly on a capacity that is not positive.
\<close>

lemma bounded_refines_fifo:
  "case bb_new c of
     Inl RangeError \<Rightarrow> c \<le> 0
   | Inr q \<Rightarrow> c > 0 \<and>
       fst (mb_run bounded_mailbox cs q) = fst (mb_run (fifo_spec (Some (nat c))) cs fifo_new)"
proof (cases "c \<le> 0")
  case False
  then obtain q :: "'a BoundedMailbox" where q: "bb_new c = Inr q" by (simp add: bb_new_def)
  show ?thesis
    using bb.same_answers [of "nat c" q cs] bb_new_inv [OF q] False q by simp
qed (simp add: bb_new_def split: RangeError.split)

text \<open>
  The buffer is fixed: no sequence of calls changes its length, and the
  mailbox never queues more than its capacity.
\<close>

lemma bounded_capacity:
  assumes "bb_new c = Inr q0" and "mb_run bounded_mailbox cs q0 = (as, q)"
  shows "length (bb_buffer q) = nat c \<and> bb_len q \<le> nat c"
  using bb.run_inv [OF _ assms(2), of "nat c"] bb_new_inv [OF assms(1)]
  by (simp add: bb_inv_def bb_len_def)

end
