(* ===== verification/SegmentedMailbox.thy ===== *)
theory SegmentedMailbox
  imports Mailbox
begin

text \<open>
  The segmented mailbox, \<open>src/segmented.mailbox.ts\<close>: messages in fixed-size
  segments linked into a list, with one drained segment recycled as a spare.
  Segments are objects that the list, the tail pointer and the spare share, so
  they live in an explicit store of references; \<open>new Segment()\<close> takes a fresh
  one.  The theory shows that following the links and recycling segments is
  invisible: the mailbox refines the reference FIFO queue.
\<close>

section \<open>State and operations\<close>

definition SEGMENT_SIZE :: nat where
  "SEGMENT_SIZE = 256"

record 'm Segment =
  seg_data :: "'m option list"
  seg_read :: nat
  seg_write :: nat
  seg_next :: "nat option"

definition new_Segment :: "'m Segment" where
  "new_Segment = \<lparr>seg_data = replicate SEGMENT_SIZE None, seg_read = 0, seg_write = 0, seg_next = None\<rparr>"

record 'm SegmentedMailbox =
  sg_heap :: "nat \<Rightarrow> 'm Segment"
  sg_fresh :: nat
  sg_head :: nat
  sg_tail :: nat
  sg_spare :: "nat option"
  sg_size :: nat
  sg_disposed :: bool

definition sg_new :: "'m SegmentedMailbox" where
  "sg_new = \<lparr>sg_heap = (\<lambda>_. new_Segment), sg_fresh = 1, sg_head = 0, sg_tail = 0,
             sg_spare = None, sg_size = 0, sg_disposed = False\<rparr>"

definition sg_alloc :: "'m SegmentedMailbox \<Rightarrow> nat \<times> 'm SegmentedMailbox" where
  "sg_alloc q =
     (sg_fresh q, q\<lparr>sg_heap := (sg_heap q)(sg_fresh q := new_Segment), sg_fresh := sg_fresh q + 1\<rparr>)"

text \<open>The tail the message goes to: a full one is followed by the spare or a new segment.\<close>

definition sg_link :: "nat \<Rightarrow> nat \<Rightarrow> 'm SegmentedMailbox \<Rightarrow> 'm SegmentedMailbox" where
  "sg_link tail seg q =
     q\<lparr>sg_spare := None,
       sg_heap := (sg_heap q)(tail := (sg_heap q tail)\<lparr>seg_next := Some seg\<rparr>),
       sg_tail := seg\<rparr>"

definition sg_roll :: "'m SegmentedMailbox \<Rightarrow> 'm SegmentedMailbox" where
  "sg_roll q =
     (let tail = sg_tail q in
      if seg_write (sg_heap q tail) = SEGMENT_SIZE
      then case sg_spare q of
             Some s \<Rightarrow> sg_link tail s q
           | None \<Rightarrow> (let (seg, q1) = sg_alloc q in sg_link tail seg q1)
      else q)"

definition sg_put :: "'m \<Rightarrow> 'm SegmentedMailbox \<Rightarrow> 'm SegmentedMailbox" where
  "sg_put m q =
     (let tail = sg_tail q; s = sg_heap q tail
      in q\<lparr>sg_heap := (sg_heap q)(tail := s\<lparr>seg_data := arr_set (seg_data s) (seg_write s) (Some m),
                                            seg_write := seg_write s + 1\<rparr>),
           sg_size := sg_size q + 1\<rparr>)"

definition sg_enqueue :: "'m \<Rightarrow> 'm SegmentedMailbox \<Rightarrow> MailboxError option \<times> 'm SegmentedMailbox" where
  "sg_enqueue m q =
     (if sg_disposed q then (Some ErrMailboxDisposed, q) else (None, sg_put m (sg_roll q)))"

text \<open>
  The loop of \<open>dequeue\<close> that skips drained segments.  Each turn unlinks one
  segment, so the number of allocated segments bounds it; \<^term>\<open>None\<close> is the
  loop running out of that bound, \<^term>\<open>Some None\<close> its \<open>return undefined\<close>.
\<close>

fun sg_skip :: "nat \<Rightarrow> nat \<Rightarrow> 'm SegmentedMailbox \<Rightarrow> nat option option \<times> 'm SegmentedMailbox" where
  "sg_skip 0 seg q = (None, q)"
| "sg_skip (Suc n) seg q =
     (let s = sg_heap q seg in
      if seg_read s = seg_write s
      then (case seg_next s of
              None \<Rightarrow> (Some None, q)
            | Some nx \<Rightarrow>
                sg_skip n nx
                  (q\<lparr>sg_heap := (sg_heap q)(seg := s\<lparr>seg_read := 0, seg_write := 0, seg_next := None\<rparr>),
                     sg_spare := (case sg_spare q of None \<Rightarrow> Some seg | Some x \<Rightarrow> Some x),
                     sg_head := nx\<rparr>))
      else (Some (Some seg), q))"

text \<open>
  The read that ends \<open>dequeue\<close>: the slot is cleared and the cursor advanced, and
  a drained segment that is the tail is rewound in place.
\<close>

definition seg_advance :: "bool \<Rightarrow> 'm Segment \<Rightarrow> 'm Segment" where
  "seg_advance is_tail s =
     (let s1 = s\<lparr>seg_data := arr_set (seg_data s) (seg_read s) None, seg_read := seg_read s + 1\<rparr>
      in if seg_read s1 = seg_write s1 \<and> is_tail then s1\<lparr>seg_read := 0, seg_write := 0\<rparr> else s1)"

definition sg_take :: "nat \<Rightarrow> 'm SegmentedMailbox \<Rightarrow> 'm option \<times> 'm SegmentedMailbox" where
  "sg_take seg q =
     (let s = sg_heap q seg
      in (arr_get (seg_data s) (seg_read s),
          q\<lparr>sg_heap := (sg_heap q)(seg := seg_advance (seg = sg_tail q) s), sg_size := sg_size q - 1\<rparr>))"

definition sg_dequeue :: "'m SegmentedMailbox \<Rightarrow> 'm option \<times> 'm SegmentedMailbox" where
  "sg_dequeue q =
     (case sg_skip (sg_fresh q) (sg_head q) q of
        (Some (Some seg), q') \<Rightarrow> sg_take seg q'
      | (_, q') \<Rightarrow> (None, q'))"

definition sg_isEmpty :: "'m SegmentedMailbox \<Rightarrow> bool" where
  "sg_isEmpty q = (sg_size q = 0)"

definition sg_len :: "'m SegmentedMailbox \<Rightarrow> nat" where
  "sg_len q = sg_size q"

definition sg_dispose :: "'m SegmentedMailbox \<Rightarrow> 'm SegmentedMailbox" where
  "sg_dispose q =
     (let (empty, q1) = sg_alloc (q\<lparr>sg_disposed := True\<rparr>)
      in q1\<lparr>sg_head := empty, sg_tail := empty, sg_spare := None, sg_size := 0\<rparr>)"

definition segmented_mailbox :: "('m, 'm SegmentedMailbox) Mailbox" where
  "segmented_mailbox =
     \<lparr>mb_enqueue = sg_enqueue, mb_dequeue = sg_dequeue, mb_isEmpty = sg_isEmpty,
      mb_len = sg_len, mb_dispose = sg_dispose\<rparr>"

section \<open>Segments\<close>

definition seg_ok :: "'m Segment \<Rightarrow> bool" where
  "seg_ok s \<longleftrightarrow>
     length (seg_data s) = SEGMENT_SIZE \<and> seg_read s \<le> seg_write s \<and> seg_write s \<le> SEGMENT_SIZE \<and>
     (\<forall>i < SEGMENT_SIZE. (seg_data s ! i \<noteq> None) = (seg_read s \<le> i \<and> i < seg_write s))"

definition seg_items :: "'m Segment \<Rightarrow> 'm list" where
  "seg_items s = map (\<lambda>i. the (seg_data s ! i)) [seg_read s..<seg_write s]"

lemma length_seg_items: "length (seg_items s) = seg_write s - seg_read s"
  by (simp add: seg_items_def)

lemma seg_ok_new [simp]: "seg_ok new_Segment" "seg_items new_Segment = []"
  by (auto simp: seg_ok_def new_Segment_def seg_items_def)

lemma seg_items_next [simp]: "seg_items (s\<lparr>seg_next := n\<rparr>) = seg_items s"
  "seg_ok (s\<lparr>seg_next := n\<rparr>) = seg_ok s"
  by (auto simp: seg_items_def seg_ok_def)

lemma seg_push:
  fixes m :: 'm
  assumes ok: "seg_ok s" and w: "seg_write s < SEGMENT_SIZE"
  defines "s' \<equiv> s\<lparr>seg_data := arr_set (seg_data s) (seg_write s) (Some m), seg_write := seg_write s + 1\<rparr>"
  shows "seg_ok s' \<and> seg_items s' = seg_items s @ [m]"
proof -
  have "seg_data s' = (seg_data s)[seg_write s := Some m]"
    using ok w by (simp add: s'_def seg_ok_def arr_simps)
  then show ?thesis using ok w
    by (auto simp: s'_def seg_ok_def seg_items_def nth_list_update)
qed

lemma seg_pop:
  assumes ok: "seg_ok s" and r: "seg_read s < seg_write s"
  defines "s' \<equiv> s\<lparr>seg_data := arr_set (seg_data s) (seg_read s) None, seg_read := seg_read s + 1\<rparr>"
  shows "seg_ok s'" "\<exists>m. arr_get (seg_data s) (seg_read s) = Some m \<and> seg_items s = m # seg_items s'"
proof -
  have d: "seg_data s' = (seg_data s)[seg_read s := None]"
    using ok r by (simp add: s'_def seg_ok_def arr_simps)
  show "seg_ok s'" using ok r d by (auto simp: s'_def seg_ok_def nth_list_update)
  have "seg_data s ! seg_read s \<noteq> None" using ok r by (auto simp: seg_ok_def)
  then obtain m where m: "seg_data s ! seg_read s = Some m" by blast
  have "map (\<lambda>i. the (seg_data s ! i)) [Suc (seg_read s)..<seg_write s]
      = map (\<lambda>i. the ((seg_data s)[seg_read s := None] ! i)) [Suc (seg_read s)..<seg_write s]"
    by (rule map_cong) auto
  then have "seg_items s = m # seg_items s'"
    using m r d by (simp add: seg_items_def s'_def upt_conv_Cons)
  moreover have "arr_get (seg_data s) (seg_read s) = Some m"
    using m ok r by (simp add: arr_simps seg_ok_def)
  ultimately show "\<exists>m. arr_get (seg_data s) (seg_read s) = Some m \<and> seg_items s = m # seg_items s'"
    by blast
qed

lemma seg_rewind:
  assumes "seg_ok s" "seg_read s = seg_write s"
  shows "seg_ok (s\<lparr>seg_read := 0, seg_write := 0\<rparr>)" "seg_items (s\<lparr>seg_read := 0, seg_write := 0\<rparr>) = []"
    "seg_items s = []"
  using assms by (auto simp: seg_ok_def seg_items_def)

lemma seg_advance_correct:
  assumes ok: "seg_ok s" and r: "seg_read s < seg_write s"
  shows "seg_ok (seg_advance b s) \<and> seg_next (seg_advance b s) = seg_next s
    \<and> (\<not> b \<longrightarrow> seg_write (seg_advance b s) = seg_write s)
    \<and> (\<exists>m. arr_get (seg_data s) (seg_read s) = Some m \<and> seg_items s = m # seg_items (seg_advance b s))"
proof -
  let ?s1 = "s\<lparr>seg_data := arr_set (seg_data s) (seg_read s) None, seg_read := seg_read s + 1\<rparr>"
  have ok1: "seg_ok ?s1" by (rule seg_pop(1) [OF ok r])
  have "seg_items (seg_advance b s) = seg_items ?s1" "seg_ok (seg_advance b s)"
    using seg_rewind [OF ok1] ok1 by (auto simp: seg_advance_def Let_def)
  then show ?thesis using seg_pop(2) [OF ok r] by (auto simp: seg_advance_def Let_def)
qed

section \<open>Invariant and abstraction\<close>

definition sg_refs :: "'m SegmentedMailbox \<Rightarrow> nat list" where
  "sg_refs q = walk (sg_fresh q) (\<lambda>r. seg_next (sg_heap q r)) (Some (sg_head q))"

definition sg_base :: "'m SegmentedMailbox \<Rightarrow> nat list \<Rightarrow> bool" where
  "sg_base q rs \<longleftrightarrow>
     chain (\<lambda>r. seg_next (sg_heap q r)) (Some (sg_head q)) rs \<and>
     rs \<noteq> [] \<and> last rs = sg_tail q \<and> distinct rs \<and> set rs \<subseteq> {..<sg_fresh q} \<and>
     (\<forall>r \<in> set rs. seg_ok (sg_heap q r)) \<and>
     (\<forall>r \<in> set (butlast rs). seg_write (sg_heap q r) = SEGMENT_SIZE) \<and>
     (\<forall>s. sg_spare q = Some s \<longrightarrow>
        s \<notin> set rs \<and> s < sg_fresh q \<and> seg_ok (sg_heap q s) \<and> seg_items (sg_heap q s) = [] \<and>
        seg_write (sg_heap q s) = 0 \<and> seg_next (sg_heap q s) = None) \<and>
     sg_size q = length (concat (map (\<lambda>r. seg_items (sg_heap q r)) rs))"

text \<open>Behind the head, no segment is drained; a disposed mailbox holds nothing.\<close>

definition sg_rep :: "'m SegmentedMailbox \<Rightarrow> nat list \<Rightarrow> bool" where
  "sg_rep q rs \<longleftrightarrow>
     sg_base q rs \<and> (\<forall>r \<in> set (tl rs). seg_read (sg_heap q r) < seg_write (sg_heap q r)) \<and>
     (sg_disposed q \<longrightarrow> sg_size q = 0)"

definition sg_inv :: "'m SegmentedMailbox \<Rightarrow> bool" where
  "sg_inv q \<longleftrightarrow> sg_rep q (sg_refs q)"

definition sg_items :: "'m SegmentedMailbox \<Rightarrow> nat list \<Rightarrow> 'm list" where
  "sg_items q rs = concat (map (\<lambda>r. seg_items (sg_heap q r)) rs)"

definition sg_abs :: "'m SegmentedMailbox \<Rightarrow> 'm fifo" where
  "sg_abs q = \<lparr>items = sg_items q (sg_refs q), gone = sg_disposed q\<rparr>"

lemma sg_rep_refs: "sg_rep q rs \<Longrightarrow> sg_refs q = rs"
  unfolding sg_rep_def sg_base_def sg_refs_def
  by (intro walk_chain) (auto intro: length_bounded_refs)

lemma sg_invI: "sg_rep q rs \<Longrightarrow> sg_inv q"
  by (simp add: sg_inv_def sg_rep_refs)

lemma sg_abs_rep: "sg_rep q rs \<Longrightarrow> sg_abs q = \<lparr>items = sg_items q rs, gone = sg_disposed q\<rparr>"
  by (simp add: sg_abs_def sg_rep_refs)

lemma gone_sg_abs [simp]: "gone (sg_abs q) = sg_disposed q"
  by (simp add: sg_abs_def)

lemma sg_rep_size: "sg_rep q rs \<Longrightarrow> sg_size q = length (sg_items q rs)"
  by (simp add: sg_rep_def sg_base_def sg_items_def)

lemma chain_heap_upd:
  "seg_next s = seg_next (h t) \<Longrightarrow>
     (\<lambda>r. seg_next (if r = t then s else h r)) = (\<lambda>r. seg_next (h r))"
  by auto

lemma items_upd_notin [simp]:
  "t \<notin> set rs \<Longrightarrow> map (\<lambda>r. seg_items (if r = t then s else h r)) rs = map (\<lambda>r. seg_items (h r)) rs"
  by (induction rs) auto

section \<open>Enqueue\<close>

lemma sg_put_rep:
  assumes base: "sg_base q rs" and live: "\<not> sg_disposed q"
    and full: "\<forall>r \<in> set (butlast (tl rs)). seg_read (sg_heap q r) < seg_write (sg_heap q r)"
    and w: "seg_write (sg_heap q (sg_tail q)) < SEGMENT_SIZE"
  shows "sg_rep (sg_put m q) rs \<and> sg_items (sg_put m q) rs = sg_items q rs @ [m]"
proof -
  let ?t = "sg_tail q"
  obtain us where rs: "rs = us @ [?t]"
    using base unfolding sg_base_def by (metis append_butlast_last_id)
  have t: "?t \<notin> set us" using base rs by (simp add: sg_base_def)
  let ?s = "sg_heap q ?t"
  let ?s' = "?s\<lparr>seg_data := arr_set (seg_data ?s) (seg_write ?s) (Some m), seg_write := seg_write ?s + 1\<rparr>"
  have s': "seg_ok ?s'" "seg_items ?s' = seg_items ?s @ [m]"
    using seg_push [of ?s m] base rs w by (auto simp: sg_base_def)
  have put: "sg_put m q = q\<lparr>sg_heap := (sg_heap q)(?t := ?s'), sg_size := sg_size q + 1\<rparr>"
    by (simp add: sg_put_def Let_def)
  have items: "sg_items (sg_put m q) rs = sg_items q rs @ [m]"
    using t s' by (simp add: sg_items_def put rs items_upd_notin)
  have "seg_read ?s' < seg_write ?s'" using base rs by (simp add: sg_base_def seg_ok_def)
  then have "\<forall>r \<in> set (tl rs). seg_read (sg_heap (sg_put m q) r) < seg_write (sg_heap (sg_put m q) r)"
    using full t unfolding rs put by (cases us) auto
  moreover have "sg_base (sg_put m q) rs"
    using base s' t items unfolding sg_base_def put
    by (auto simp: rs chain_heap_upd sg_items_def)
  ultimately show ?thesis using items live by (simp add: sg_rep_def put)
qed

text \<open>
  Linking an empty segment \<open>seg\<close> behind a full tail, where \<open>q1\<close> is the mailbox
  after \<open>seg\<close> was taken from the spare or allocated.
\<close>

lemma sg_link_rep:
  assumes rep: "sg_rep q rs" and w: "seg_write (sg_heap q (sg_tail q)) = SEGMENT_SIZE"
    and same: "\<And>r. r \<in> set rs \<Longrightarrow> sg_heap q1 r = sg_heap q r" "sg_head q1 = sg_head q"
      "sg_size q1 = sg_size q" "sg_fresh q \<le> sg_fresh q1"
    and seg: "seg \<notin> set rs" "seg < sg_fresh q1" "seg_ok (sg_heap q1 seg)"
      "seg_items (sg_heap q1 seg) = []" "seg_next (sg_heap q1 seg) = None"
  defines "q' \<equiv> sg_link (sg_tail q) seg q1"
  shows "sg_base q' (rs @ [seg]) \<and> sg_items q' (rs @ [seg]) = sg_items q rs
    \<and> (\<forall>r \<in> set (tl rs). seg_read (sg_heap q' r) < seg_write (sg_heap q' r))"
proof -
  let ?t = "sg_tail q"
  have base: "sg_base q rs" using rep by (simp add: sg_rep_def)
  obtain us where rs: "rs = us @ [?t]"
    using base unfolding sg_base_def by (metis append_butlast_last_id)
  have t: "?t \<notin> set us" "seg \<noteq> ?t" "seg \<notin> set us" using base rs seg(1) by (auto simp: sg_base_def)
  have heap: "sg_heap q' r = (if r = ?t then (sg_heap q ?t)\<lparr>seg_next := Some seg\<rparr> else sg_heap q1 r)" for r
    using same(1) [of ?t] rs by (simp add: q'_def sg_link_def)
  have same_us: "sg_heap q' r = sg_heap q r" if "r \<in> set us" for r
    using that t rs same(1) [of r] heap by auto
  have at_t: "sg_heap q' ?t = (sg_heap q ?t)\<lparr>seg_next := Some seg\<rparr>" by (simp add: heap)
  have at_seg: "sg_heap q' seg = sg_heap q1 seg" using t by (simp add: heap)
  have items: "sg_items q' (rs @ [seg]) = sg_items q rs"
    using seg(4) by (simp add: sg_items_def rs at_t at_seg same_us cong: map_cong)
  have "chain (\<lambda>r. seg_next (sg_heap q' r)) (Some (sg_head q)) (us @ [?t, seg])"
  proof (rule chain_snoc)
    show "chain (\<lambda>r. seg_next (sg_heap q r)) (Some (sg_head q)) (us @ [?t])"
      using base rs by (simp add: sg_base_def)
  qed (use base rs t seg in \<open>auto simp: sg_base_def same_us at_t at_seg\<close>)
  then have ch: "chain (\<lambda>r. seg_next (sg_heap q' r)) (Some (sg_head q')) (rs @ [seg])"
    using same(2) by (simp add: rs q'_def sg_link_def)
  have ok: "\<forall>r \<in> set (rs @ [seg]). seg_ok (sg_heap q' r)"
    using base seg(3) unfolding rs by (auto simp: sg_base_def same_us at_t at_seg rs)
  have full: "\<forall>r \<in> set (butlast (rs @ [seg])). seg_write (sg_heap q' r) = SEGMENT_SIZE"
    using base w unfolding rs by (auto simp: sg_base_def same_us at_t rs butlast_append)
  have refs: "distinct (rs @ [seg])" "set (rs @ [seg]) \<subseteq> {..<sg_fresh q'}"
    using base seg same(4) by (auto simp: sg_base_def q'_def sg_link_def)
  have size: "sg_size q' = length (sg_items q' (rs @ [seg]))"
    using sg_rep_size [OF rep] items same(3) by (simp add: q'_def sg_link_def)
  have "sg_base q' (rs @ [seg])"
    unfolding sg_base_def using ch ok full refs size by (simp add: q'_def sg_link_def sg_items_def)
  moreover have "\<forall>r \<in> set (tl rs). seg_read (sg_heap q' r) < seg_write (sg_heap q' r)"
  proof
    fix r assume r: "r \<in> set (tl rs)"
    then have "seg_read (sg_heap q r) < seg_write (sg_heap q r)"
      using rep by (simp add: sg_rep_def)
    moreover have "r \<in> set us \<or> r = ?t" using r rs by (cases us) auto
    ultimately show "seg_read (sg_heap q' r) < seg_write (sg_heap q' r)"
      by (auto simp: same_us at_t)
  qed
  ultimately show ?thesis using items by blast
qed

lemma sg_roll_rep:
  assumes rep: "sg_rep q rs" and w: "seg_write (sg_heap q (sg_tail q)) = SEGMENT_SIZE"
  shows "\<exists>seg. sg_base (sg_roll q) (rs @ [seg]) \<and> sg_items (sg_roll q) (rs @ [seg]) = sg_items q rs
    \<and> (\<forall>r \<in> set (tl rs). seg_read (sg_heap (sg_roll q) r) < seg_write (sg_heap (sg_roll q) r))
    \<and> sg_disposed (sg_roll q) = sg_disposed q
    \<and> seg_write (sg_heap (sg_roll q) (sg_tail (sg_roll q))) = 0"
proof (cases "sg_spare q")
  case None
  let ?q = "snd (sg_alloc q)"
  have f: "sg_fresh q \<notin> set rs" "sg_tail q \<noteq> sg_fresh q"
    using rep last_in_set [of rs] by (auto simp: sg_rep_def sg_base_def)
  have roll: "sg_roll q = sg_link (sg_tail q) (sg_fresh q) ?q"
    using None w by (simp add: sg_roll_def sg_alloc_def)
  have "seg_write (sg_heap (sg_roll q) (sg_tail (sg_roll q))) = 0"
    "sg_disposed (sg_roll q) = sg_disposed q"
    using f(2) by (auto simp: roll sg_link_def sg_alloc_def new_Segment_def)
  moreover have "sg_base (sg_roll q) (rs @ [sg_fresh q])
    \<and> sg_items (sg_roll q) (rs @ [sg_fresh q]) = sg_items q rs
    \<and> (\<forall>r \<in> set (tl rs). seg_read (sg_heap (sg_roll q) r) < seg_write (sg_heap (sg_roll q) r))"
    unfolding roll
    by (rule sg_link_rep [OF rep w]) (use f in \<open>auto simp: sg_alloc_def new_Segment_def [symmetric]\<close>,
        auto simp: new_Segment_def)
  ultimately show ?thesis by blast
next
  case (Some s)
  then have s: "s \<notin> set rs" "s < sg_fresh q" "seg_ok (sg_heap q s)" "seg_items (sg_heap q s) = []"
    "seg_next (sg_heap q s) = None" "seg_write (sg_heap q s) = 0" "s \<noteq> sg_tail q"
    using rep last_in_set [of rs] by (auto simp: sg_rep_def sg_base_def)
  have roll: "sg_roll q = sg_link (sg_tail q) s q"
    using Some w by (simp add: sg_roll_def)
  have "seg_write (sg_heap (sg_roll q) (sg_tail (sg_roll q))) = 0"
    "sg_disposed (sg_roll q) = sg_disposed q"
    using s by (auto simp: roll sg_link_def)
  moreover have "sg_base (sg_roll q) (rs @ [s]) \<and> sg_items (sg_roll q) (rs @ [s]) = sg_items q rs
    \<and> (\<forall>r \<in> set (tl rs). seg_read (sg_heap (sg_roll q) r) < seg_write (sg_heap (sg_roll q) r))"
    unfolding roll by (rule sg_link_rep [OF rep w]) (use s in auto)
  ultimately show ?thesis by blast
qed

lemma sg_enqueue_rep:
  assumes rep: "sg_rep q rs" and live: "\<not> sg_disposed q"
  shows "\<exists>rs'. sg_rep (snd (sg_enqueue m q)) rs' \<and> \<not> sg_disposed (snd (sg_enqueue m q))
    \<and> sg_items (snd (sg_enqueue m q)) rs' = sg_items q rs @ [m]"
proof (cases "seg_write (sg_heap q (sg_tail q)) = SEGMENT_SIZE")
  case True
  have put: "sg_disposed (sg_put m p) = sg_disposed p" for p by (simp add: sg_put_def Let_def)
  from sg_roll_rep [OF rep True] obtain seg where
    r: "sg_base (sg_roll q) (rs @ [seg])" "sg_items (sg_roll q) (rs @ [seg]) = sg_items q rs"
      "\<forall>r \<in> set (tl rs). seg_read (sg_heap (sg_roll q) r) < seg_write (sg_heap (sg_roll q) r)"
      "sg_disposed (sg_roll q) = sg_disposed q"
      "seg_write (sg_heap (sg_roll q) (sg_tail (sg_roll q))) = 0" by blast
  have "butlast (tl (rs @ [seg])) = tl rs"
    using rep by (cases rs) (auto simp: sg_rep_def sg_base_def)
  then show ?thesis
    using sg_put_rep [OF r(1), of m] r live put
    by (intro exI [of _ "rs @ [seg]"]) (simp add: sg_enqueue_def SEGMENT_SIZE_def)
next
  case False
  have base: "sg_base q rs" using rep by (simp add: sg_rep_def)
  have "seg_ok (sg_heap q (sg_tail q))"
    using base last_in_set [of rs] by (auto simp: sg_base_def)
  with False have w: "seg_write (sg_heap q (sg_tail q)) < SEGMENT_SIZE" by (auto simp: seg_ok_def)
  have full: "\<forall>r \<in> set (butlast (tl rs)). seg_read (sg_heap q r) < seg_write (sg_heap q r)"
    using rep by (meson in_set_butlastD sg_rep_def)
  show ?thesis
    using sg_put_rep [OF base live full w, of m] False live
    by (intro exI [of _ rs]) (simp add: sg_enqueue_def sg_roll_def sg_put_def Let_def)
qed

section \<open>Dequeue\<close>

lemma sg_take_rep:
  assumes rep: "sg_rep q (h # rs)" and r: "seg_read (sg_heap q h) < seg_write (sg_heap q h)"
  shows "\<exists>m. fst (sg_take h q) = Some m \<and> sg_rep (snd (sg_take h q)) (h # rs)
    \<and> sg_items q (h # rs) = m # sg_items (snd (sg_take h q)) (h # rs)
    \<and> sg_disposed (snd (sg_take h q)) = sg_disposed q"
proof -
  let ?s2 = "seg_advance (h = sg_tail q) (sg_heap q h)"
  have base: "sg_base q (h # rs)" and h: "h \<notin> set rs" using rep by (auto simp: sg_rep_def sg_base_def)
  have ok: "seg_ok (sg_heap q h)" using base by (simp add: sg_base_def)
  note adv = seg_advance_correct [OF ok r, of "h = sg_tail q"]
  obtain m where m: "arr_get (seg_data (sg_heap q h)) (seg_read (sg_heap q h)) = Some m"
    "seg_items (sg_heap q h) = m # seg_items ?s2" using adv by blast
  have w2: "seg_write ?s2 = seg_write (sg_heap q h)" if "rs \<noteq> []"
  proof -
    have "h \<noteq> sg_tail q" using base that h last_in_set [OF that] by (auto simp: sg_base_def)
    then show ?thesis using adv by simp
  qed
  have take: "sg_take h q = (Some m, q\<lparr>sg_heap := (sg_heap q)(h := ?s2), sg_size := sg_size q - 1\<rparr>)"
    using m by (simp add: sg_take_def Let_def)
  have items: "sg_items q (h # rs) = m # sg_items (snd (sg_take h q)) (h # rs)"
    using h m unfolding take by (simp add: sg_items_def)
  have size: "sg_size (snd (sg_take h q)) = length (sg_items (snd (sg_take h q)) (h # rs))"
    using sg_rep_size [OF rep] items unfolding take by simp
  have ch: "chain (\<lambda>r. seg_next (sg_heap (snd (sg_take h q)) r)) (Some (sg_head q)) (h # rs)"
    using base chain_heap_upd [of ?s2 "sg_heap q" h] adv unfolding take by (simp add: sg_base_def)
  have full: "\<forall>r \<in> set (butlast (h # rs)). seg_write (sg_heap (snd (sg_take h q)) r) = SEGMENT_SIZE"
    using base w2 h unfolding take sg_base_def by (cases "rs = []") (auto dest: in_set_butlastD)
  have "sg_base (snd (sg_take h q)) (h # rs)"
    using base adv h size ch full unfolding sg_base_def take
    by (simp add: sg_items_def)
  moreover have "\<forall>r \<in> set rs. seg_read (sg_heap (snd (sg_take h q)) r) < seg_write (sg_heap (snd (sg_take h q)) r)"
    using rep h unfolding take by (auto simp: sg_rep_def)
  ultimately show ?thesis
    using rep m items unfolding sg_rep_def take by simp
qed

text \<open>One turn of the loop: the drained head is emptied, kept as the spare, and left behind.\<close>

definition sg_recycle :: "nat \<Rightarrow> nat \<Rightarrow> 'm SegmentedMailbox \<Rightarrow> 'm SegmentedMailbox" where
  "sg_recycle seg nx q =
     q\<lparr>sg_heap := (sg_heap q)(seg := (sg_heap q seg)\<lparr>seg_read := 0, seg_write := 0, seg_next := None\<rparr>),
       sg_spare := (case sg_spare q of None \<Rightarrow> Some seg | Some x \<Rightarrow> Some x),
       sg_head := nx\<rparr>"

lemma sg_recycle_rep:
  assumes rep: "sg_rep q (h # r # rs)" and d: "seg_read (sg_heap q h) = seg_write (sg_heap q h)"
  shows "sg_rep (sg_recycle h r q) (r # rs)
    \<and> sg_items (sg_recycle h r q) (r # rs) = sg_items q (h # r # rs)"
proof -
  let ?q = "sg_recycle h r q"
  have base: "sg_base q (h # r # rs)" and h: "h \<notin> set (r # rs)"
    using rep by (auto simp: sg_rep_def sg_base_def)
  have "seg_ok (sg_heap q h)" using base by (simp add: sg_base_def)
  note empty = seg_rewind [OF this d]
  have same: "sg_heap ?q x = sg_heap q x" if "x \<in> set (r # rs)" for x
    using that h by (auto simp: sg_recycle_def)
  have items: "sg_items ?q (r # rs) = sg_items q (h # r # rs)"
    using empty(3) h by (simp add: sg_items_def same cong: map_cong)
  have "chain (\<lambda>x. seg_next (sg_heap q x)) (Some r) (r # rs)" using base by (simp add: sg_base_def)
  moreover have "chain (\<lambda>x. seg_next (sg_heap ?q x)) (Some r) (r # rs)
      = chain (\<lambda>x. seg_next (sg_heap q x)) (Some r) (r # rs)"
    by (rule chain_cong) (simp only: same)
  moreover have "sg_head ?q = r" by (simp add: sg_recycle_def)
  ultimately have "chain (\<lambda>x. seg_next (sg_heap ?q x)) (Some (sg_head ?q)) (r # rs)"
    by (simp only:)
  moreover have "sg_size ?q = length (sg_items ?q (r # rs))"
    using items sg_rep_size [OF rep] by (simp add: sg_recycle_def)
  moreover have "\<forall>s. sg_spare ?q = Some s \<longrightarrow>
        s \<notin> set (r # rs) \<and> s < sg_fresh ?q \<and> seg_ok (sg_heap ?q s) \<and> seg_items (sg_heap ?q s) = [] \<and>
        seg_write (sg_heap ?q s) = 0 \<and> seg_next (sg_heap ?q s) = None"
  proof (cases "sg_spare q")
    case None
    then show ?thesis using empty h base by (simp add: sg_recycle_def sg_base_def)
  next
    case (Some s)
    then show ?thesis using base by (auto simp: sg_recycle_def sg_base_def)
  qed
  moreover have "\<forall>x \<in> set (r # rs). seg_ok (sg_heap ?q x)"
    "\<forall>x \<in> set (butlast (r # rs)). seg_write (sg_heap ?q x) = SEGMENT_SIZE"
    "\<forall>x \<in> set rs. seg_read (sg_heap ?q x) < seg_write (sg_heap ?q x)"
    using base rep same in_set_butlastD [of _ "r # rs"] unfolding sg_base_def sg_rep_def by auto
  ultimately have "sg_rep ?q (r # rs)"
    using base rep unfolding sg_rep_def sg_base_def
    by (auto simp: sg_recycle_def sg_items_def)
  then show ?thesis using items by blast
qed

lemma sg_skip_Suc:
  "sg_skip (Suc n) seg q =
     (if seg_read (sg_heap q seg) = seg_write (sg_heap q seg)
      then (case seg_next (sg_heap q seg) of
              None \<Rightarrow> (Some None, q) | Some nx \<Rightarrow> sg_skip n nx (sg_recycle seg nx q))
      else (Some (Some seg), q))"
  by (simp add: sg_recycle_def Let_def split: option.split)

declare sg_skip.simps(2) [simp del]

text \<open>
  The loop never runs out of its bound: it stops at the head, or one segment
  later, since no other segment of the list is drained.
\<close>

lemma sg_skip_rep:
  assumes rep: "sg_rep q rs" and n: "length rs \<le> n"
  shows "(sg_skip n (sg_head q) q = (Some None, q) \<and> sg_items q rs = []) \<or>
    (\<exists>q' h rs'. sg_skip n (sg_head q) q = (Some (Some h), q') \<and> sg_rep q' (h # rs')
       \<and> sg_items q' (h # rs') = sg_items q rs \<and> sg_disposed q' = sg_disposed q
       \<and> seg_read (sg_heap q' h) < seg_write (sg_heap q' h))"
proof -
  obtain h ts where rs: "rs = h # ts" "sg_head q = h"
    using rep by (cases rs) (auto simp: sg_rep_def sg_base_def)
  obtain k where k: "n = Suc k" using n rs by (cases n) auto
  have "seg_read (sg_heap q h) \<le> seg_write (sg_heap q h)"
    using rep rs by (simp add: sg_rep_def sg_base_def seg_ok_def)
  then consider (busy) "seg_read (sg_heap q h) < seg_write (sg_heap q h)"
    | (drained) "seg_read (sg_heap q h) = seg_write (sg_heap q h)" by linarith
  then show ?thesis
  proof cases
    case busy
    then show ?thesis using rep rs by (auto simp: k sg_skip_Suc)
  next
    case drained
    show ?thesis
    proof (cases ts)
      case Nil
      then have "seg_next (sg_heap q h) = None" "sg_items q rs = []"
        using rep rs seg_rewind(3) [of "sg_heap q h"] drained
        by (auto simp: sg_rep_def sg_base_def sg_items_def)
      then show ?thesis using drained rs by (simp add: k sg_skip_Suc)
    next
      case (Cons r ts')
      let ?q = "sg_recycle h r q"
      have nx: "seg_next (sg_heap q h) = Some r"
        using rep rs Cons by (simp add: sg_rep_def sg_base_def)
      obtain j where j: "k = Suc j" using n k rs Cons by (cases k) auto
      have rep': "sg_rep ?q (r # ts')" "sg_items ?q (r # ts') = sg_items q rs"
        using sg_recycle_rep [of q h r ts'] rep drained rs Cons by auto
      have "r \<noteq> h" using rep rs Cons by (auto simp: sg_rep_def sg_base_def)
      then have busy: "seg_read (sg_heap ?q r) < seg_write (sg_heap ?q r)"
        using rep rs Cons by (simp add: sg_rep_def sg_recycle_def)
      then have "sg_skip n (sg_head q) q = (Some (Some r), ?q)"
        using drained nx rs by (simp add: k j sg_skip_Suc)
      then show ?thesis using rep' busy by (auto simp: sg_recycle_def)
    qed
  qed
qed

lemma sg_dequeue_rep:
  assumes rep: "sg_rep q rs"
  shows "(sg_dequeue q = (None, q) \<and> sg_items q rs = []) \<or>
    (\<exists>m q' rs'. sg_dequeue q = (Some m, q') \<and> sg_rep q' rs' \<and> sg_items q rs = m # sg_items q' rs'
       \<and> sg_disposed q' = sg_disposed q)"
proof -
  have "length rs \<le> sg_fresh q"
    using rep length_bounded_refs by (auto simp: sg_rep_def sg_base_def)
  from sg_skip_rep [OF rep this] show ?thesis
  proof (elim disjE exE conjE)
    fix q' h rs'
    assume "sg_skip (sg_fresh q) (sg_head q) q = (Some (Some h), q')" "sg_rep q' (h # rs')"
      "sg_items q' (h # rs') = sg_items q rs" "sg_disposed q' = sg_disposed q"
      "seg_read (sg_heap q' h) < seg_write (sg_heap q' h)"
    then show ?thesis
      using sg_take_rep [of q' h rs'] by (cases "sg_take h q'") (auto simp: sg_dequeue_def)
  qed (simp add: sg_dequeue_def)
qed

section \<open>Refinement of the reference queue\<close>

lemma sg_new_rep: "sg_rep sg_new [0]"
  by (auto simp: sg_rep_def sg_base_def sg_new_def new_Segment_def seg_ok_def seg_items_def)

lemma sg_dispose_rep:
  "sg_rep (sg_dispose q) [sg_fresh q] \<and> sg_items (sg_dispose q) [sg_fresh q] = []
     \<and> sg_disposed (sg_dispose q)"
  by (auto simp: sg_rep_def sg_base_def sg_dispose_def sg_alloc_def new_Segment_def seg_ok_def
      seg_items_def sg_items_def)

lemma sg_sim:
  assumes inv: "sg_inv q" and call: "mb_call segmented_mailbox c q = (r, q')"
  shows "sg_inv q' \<and> mb_call (fifo_spec None) c (sg_abs q) = (r, sg_abs q')"
proof -
  obtain rs where rep: "sg_rep q rs" using inv by (auto simp: sg_inv_def)
  note len = sg_rep_size [OF rep]
  have it: "items (sg_abs q) = sg_items q rs" by (simp add: sg_abs_rep [OF rep])
  note ops = segmented_mailbox_def fifo_defs sg_abs_rep [OF rep]
  show ?thesis
  proof (cases c)
    case (Enqueue m)
    show ?thesis
    proof (cases "sg_disposed q")
      case True
      then show ?thesis using Enqueue call inv by (auto simp: ops sg_enqueue_def sg_abs_rep)
    next
      case False
      obtain rs' where r: "sg_rep (snd (sg_enqueue m q)) rs'" "\<not> sg_disposed (snd (sg_enqueue m q))"
        "sg_items (snd (sg_enqueue m q)) rs' = sg_items q rs @ [m]"
        using sg_enqueue_rep [OF rep False] by blast
      have "fst (sg_enqueue m q) = None" using False by (simp add: sg_enqueue_def)
      then show ?thesis using Enqueue call False r sg_invI [OF r(1)] sg_abs_rep [OF r(1)]
        by (auto simp: ops split: prod.splits)
    qed
  next
    case Dequeue
    from sg_dequeue_rep [OF rep] show ?thesis
    proof (elim disjE exE conjE)
      fix m p rs'
      assume "sg_dequeue q = (Some m, p)" "sg_rep p rs'" "sg_items q rs = m # sg_items p rs'"
        "sg_disposed p = sg_disposed q"
      then show ?thesis using Dequeue call sg_invI [of p rs'] sg_abs_rep [of p rs']
        by (auto simp: ops)
    qed (use Dequeue call inv it in \<open>auto simp: segmented_mailbox_def fifo_defs\<close>)
  next
    case Dispose
    then show ?thesis
      using call sg_dispose_rep [of q] sg_invI [of "sg_dispose q"] sg_abs_rep [of "sg_dispose q"]
      by (auto simp: ops)
  qed (use call inv len it in \<open>auto simp: segmented_mailbox_def fifo_spec_def sg_isEmpty_def sg_len_def\<close>)
qed

interpretation sg: fifo_refinement segmented_mailbox None sg_inv sg_abs
proof unfold_locales
  fix q :: "'a SegmentedMailbox" assume "sg_inv q" "gone (sg_abs q)"
  then show "items (sg_abs q) = []"
    using sg_rep_size [of q "sg_refs q"] by (simp add: sg_inv_def sg_abs_def sg_rep_def)
qed (rule sg_sim)

section \<open>Properties\<close>

text \<open>
  C28. No sequence of calls tells the segmented mailbox from the reference FIFO
  queue: crossing a segment boundary, recycling the spare and rewinding the tail
  neither lose, duplicate nor reorder a message.
\<close>

theorem segmented_refines_fifo:
  "fst (mb_run segmented_mailbox cs sg_new) = fst (mb_run (fifo_spec None) cs fifo_new)"
proof -
  have "sg_abs sg_new = (fifo_new :: 'a fifo)"
    by (simp add: sg_abs_rep [OF sg_new_rep]) (simp add: fifo_new_def sg_items_def sg_new_def)
  then show ?thesis using sg.same_answers [OF sg_invI [OF sg_new_rep], of cs] by simp
qed

text \<open>
  The loop of \<open>dequeue\<close> that skips drained segments terminates: in every
  state a sequence of calls can reach, it stops within as many turns as segments
  were ever allocated.
\<close>

lemma segmented_skip_terminates:
  "fst (sg_skip (sg_fresh (snd (mb_run segmented_mailbox cs sg_new)))
          (sg_head (snd (mb_run segmented_mailbox cs sg_new)))
          (snd (mb_run segmented_mailbox cs sg_new))) \<noteq> None"
proof -
  let ?q = "snd (mb_run segmented_mailbox cs sg_new)"
  have "sg_inv ?q"
    using sg.run_inv [OF sg_invI [OF sg_new_rep]] by (metis surj_pair snd_conv)
  then have rep: "sg_rep ?q (sg_refs ?q)" by (simp add: sg_inv_def)
  then have "length (sg_refs ?q) \<le> sg_fresh ?q"
    using length_bounded_refs by (auto simp: sg_rep_def sg_base_def)
  from sg_skip_rep [OF rep this] show ?thesis by auto
qed

end
