(* ===== verification/FairMailbox.thy ===== *)
theory FairMailbox
  imports UnboundedMailbox
begin

text \<open>
  The fair mailbox, \<open>src/fair.mailbox.ts\<close>: one private queue per sender and an
  intrusive ring of the senders with pending messages, served one message per
  turn.  A sender's box is shared between the map of senders and the ring, so
  boxes live in an explicit store.  The reference is a list of pairs of a key and
  its queued messages; the theory shows that the pointer structure refines it,
  that every sender's messages stay in order, and that a sender cannot starve.
\<close>

section \<open>State and operations\<close>

record 'm SenderBox =
  sb_key :: jsstr
  sb_queue :: "'m UnboundedMailbox"
  sb_nextActive :: "nat option"
  sb_active :: bool

definition new_SenderBox :: "jsstr \<Rightarrow> 'm SenderBox" where
  "new_SenderBox key = \<lparr>sb_key = key, sb_queue = ub_new, sb_nextActive = None, sb_active = False\<rparr>"

record 'm FairMailbox =
  fm_heap :: "nat \<Rightarrow> 'm SenderBox"
  fm_fresh :: nat
  fm_senders :: "jsstr \<Rightarrow> nat option"
  fm_activeHead :: "nat option"
  fm_activeTail :: "nat option"
  fm_size :: nat
  fm_disposed :: bool

definition fm_new :: "'m FairMailbox" where
  "fm_new = \<lparr>fm_heap = (\<lambda>_. new_SenderBox []), fm_fresh = 0, fm_senders = Map.empty,
             fm_activeHead = None, fm_activeTail = None, fm_size = 0, fm_disposed = False\<rparr>"

definition fm_pushActive :: "nat \<Rightarrow> 'm FairMailbox \<Rightarrow> 'm FairMailbox" where
  "fm_pushActive box q =
     (let h = (fm_heap q)(box := (fm_heap q box)\<lparr>sb_nextActive := None\<rparr>) in
      case fm_activeTail q of
        None \<Rightarrow> q\<lparr>fm_heap := h, fm_activeHead := Some box, fm_activeTail := Some box\<rparr>
      | Some t \<Rightarrow> q\<lparr>fm_heap := h(t := (h t)\<lparr>sb_nextActive := Some box\<rparr>), fm_activeTail := Some box\<rparr>)"

definition fm_popActive :: "'m FairMailbox \<Rightarrow> nat option \<times> 'm FairMailbox" where
  "fm_popActive q =
     (case fm_activeHead q of
        None \<Rightarrow> (None, q)
      | Some box \<Rightarrow>
          let hd' = sb_nextActive (fm_heap q box) in
          (Some box,
           q\<lparr>fm_activeHead := hd',
             fm_activeTail := (if hd' = None then None else fm_activeTail q),
             fm_heap := (fm_heap q)(box := (fm_heap q box)\<lparr>sb_nextActive := None\<rparr>)\<rparr>))"

definition fm_box :: "jsstr \<Rightarrow> 'm FairMailbox \<Rightarrow> nat \<times> 'm FairMailbox" where
  "fm_box key q =
     (case fm_senders q key of
        Some box \<Rightarrow> (box, q)
      | None \<Rightarrow>
          (fm_fresh q,
           q\<lparr>fm_heap := (fm_heap q)(fm_fresh q := new_SenderBox key), fm_fresh := fm_fresh q + 1,
             fm_senders := (fm_senders q)(key \<mapsto> fm_fresh q)\<rparr>))"

definition fm_enqueue ::
  "('m \<Rightarrow> jsstr) \<Rightarrow> 'm \<Rightarrow> 'm FairMailbox \<Rightarrow> MailboxError option \<times> 'm FairMailbox" where
  "fm_enqueue senderKeyOf m q =
     (if fm_disposed q then (Some ErrMailboxDisposed, q)
      else
        let (box, q1) = fm_box (senderKeyOf m) q;
            b = fm_heap q1 box;
            b1 = b\<lparr>sb_queue := snd (ub_enqueue m (sb_queue b))\<rparr>;
            q2 = q1\<lparr>fm_heap := (fm_heap q1)(box := b1), fm_size := fm_size q1 + 1\<rparr>
        in (None,
            if sb_active b1 then q2
            else fm_pushActive box (q2\<lparr>fm_heap := (fm_heap q2)(box := b1\<lparr>sb_active := True\<rparr>)\<rparr>)))"

definition fm_dequeue :: "'m FairMailbox \<Rightarrow> 'm option \<times> 'm FairMailbox" where
  "fm_dequeue q =
     (case fm_popActive q of
        (None, q1) \<Rightarrow> (None, q1)
      | (Some box, q1) \<Rightarrow>
          let b = fm_heap q1 box;
              (msg, queue) = ub_dequeue (sb_queue b);
              b1 = b\<lparr>sb_queue := queue\<rparr>;
              q2 = q1\<lparr>fm_heap := (fm_heap q1)(box := b1), fm_size := fm_size q1 - 1\<rparr>
          in (msg,
              if ub_isEmpty queue
              then q2\<lparr>fm_heap := (fm_heap q2)(box := b1\<lparr>sb_active := False\<rparr>),
                      fm_senders := (fm_senders q2)(sb_key b1 := None)\<rparr>
              else fm_pushActive box q2))"

definition fm_isEmpty :: "'m FairMailbox \<Rightarrow> bool" where
  "fm_isEmpty q = (fm_size q = 0)"

definition fm_len :: "'m FairMailbox \<Rightarrow> nat" where
  "fm_len q = fm_size q"

definition fm_dispose :: "'m FairMailbox \<Rightarrow> 'm FairMailbox" where
  "fm_dispose q =
     q\<lparr>fm_disposed := True, fm_senders := Map.empty, fm_activeHead := None, fm_activeTail := None,
       fm_size := 0\<rparr>"

definition fair_mailbox :: "('m \<Rightarrow> jsstr) \<Rightarrow> ('m, 'm FairMailbox) Mailbox" where
  "fair_mailbox senderKeyOf =
     \<lparr>mb_enqueue = fm_enqueue senderKeyOf, mb_dequeue = fm_dequeue, mb_isEmpty = fm_isEmpty,
      mb_len = fm_len, mb_dispose = fm_dispose\<rparr>"

section \<open>The reference: round robin over a list\<close>

record 'm rr =
  boxes :: "(jsstr \<times> 'm list) list"
  rr_gone :: bool

fun rr_add :: "jsstr \<Rightarrow> 'm \<Rightarrow> (jsstr \<times> 'm list) list \<Rightarrow> (jsstr \<times> 'm list) list" where
  "rr_add k m [] = [(k, [m])]"
| "rr_add k m ((k', ms) # bs) = (if k = k' then (k, ms @ [m]) # bs else (k', ms) # rr_add k m bs)"

fun rr_turn :: "(jsstr \<times> 'm list) list \<Rightarrow> 'm option \<times> (jsstr \<times> 'm list) list" where
  "rr_turn ((k, m # ms) # bs) = (Some m, if ms = [] then bs else bs @ [(k, ms)])"
| "rr_turn bs = (None, bs)"

definition rr_enqueue :: "('m \<Rightarrow> jsstr) \<Rightarrow> 'm \<Rightarrow> 'm rr \<Rightarrow> MailboxError option \<times> 'm rr" where
  "rr_enqueue key m q =
     (if rr_gone q then (Some ErrMailboxDisposed, q)
      else (None, q\<lparr>boxes := rr_add (key m) m (boxes q)\<rparr>))"

definition rr_dequeue :: "'m rr \<Rightarrow> 'm option \<times> 'm rr" where
  "rr_dequeue q = (let (r, bs) = rr_turn (boxes q) in (r, q\<lparr>boxes := bs\<rparr>))"

definition rr_len :: "'m rr \<Rightarrow> nat" where
  "rr_len q = length (concat (map snd (boxes q)))"

definition rr_spec :: "('m \<Rightarrow> jsstr) \<Rightarrow> ('m, 'm rr) Mailbox" where
  "rr_spec key =
     \<lparr>mb_enqueue = rr_enqueue key, mb_dequeue = rr_dequeue, mb_isEmpty = (\<lambda>q. rr_len q = 0),
      mb_len = rr_len, mb_dispose = (\<lambda>q. \<lparr>boxes = [], rr_gone = True\<rparr>)\<rparr>"

definition rr_new :: "'m rr" where
  "rr_new = \<lparr>boxes = [], rr_gone = False\<rparr>"

lemmas rr_defs = rr_spec_def rr_enqueue_def rr_dequeue_def rr_new_def

section \<open>Invariant and abstraction\<close>

definition fm_refs :: "'m FairMailbox \<Rightarrow> nat list" where
  "fm_refs q = walk (fm_fresh q) (\<lambda>r. sb_nextActive (fm_heap q r)) (fm_activeHead q)"

definition box_ok :: "'m FairMailbox \<Rightarrow> nat \<Rightarrow> bool" where
  "box_ok q r \<longleftrightarrow>
     sb_active (fm_heap q r) \<and> fm_senders q (sb_key (fm_heap q r)) = Some r \<and>
     ub_inv (sb_queue (fm_heap q r)) \<and> \<not> ub_disposed (sb_queue (fm_heap q r)) \<and>
     ub_contents (sb_queue (fm_heap q r)) \<noteq> []"

definition box_pair :: "'m SenderBox \<Rightarrow> jsstr \<times> 'm list" where
  "box_pair b = (sb_key b, ub_contents (sb_queue b))"

definition fm_boxes :: "'m FairMailbox \<Rightarrow> nat list \<Rightarrow> (jsstr \<times> 'm list) list" where
  "fm_boxes q rs = map (\<lambda>r. box_pair (fm_heap q r)) rs"

definition fm_rep :: "'m FairMailbox \<Rightarrow> nat list \<Rightarrow> bool" where
  "fm_rep q rs \<longleftrightarrow>
     chain (\<lambda>r. sb_nextActive (fm_heap q r)) (fm_activeHead q) rs \<and>
     fm_activeTail q = (if rs = [] then None else Some (last rs)) \<and>
     distinct rs \<and> set rs \<subseteq> {..<fm_fresh q} \<and> (\<forall>r \<in> set rs. box_ok q r) \<and>
     (\<forall>k r. fm_senders q k = Some r \<longrightarrow> r \<in> set rs \<and> sb_key (fm_heap q r) = k) \<and>
     fm_size q = length (concat (map snd (fm_boxes q rs))) \<and>
     (fm_disposed q \<longrightarrow> rs = [])"

definition fm_inv :: "'m FairMailbox \<Rightarrow> bool" where
  "fm_inv q \<longleftrightarrow> fm_rep q (fm_refs q)"

definition fm_abs :: "'m FairMailbox \<Rightarrow> 'm rr" where
  "fm_abs q = \<lparr>boxes = fm_boxes q (fm_refs q), rr_gone = fm_disposed q\<rparr>"

lemma fm_rep_refs: "fm_rep q rs \<Longrightarrow> fm_refs q = rs"
  unfolding fm_rep_def fm_refs_def by (intro walk_chain) (auto intro: length_bounded_refs)

lemma fm_invI: "fm_rep q rs \<Longrightarrow> fm_inv q"
  by (simp add: fm_inv_def fm_rep_refs)

lemma fm_abs_rep: "fm_rep q rs \<Longrightarrow> fm_abs q = \<lparr>boxes = fm_boxes q rs, rr_gone = fm_disposed q\<rparr>"
  by (simp add: fm_abs_def fm_rep_refs)

lemma fm_rep_size: "fm_rep q rs \<Longrightarrow> fm_size q = length (concat (map snd (fm_boxes q rs)))"
  by (simp add: fm_rep_def)

lemma fm_boxes_append: "fm_boxes q (rs @ ss) = fm_boxes q rs @ fm_boxes q ss"
  by (simp add: fm_boxes_def)

lemma fm_boxes_cong: "(\<And>r. r \<in> set rs \<Longrightarrow> box_pair (fm_heap q r) = box_pair (fm_heap q' r)) \<Longrightarrow>
    fm_boxes q rs = fm_boxes q' rs"
  by (simp add: fm_boxes_def)

section \<open>The active ring\<close>

lemma fm_pushActive_fields [simp]:
  "sb_key (fm_heap (fm_pushActive box q) r) = sb_key (fm_heap q r)"
  "sb_queue (fm_heap (fm_pushActive box q) r) = sb_queue (fm_heap q r)"
  "sb_active (fm_heap (fm_pushActive box q) r) = sb_active (fm_heap q r)"
  "fm_senders (fm_pushActive box q) = fm_senders q" "fm_fresh (fm_pushActive box q) = fm_fresh q"
  "fm_size (fm_pushActive box q) = fm_size q" "fm_disposed (fm_pushActive box q) = fm_disposed q"
  "fm_activeTail (fm_pushActive box q) = Some box"
  by (auto simp: fm_pushActive_def Let_def split: option.split)

lemma fm_boxes_pushActive [simp]: "fm_boxes (fm_pushActive box q) rs = fm_boxes q rs"
  by (rule fm_boxes_cong) (simp add: box_pair_def)

lemma box_ok_pushActive [simp]: "box_ok (fm_pushActive box q) r = box_ok q r"
  by (simp add: box_ok_def)

lemma fm_pushActive_chain:
  assumes ch: "chain (\<lambda>r. sb_nextActive (fm_heap q r)) (fm_activeHead q) rs"
    and tail: "fm_activeTail q = (if rs = [] then None else Some (last rs))"
    and d: "distinct rs" "box \<notin> set rs"
  shows "chain (\<lambda>r. sb_nextActive (fm_heap (fm_pushActive box q) r))
      (fm_activeHead (fm_pushActive box q)) (rs @ [box])"
proof (cases rs rule: rev_cases)
  case Nil
  then show ?thesis using tail by (simp add: fm_pushActive_def)
next
  case (snoc us t)
  have t: "fm_activeTail q = Some t" using tail snoc by simp
  have "chain (\<lambda>r. sb_nextActive (fm_heap (fm_pushActive box q) r)) (fm_activeHead q) (us @ [t, box])"
  proof (rule chain_snoc)
    show "chain (\<lambda>r. sb_nextActive (fm_heap q r)) (fm_activeHead q) (us @ [t])" using ch snoc by simp
  qed (use d t snoc in \<open>auto simp: fm_pushActive_def Let_def\<close>)
  moreover have "fm_activeHead (fm_pushActive box q) = fm_activeHead q"
    using t by (simp add: fm_pushActive_def Let_def)
  ultimately show ?thesis using snoc by simp
qed

section \<open>Enqueue\<close>

lemma rr_add_new: "k \<notin> fst ` set bs \<Longrightarrow> rr_add k m bs = bs @ [(k, [m])]"
  by (induction bs) auto

lemma rr_add_at:
  assumes "distinct (map fst (us @ (k, ms) # vs))"
  shows "rr_add k m (us @ (k, ms) # vs) = us @ (k, ms @ [m]) # vs"
  using assms by (induction us) auto

lemma fm_rep_keys: "fm_rep q rs \<Longrightarrow> distinct (map fst (fm_boxes q rs))"
proof -
  assume rep: "fm_rep q rs"
  have "inj_on (\<lambda>r. sb_key (fm_heap q r)) (set rs)"
    using rep by (intro inj_onI) (metis box_ok_def fm_rep_def option.inject)
  then show ?thesis
    using rep by (simp add: fm_boxes_def box_pair_def distinct_map fm_rep_def comp_def)
qed

lemma fm_enqueue_known:
  assumes rep: "fm_rep q rs" and live: "\<not> fm_disposed q" and box: "fm_senders q (key m) = Some box"
  shows "fm_rep (snd (fm_enqueue key m q)) rs
    \<and> fm_boxes (snd (fm_enqueue key m q)) rs = rr_add (key m) m (fm_boxes q rs)"
proof -
  let ?b = "fm_heap q box"
  let ?b1 = "?b\<lparr>sb_queue := snd (ub_enqueue m (sb_queue ?b))\<rparr>"
  let ?q = "q\<lparr>fm_heap := (fm_heap q)(box := ?b1), fm_size := fm_size q + 1\<rparr>"
  have mem: "box \<in> set rs" "sb_key ?b = key m" "box_ok q box"
    using rep box by (auto simp: fm_rep_def)
  have ub: "ub_inv (sb_queue ?b1)" "ub_contents (sb_queue ?b1) = ub_contents (sb_queue ?b) @ [m]"
    "\<not> ub_disposed (sb_queue ?b1)"
    using ub_enqueue_correct [of "sb_queue ?b" m] mem(3) by (auto simp: box_ok_def)
  have e: "snd (fm_enqueue key m q) = ?q"
    using live box mem(3) by (simp add: fm_enqueue_def fm_box_def box_ok_def Let_def)
  obtain us vs where rs: "rs = us @ box # vs" using mem(1) by (meson split_list)
  have nin: "box \<notin> set us" "box \<notin> set vs" using rep rs by (auto simp: fm_rep_def)
  have old: "fm_boxes q rs = fm_boxes q us @ (key m, ub_contents (sb_queue ?b)) # fm_boxes q vs"
    by (simp add: rs fm_boxes_def box_pair_def mem(2))
  have "fm_boxes ?q us = fm_boxes q us" "fm_boxes ?q vs = fm_boxes q vs"
    using nin by (auto intro!: fm_boxes_cong)
  then have new: "fm_boxes ?q rs = fm_boxes q us @ (key m, ub_contents (sb_queue ?b) @ [m]) # fm_boxes q vs"
    using ub(2) by (simp add: rs fm_boxes_def box_pair_def mem(2))
  have add: "fm_boxes ?q rs = rr_add (key m) m (fm_boxes q rs)"
    using rr_add_at [of "fm_boxes q us" "key m" _ "fm_boxes q vs" m] fm_rep_keys [OF rep]
    unfolding old new by simp
  have ch: "(\<lambda>r. sb_nextActive (fm_heap ?q r)) = (\<lambda>r. sb_nextActive (fm_heap q r))" by auto
  have ok: "box_ok ?q r" if "r \<in> set rs" for r
    using rep that ub mem by (cases "r = box") (auto simp: box_ok_def fm_rep_def)
  have size: "fm_size ?q = length (concat (map snd (fm_boxes ?q rs)))"
    using fm_rep_size [OF rep] unfolding new old by simp
  have "fm_rep ?q rs"
    using rep ok size live unfolding fm_rep_def ch by (auto simp: fm_rep_def)
  then show ?thesis using add by (simp add: e)
qed

lemma fm_enqueue_unknown:
  assumes rep: "fm_rep q rs" and live: "\<not> fm_disposed q" and none: "fm_senders q (key m) = None"
  shows "fm_rep (snd (fm_enqueue key m q)) (rs @ [fm_fresh q])
    \<and> fm_boxes (snd (fm_enqueue key m q)) (rs @ [fm_fresh q]) = rr_add (key m) m (fm_boxes q rs)"
proof -
  let ?n = "fm_fresh q"
  let ?b = "(new_SenderBox (key m))\<lparr>sb_queue := snd (ub_enqueue m ub_new), sb_active := True\<rparr>"
  let ?q = "q\<lparr>fm_fresh := ?n + 1, fm_senders := (fm_senders q)(key m \<mapsto> ?n),
      fm_size := fm_size q + 1, fm_heap := (fm_heap q)(?n := ?b)\<rparr>"
  have e: "snd (fm_enqueue key m q) = fm_pushActive ?n ?q"
    using live none by (simp add: fm_enqueue_def fm_box_def new_SenderBox_def Let_def)
  have ub: "ub_inv (sb_queue ?b)" "ub_contents (sb_queue ?b) = [m]" "\<not> ub_disposed (sb_queue ?b)"
    using ub_enqueue_correct [of ub_new m] ub_new_inv
    by (auto simp: ub_new_def ub_contents_def)
  have n: "?n \<notin> set rs" using rep by (auto simp: fm_rep_def)
  have knew: "key m \<noteq> sb_key (fm_heap q r)" if "r \<in> set rs" for r
  proof -
    have "box_ok q r" using rep that by (simp add: fm_rep_def)
    then have "fm_senders q (sb_key (fm_heap q r)) = Some r" by (simp add: box_ok_def)
    then show ?thesis using none by force
  qed
  have same: "fm_boxes ?q rs = fm_boxes q rs"
    using n by (auto intro!: fm_boxes_cong)
  have new: "fm_boxes ?q [?n] = [(key m, [m])]"
    using ub(2) by (simp add: fm_boxes_def box_pair_def new_SenderBox_def)
  have boxes: "fm_boxes ?q (rs @ [?n]) = rr_add (key m) m (fm_boxes q rs)"
  proof -
    have "key m \<notin> fst ` set (fm_boxes q rs)"
      using knew by (force simp: fm_boxes_def box_pair_def)
    from rr_add_new [OF this] show ?thesis by (simp only: fm_boxes_append same new)
  qed
  have ch: "chain (\<lambda>r. sb_nextActive (fm_heap ?q r)) (fm_activeHead ?q) rs"
    by (rule chain_keep [where nx = "\<lambda>r. sb_nextActive (fm_heap q r)"])
      (use rep n in \<open>auto simp: fm_rep_def\<close>)
  have ok: "box_ok ?q r" if "r \<in> set (rs @ [?n])" for r
  proof (cases "r = ?n")
    case True
    then show ?thesis using ub by (simp add: box_ok_def new_SenderBox_def)
  next
    case False
    with that have r: "r \<in> set rs" by simp
    then have "box_ok q r" using rep by (simp add: fm_rep_def)
    then show ?thesis using knew [OF r] False by (simp add: box_ok_def)
  qed
  have size: "fm_size ?q = length (concat (map snd (fm_boxes ?q (rs @ [?n]))))"
    unfolding fm_boxes_append same new using fm_rep_size [OF rep] by simp
  have snd: "r \<in> set (rs @ [?n]) \<and> sb_key (fm_heap ?q r) = k" if "fm_senders ?q k = Some r" for k r
    using that rep n by (auto simp: fm_rep_def new_SenderBox_def split: if_splits)
  have "fm_rep (fm_pushActive ?n ?q) (rs @ [?n])"
    unfolding fm_rep_def
    using fm_pushActive_chain [OF ch] rep n ok size snd live by (auto simp: fm_rep_def)
  then show ?thesis using boxes by (simp add: e)
qed

section \<open>Dequeue\<close>

lemma fm_dequeue_turn:
  assumes rep: "fm_rep q (box # rs)"
  obtains m ms where "fm_boxes q (box # rs) = (sb_key (fm_heap q box), m # ms) # fm_boxes q rs"
    and "fst (fm_dequeue q) = Some m"
    and "fm_rep (snd (fm_dequeue q)) (if ms = [] then rs else rs @ [box])"
    and "fm_boxes (snd (fm_dequeue q)) (if ms = [] then rs else rs @ [box])
       = (if ms = [] then fm_boxes q rs else fm_boxes q rs @ [(sb_key (fm_heap q box), ms)])"
    and "fm_disposed (snd (fm_dequeue q)) = fm_disposed q"
proof -
  let ?b = "fm_heap q box"
  have ok: "box_ok q box" and ch: "chain (\<lambda>r. sb_nextActive (fm_heap q r)) (sb_nextActive ?b) rs"
    and hd: "fm_activeHead q = Some box" and nin: "box \<notin> set rs" and d: "distinct rs"
    using rep by (auto simp: fm_rep_def)
  have live: "\<not> fm_disposed q" using rep by (auto simp: fm_rep_def)
  obtain n where n: "ub_size (sb_queue ?b) = Suc n"
    using ok length_ub_contents [of "sb_queue ?b"] by (cases "ub_size (sb_queue ?b)") (auto simp: box_ok_def)
  have uinv: "ub_inv (sb_queue ?b)" "\<not> ub_disposed (sb_queue ?b)" using ok by (auto simp: box_ok_def)
  obtain m u where u: "ub_dequeue (sb_queue ?b) = (Some m, u)" "ub_inv u" "\<not> ub_disposed u"
    "ub_contents (sb_queue ?b) = m # ub_contents u"
    using ub_dequeue_correct [OF uinv(1) n] uinv(2) by (cases "ub_dequeue (sb_queue ?b)") auto
  let ?ms = "ub_contents u"
  have empty: "ub_isEmpty u \<longleftrightarrow> ?ms = []"
    using length_ub_contents [OF u(2)] by (auto simp: ub_isEmpty_def)
  let ?b1 = "?b\<lparr>sb_nextActive := None, sb_queue := u\<rparr>"
  let ?p = "q\<lparr>fm_activeHead := sb_nextActive ?b,
      fm_activeTail := (if sb_nextActive ?b = None then None else fm_activeTail q),
      fm_heap := (fm_heap q)(box := ?b1), fm_size := fm_size q - 1\<rparr>"
  have pch: "chain (\<lambda>r. sb_nextActive (fm_heap ?p r)) (fm_activeHead ?p) rs"
    by (rule chain_keep [where nx = "\<lambda>r. sb_nextActive (fm_heap q r)"]) (use ch nin in auto)
  have ptail: "fm_activeTail ?p = (if rs = [] then None else Some (last rs))"
    using ch rep by (cases rs) (auto simp: fm_rep_def)
  have pboxes: "fm_boxes ?p rs = fm_boxes q rs" using nin by (auto intro!: fm_boxes_cong)
  have pbox: "fm_boxes ?p [box] = [(sb_key ?b, ?ms)]" by (simp add: fm_boxes_def box_pair_def)
  have size: "fm_size q = Suc (length ?ms + length (concat (map snd (fm_boxes q rs))))"
    using fm_rep_size [OF rep] u(4) by (simp add: fm_boxes_def box_pair_def)
  have keep: "box_ok q r" "sb_key (fm_heap q r) \<noteq> sb_key ?b" "r \<noteq> box" if "r \<in> set rs" for r
  proof -
    show okr: "box_ok q r" and ne: "r \<noteq> box" using rep that nin by (auto simp: fm_rep_def)
    show "sb_key (fm_heap q r) \<noteq> sb_key ?b"
      using okr ok ne by (metis box_ok_def option.inject)
  qed
  have senders: "r = box \<or> r \<in> set rs" "sb_key (fm_heap q r) = k" if "fm_senders q k = Some r" for k r
    using rep that by (auto simp: fm_rep_def)
  have old: "fm_boxes q (box # rs) = (sb_key ?b, m # ?ms) # fm_boxes q rs"
    using u(4) by (simp add: fm_boxes_def box_pair_def)
  show thesis
  proof (cases "?ms = []")
    case True
    let ?q = "?p\<lparr>fm_heap := (fm_heap ?p)(box := ?b1\<lparr>sb_active := False\<rparr>),
        fm_senders := (fm_senders q)(sb_key ?b := None)\<rparr>"
    have e: "fm_dequeue q = (Some m, ?q)"
      using hd u(1) empty True by (simp add: fm_dequeue_def fm_popActive_def Let_def)
    have qch: "chain (\<lambda>r. sb_nextActive (fm_heap ?q r)) (fm_activeHead ?q) rs"
      by (rule chain_keep [where nx = "\<lambda>r. sb_nextActive (fm_heap q r)"]) (use ch nin in auto)
    have qboxes: "fm_boxes ?q rs = fm_boxes q rs" using nin by (auto intro!: fm_boxes_cong)
    have qok: "box_ok ?q r" if "r \<in> set rs" for r
      using keep [OF that] by (simp add: box_ok_def)
    have qsend: "r \<in> set rs \<and> sb_key (fm_heap ?q r) = k" if "fm_senders ?q k = Some r" for k r
    proof -
      have s: "fm_senders q k = Some r" "k \<noteq> sb_key ?b" using that by (auto split: if_splits)
      have "r \<noteq> box" using senders(2) [OF s(1)] s(2) by blast
      then show ?thesis using senders [OF s(1)] by simp
    qed
    have qsize: "fm_size ?q = length (concat (map snd (fm_boxes ?q rs)))"
      unfolding qboxes using size True by simp
    have qtail: "fm_activeTail ?q = (if rs = [] then None else Some (last rs))" using ptail by simp
    have refs: "distinct rs" "set rs \<subseteq> {..<fm_fresh ?q}" "fm_disposed ?q \<longrightarrow> rs = []"
      using rep by (auto simp: fm_rep_def)
    have "fm_rep ?q rs"
      unfolding fm_rep_def using qch qtail refs qok qsend qsize by blast
    then show thesis using that [of m ?ms] old e qboxes True by simp
  next
    case False
    have e: "fm_dequeue q = (Some m, fm_pushActive box ?p)"
      using hd u(1) empty False by (simp add: fm_dequeue_def fm_popActive_def Let_def)
    have pok: "box_ok ?p r" if "r \<in> set (rs @ [box])" for r
      using keep [of r] that ok u False by (cases "r = box") (auto simp: box_ok_def)
    have psend: "r \<in> set (rs @ [box]) \<and> sb_key (fm_heap ?p r) = k" if "fm_senders ?p k = Some r" for k r
      using senders [of k r] that by auto
    have pall: "fm_boxes ?p (rs @ [box]) = fm_boxes q rs @ [(sb_key ?b, ?ms)]"
      by (simp only: fm_boxes_append pboxes pbox)
    have psize: "fm_size ?p = length (concat (map snd (fm_boxes ?p (rs @ [box]))))"
      unfolding pall using size by simp
    have refs: "distinct (rs @ [box])" "set (rs @ [box]) \<subseteq> {..<fm_fresh ?p}"
      using rep nin d by (auto simp: fm_rep_def)
    have "fm_rep (fm_pushActive box ?p) (rs @ [box])"
      unfolding fm_rep_def fm_pushActive_fields fm_boxes_pushActive box_ok_pushActive
      using fm_pushActive_chain [OF pch ptail d nin] refs pok psend psize live by simp
    then show thesis using that [of m ?ms] old e pall False by simp
  qed
qed

lemma fm_dequeue_empty: "fm_rep q [] \<Longrightarrow> fm_dequeue q = (None, q)"
  by (simp add: fm_rep_def fm_dequeue_def fm_popActive_def)

section \<open>Refinement of the round robin\<close>

lemma fm_new_rep: "fm_rep fm_new []"
  by (simp add: fm_rep_def fm_new_def fm_boxes_def)

lemma fm_dispose_rep: "fm_rep (fm_dispose q) [] \<and> fm_disposed (fm_dispose q)"
  by (simp add: fm_rep_def fm_dispose_def fm_boxes_def)

lemma fm_sim:
  assumes inv: "fm_inv q" and call: "mb_call (fair_mailbox key) c q = (r, q')"
  shows "fm_inv q' \<and> mb_call (rr_spec key) c (fm_abs q) = (r, fm_abs q')"
proof -
  obtain rs where rep: "fm_rep q rs" using inv by (auto simp: fm_inv_def)
  have abs: "boxes (fm_abs q) = fm_boxes q rs" "rr_gone (fm_abs q) = fm_disposed q"
    by (simp_all add: fm_abs_rep [OF rep])
  note len = fm_rep_size [OF rep]
  show ?thesis
  proof (cases c)
    case (Enqueue m)
    show ?thesis
    proof (cases "fm_disposed q")
      case True
      then show ?thesis using Enqueue call inv abs by (auto simp: fair_mailbox_def rr_defs fm_enqueue_def)
    next
      case False
      let ?e = "snd (fm_enqueue key m q)"
      have "\<exists>rs'. fm_rep ?e rs' \<and> fm_boxes ?e rs' = rr_add (key m) m (fm_boxes q rs)"
        using fm_enqueue_known [OF rep False] fm_enqueue_unknown [OF rep False]
        by (cases "fm_senders q (key m)") blast+
      then obtain rs' where r': "fm_rep ?e rs'" "fm_boxes ?e rs' = rr_add (key m) m (fm_boxes q rs)"
        by blast
      have e: "fm_enqueue key m q = (None, ?e)" using False by (simp add: fm_enqueue_def split_beta Let_def)
      have d: "\<not> fm_disposed ?e" using False
        by (auto simp: fm_enqueue_def fm_box_def split_beta Let_def split: option.split)
      have "r = Enqueued None" "q' = ?e"
        using Enqueue call e by (auto simp: fair_mailbox_def split: prod.splits)
      then show ?thesis
        using Enqueue abs False d r'(2) fm_invI [OF r'(1)]
        by (simp add: rr_defs fm_abs_rep [OF r'(1)] fm_abs_rep [OF rep])
    qed
  next
    case Dequeue
    show ?thesis
    proof (cases rs)
      case Nil
      then show ?thesis
        using Dequeue call inv abs fm_dequeue_empty [of q] rep
        by (auto simp: fair_mailbox_def rr_defs fm_boxes_def)
    next
      case (Cons box rs0)
      have rep0: "fm_rep q (box # rs0)" using rep Cons by simp
      show ?thesis
      proof (rule fm_dequeue_turn [OF rep0])
        fix m ms
        assume a: "fm_boxes q (box # rs0) = (sb_key (fm_heap q box), m # ms) # fm_boxes q rs0"
          "fst (fm_dequeue q) = Some m"
          "fm_rep (snd (fm_dequeue q)) (if ms = [] then rs0 else rs0 @ [box])"
          "fm_boxes (snd (fm_dequeue q)) (if ms = [] then rs0 else rs0 @ [box])
             = (if ms = [] then fm_boxes q rs0 else fm_boxes q rs0 @ [(sb_key (fm_heap q box), ms)])"
          "fm_disposed (snd (fm_dequeue q)) = fm_disposed q"
        have "r = Dequeued (Some m)" "q' = snd (fm_dequeue q)"
          using Dequeue call a(2) by (auto simp: fair_mailbox_def split: prod.splits)
        then show ?thesis
          using Dequeue a Cons fm_invI [OF a(3)]
          by (simp add: rr_defs fm_abs_rep [OF a(3)] fm_abs_rep [OF rep])
      qed
    qed
  next
    case Dispose
    then show ?thesis
      using call fm_dispose_rep [of q] fm_invI [of "fm_dispose q" "[]"] fm_abs_rep [of "fm_dispose q" "[]"]
      by (auto simp: fair_mailbox_def rr_defs fm_boxes_def)
  qed (use call inv len abs in \<open>auto simp: fair_mailbox_def rr_defs rr_len_def fm_isEmpty_def fm_len_def\<close>)
qed

interpretation fm: mailbox_refinement "fair_mailbox key" "rr_spec key" fm_inv fm_abs for key
  by unfold_locales (rule fm_sim)

section \<open>Order and fairness of the round robin\<close>

definition rr_ok :: "('m \<Rightarrow> jsstr) \<Rightarrow> (jsstr \<times> 'm list) list \<Rightarrow> bool" where
  "rr_ok key bs \<longleftrightarrow>
     distinct (map fst bs) \<and> (\<forall>(k, ms) \<in> set bs. ms \<noteq> [] \<and> (\<forall>m \<in> set ms. key m = k))"

definition rr_queue :: "jsstr \<Rightarrow> (jsstr \<times> 'm list) list \<Rightarrow> 'm list" where
  "rr_queue k bs = concat (map snd (filter (\<lambda>b. fst b = k) bs))"

definition fm_pending :: "jsstr \<Rightarrow> 'm FairMailbox \<Rightarrow> 'm list" where
  "fm_pending k q = rr_queue k (fm_boxes q (fm_refs q))"

definition fm_ring :: "'m FairMailbox \<Rightarrow> jsstr list" where
  "fm_ring q = map (\<lambda>r. sb_key (fm_heap q r)) (fm_refs q)"

lemma map_fst_rr_add: "map fst (rr_add k m bs) = (if k \<in> fst ` set bs then map fst bs else map fst bs @ [k])"
  by (induction k m bs rule: rr_add.induct) force+

lemma rr_add_ok: "rr_ok key bs \<Longrightarrow> rr_ok key (rr_add (key m) m bs)"
proof -
  assume ok: "rr_ok key bs"
  then have "distinct (map fst (rr_add (key m) m bs))" by (auto simp: rr_ok_def map_fst_rr_add)
  moreover have "\<forall>(k, ms) \<in> set (rr_add (key m) m bs). ms \<noteq> [] \<and> (\<forall>m \<in> set ms. key m = k)"
    using ok unfolding rr_ok_def by (induction bs) (fastforce split: if_splits)+
  ultimately show ?thesis by (simp add: rr_ok_def)
qed

lemma rr_turn_cases:
  assumes "rr_ok key bs"
  obtains "bs = []" "rr_turn bs = (None, [])"
  | m ms rest where "bs = (key m, m # ms) # rest"
      "rr_turn bs = (Some m, if ms = [] then rest else rest @ [(key m, ms)])"
proof (cases bs)
  case (Cons b rest)
  obtain k q where b: "b = (k, q)" by fastforce
  with Cons assms have "q \<noteq> []" "\<forall>m \<in> set q. key m = k" by (auto simp: rr_ok_def)
  then show thesis using that(2) Cons b by (cases q) auto
qed (use that(1) in auto)

lemma rr_turn_ok:
  assumes "rr_ok key bs"
  shows "rr_ok key (snd (rr_turn bs))"
  by (rule rr_turn_cases [OF assms]) (use assms in \<open>force simp: rr_ok_def\<close>)+

lemma rr_queue_simps [simp]:
  "rr_queue k [] = []"
  "rr_queue k (b # bs) = (if fst b = k then snd b else []) @ rr_queue k bs"
  "rr_queue k (bs @ bs') = rr_queue k bs @ rr_queue k bs'"
  by (simp_all add: rr_queue_def)

lemma rr_queue_notin: "k \<notin> fst ` set bs \<Longrightarrow> rr_queue k bs = []"
  by (induction bs) auto

lemma rr_queue_add:
  "distinct (map fst bs) \<Longrightarrow> rr_queue k (rr_add k' m bs) = rr_queue k bs @ (if k = k' then [m] else [])"
  by (induction k' m bs rule: rr_add.induct) (auto simp: rr_queue_notin)

lemma rr_queue_turn:
  assumes ok: "rr_ok key bs"
  shows "rr_queue k bs =
     (case fst (rr_turn bs) of Some m \<Rightarrow> if key m = k then [m] else [] | None \<Rightarrow> [])
       @ rr_queue k (snd (rr_turn bs))"
proof (rule rr_turn_cases [OF ok])
  fix m ms rest assume bs: "bs = (key m, m # ms) # rest"
    and t: "rr_turn bs = (Some m, if ms = [] then rest else rest @ [(key m, ms)])"
  have "rr_queue (key m) rest = []"
    using ok bs by (simp add: rr_ok_def rr_queue_notin)
  then show ?thesis unfolding t unfolding bs by auto
qed simp

lemma rr_call_queue:
  assumes ok: "rr_ok key (boxes q)" and c: "mb_call (rr_spec key) c q = (a, q')" and "c \<noteq> Dispose"
  shows "rr_queue k (boxes q) @ filter (\<lambda>m. key m = k) (accepted [c] [a])
     = filter (\<lambda>m. key m = k) (delivered [a]) @ rr_queue k (boxes q')"
proof (cases c)
  case (Enqueue m)
  then show ?thesis using c rr_queue_add [of "boxes q" k "key m" m] ok
    by (auto simp: rr_defs rr_ok_def split: if_splits)
next
  case Dequeue
  then show ?thesis using c rr_queue_turn [OF ok, of k] by (auto simp: rr_defs split: option.splits prod.splits)
qed (use assms in \<open>auto simp: rr_spec_def\<close>)

lemma rr_call_ok:
  assumes ok: "rr_ok key (boxes q)" and c: "mb_call (rr_spec key) c q = (a, q')"
  shows "rr_ok key (boxes q')"
proof -
  have "rr_ok key []" by (simp add: rr_ok_def)
  moreover have "boxes q' \<in> {boxes q, snd (rr_turn (boxes q)), []} \<union> range (\<lambda>m. rr_add (key m) m (boxes q))"
    using c by (cases c) (auto simp: rr_defs split: prod.splits if_splits)
  ultimately show ?thesis using ok rr_turn_ok [OF ok] rr_add_ok [OF ok] by auto
qed

lemma rr_run_queue:
  "rr_ok key (boxes q) \<Longrightarrow> Dispose \<notin> set cs \<Longrightarrow> mb_run (rr_spec key) cs q = (as, q') \<Longrightarrow>
     rr_queue k (boxes q) @ filter (\<lambda>m. key m = k) (accepted cs as)
       = filter (\<lambda>m. key m = k) (delivered as) @ rr_queue k (boxes q')"
proof (induction cs arbitrary: q as)
  case (Cons c cs)
  obtain a q1 where c: "mb_call (rr_spec key) c q = (a, q1)" by fastforce
  obtain as' where as: "as = a # as'" "mb_run (rr_spec key) cs q1 = (as', q')"
    using Cons.prems(3) c by (auto split: prod.splits)
  have "rr_queue k (boxes q1) @ filter (\<lambda>m. key m = k) (accepted cs as')
       = filter (\<lambda>m. key m = k) (delivered as') @ rr_queue k (boxes q')"
    using Cons.IH [OF rr_call_ok [OF Cons.prems(1) c] _ as(2)] Cons.prems(2) by simp
  then show ?case
    using rr_call_queue [OF Cons.prems(1) c, of k] Cons.prems(2)
    unfolding as accepted_Cons [of c cs a as'] delivered_Cons [of a as']
    by simp (metis append.assoc)
qed simp

lemma rr_add_keeps_place:
  assumes "i < length bs"
  shows "i < length (rr_add k m bs)" "map fst (rr_add k m bs) ! i = map fst bs ! i"
proof -
  have "length bs \<le> length (rr_add k m bs)" by (induction k m bs rule: rr_add.induct) auto
  then show "i < length (rr_add k m bs)" using assms by simp
  show "map fst (rr_add k m bs) ! i = map fst bs ! i"
    using assms by (simp add: map_fst_rr_add nth_append del: nth_map)
qed

lemma rr_run_served:
  "rr_ok key (boxes q) \<Longrightarrow> Dispose \<notin> set cs \<Longrightarrow> mb_run (rr_spec key) cs q = (as, q') \<Longrightarrow>
     i < length (boxes q) \<Longrightarrow> map fst (boxes q) ! i = k \<Longrightarrow> i < count_list cs Dequeue \<Longrightarrow>
     \<exists>m \<in> set (delivered as). key m = k"
proof (induction cs arbitrary: q as i)
  case (Cons c cs)
  obtain a q1 where c: "mb_call (rr_spec key) c q = (a, q1)" by fastforce
  obtain as' where as: "as = a # as'" "mb_run (rr_spec key) cs q1 = (as', q')"
    using Cons.prems(3) c by (auto split: prod.splits)
  note ok1 = rr_call_ok [OF Cons.prems(1) c]
  note IH = Cons.IH [OF ok1 _ as(2)]
  have sub: "set (delivered as') \<subseteq> set (delivered as)"
    unfolding as(1) delivered_Cons [of a as'] by simp
  show ?case
  proof (cases c)
    case (Enqueue m)
    have "boxes q1 = boxes q \<or> boxes q1 = rr_add (key m) m (boxes q)"
      using c Enqueue by (auto simp: rr_defs split: if_splits)
    then have "i < length (boxes q1) \<and> map fst (boxes q1) ! i = k"
      using Cons.prems(4,5) rr_add_keeps_place [OF Cons.prems(4)] by (elim disjE) simp_all
    then show ?thesis using IH [of i] Cons.prems(2,6) Enqueue sub by auto
  next
    case Dequeue
    show ?thesis
    proof (rule rr_turn_cases [OF Cons.prems(1)])
      fix m ms rest
      assume bs: "boxes q = (key m, m # ms) # rest"
        and t: "rr_turn (boxes q) = (Some m, if ms = [] then rest else rest @ [(key m, ms)])"
      have a: "a = Dequeued (Some m)" and q1: "boxes q1 = (if ms = [] then rest else rest @ [(key m, ms)])"
        using c Dequeue t by (auto simp: rr_defs)
      show ?thesis
      proof (cases i)
        case 0
        then show ?thesis using Cons.prems(5) bs a as(1) by simp
      next
        case (Suc j)
        then have "j < length (boxes q1)" "map fst (boxes q1) ! j = k"
          using Cons.prems(4,5) bs q1 by (auto simp: nth_append)
        then show ?thesis using IH [of j] Cons.prems(2,6) Dequeue Suc sub by auto
      qed
    qed (use Cons.prems(4) in simp)
  qed (use Cons.prems c IH [of i] sub in \<open>auto simp: rr_spec_def\<close>)
qed simp

section \<open>Properties\<close>

lemma fm_abs_new: "fm_abs fm_new = rr_new"
  by (simp add: fm_abs_rep [OF fm_new_rep]) (simp add: fm_boxes_def rr_new_def fm_new_def)

lemma fm_run_rr:
  assumes "mb_run (fair_mailbox key) cs fm_new = (as, q)"
  shows "fm_inv q" "rr_ok key (boxes (fm_abs q))" "mb_run (rr_spec key) cs rr_new = (as, fm_abs q)"
proof -
  show run: "mb_run (rr_spec key) cs rr_new = (as, fm_abs q)"
    using fm.run_refines [OF fm_invI [OF fm_new_rep] assms] by (simp add: fm_abs_new)
  have "rr_ok key (boxes p) \<Longrightarrow> mb_run (rr_spec key) ds p = (bs, p') \<Longrightarrow> rr_ok key (boxes p')" for p ds bs p'
    by (induction ds arbitrary: p bs) (auto dest: rr_call_ok split: prod.splits)
  from this [OF _ run] show "rr_ok key (boxes (fm_abs q))" by (simp add: rr_ok_def rr_new_def)
  have "fm_inv p \<Longrightarrow> mb_run (fair_mailbox key) ds p = (bs, p') \<Longrightarrow> fm_inv p'" for p ds bs p'
    by (induction ds arbitrary: p bs) (auto dest: fm_sim split: prod.splits)
  from this [OF fm_invI [OF fm_new_rep] assms] show "fm_inv q" .
qed

lemma fm_ring_abs: "fm_ring q = map fst (boxes (fm_abs q))"
  by (simp add: fm_abs_def fm_boxes_def box_pair_def fm_ring_def)

text \<open>
  C29. No sequence of calls tells the fair mailbox, with its shared boxes and
  intrusive ring, from a round robin over a list of senders' queues.
\<close>

theorem fair_refines_round_robin:
  "fst (mb_run (fair_mailbox key) cs fm_new) = fst (mb_run (rr_spec key) cs rr_new)"
  using fm.same_answers [OF fm_invI [OF fm_new_rep], of key cs] by (simp add: fm_abs_new)

text \<open>
  Messages of one sender are delivered in the order they were accepted,
  however the senders interleave, and none of them is lost or duplicated.
\<close>

lemma fair_sender_order:
  assumes "Dispose \<notin> set cs" and "mb_run (fair_mailbox key) cs fm_new = (as, q)"
  shows "filter (\<lambda>m. key m = k) (accepted cs as)
     = filter (\<lambda>m. key m = k) (delivered as) @ fm_pending k q"
  using rr_run_queue [OF _ assms(1) fm_run_rr(3) [OF assms(2)], of k]
  by (simp add: rr_ok_def rr_new_def fm_pending_def fm_abs_def rr_queue_def)

text \<open>
  C0. A chatty sender cannot starve a quieter one: a sender at position \<open>i\<close> of
  the ring has a message delivered within the next \<open>i + 1\<close> dequeues, whatever
  else is enqueued meanwhile.
\<close>

theorem fair_no_starvation:
  assumes "mb_run (fair_mailbox key) cs0 fm_new = (as0, q0)"
    and "i < length (fm_ring q0)" and "fm_ring q0 ! i = k"
    and "Dispose \<notin> set cs" and "i < count_list cs Dequeue"
    and "mb_run (fair_mailbox key) cs q0 = (as, q)"
  shows "\<exists>m \<in> set (delivered as). key m = k"
proof -
  have len: "length (boxes (fm_abs q0)) = length (fm_ring q0)"
    using fm_ring_abs [of q0] by simp
  show ?thesis
    using rr_run_served [OF fm_run_rr(2) [OF assms(1)] assms(4)
        fm.run_refines [OF fm_run_rr(1) [OF assms(1)] assms(6)]] assms(2,3,5) fm_ring_abs [of q0, symmetric] len
    by simp
qed

theorem fair_no_starvation_witness:
  "\<exists>as0 q0 as q. mb_run (fair_mailbox (\<lambda>n. if n < (10::nat) then js ''a'' else js ''b''))
       [Enqueue 1, Enqueue 2, Enqueue 11] fm_new = (as0, q0)
     \<and> fm_ring q0 = [js ''a'', js ''b'']
     \<and> mb_run (fair_mailbox (\<lambda>n. if n < (10::nat) then js ''a'' else js ''b''))
       [Enqueue 3, Dequeue, Enqueue 4, Dequeue] q0 = (as, q)
     \<and> (\<exists>m \<in> set (delivered as). (if m < 10 then js ''a'' else js ''b'') = js ''b'')"
proof -
  let ?key = "\<lambda>n. if n < (10::nat) then js ''a'' else js ''b''"
  obtain as0 q0 where start: "mb_run (fair_mailbox ?key) [Enqueue 1, Enqueue 2, Enqueue 11] fm_new = (as0, q0)"
    by fastforce
  obtain as q where run: "mb_run (fair_mailbox ?key) [Enqueue 3, Dequeue, Enqueue 4, Dequeue] q0 = (as, q)"
    by fastforce
  have abs: "fm_abs q0 = snd (mb_run (rr_spec ?key) [Enqueue 1, Enqueue 2, Enqueue 11] rr_new)"
    using fm_run_rr(3) [OF start] by simp
  have ring: "fm_ring q0 = [js ''a'', js ''b'']"
    unfolding fm_ring_abs abs by (simp add: rr_defs js_def)
  have "\<exists>m \<in> set (delivered as). ?key m = js ''b''"
    by (rule fair_no_starvation [OF start _ _ _ _ run, of 1]) (simp_all add: ring)
  then show ?thesis using start run ring by blast
qed

end
