(* ===== verification/BinaryHeap.thy ===== *)
theory BinaryHeap
  imports Prelude
begin

text \<open>
  Binary heaps in an array, for any strict order whose complement is transitive:
  the two sifting loops over plain lists, that they permute the array and restore
  the heap order, and that the first slot of a heap is outranked by no other.
  The priority mailboxes are compared with it.
\<close>

definition parent :: "nat \<Rightarrow> nat" where
  "parent j = (j - 1) div 2"

definition swap_at :: "nat \<Rightarrow> nat \<Rightarrow> 'a list \<Rightarrow> 'a list" where
  "swap_at i j xs = xs[i := xs ! j, j := xs ! i]"

lemma length_swap_at [simp]: "length (swap_at i j xs) = length xs"
  by (simp add: swap_at_def)

lemma nth_swap_at:
  "i < length xs \<Longrightarrow> j < length xs \<Longrightarrow> k < length xs \<Longrightarrow>
     swap_at i j xs ! k = (if k = j then xs ! i else if k = i then xs ! j else xs ! k)"
  by (simp add: swap_at_def nth_list_update)

lemma mset_swap_at [simp]: "i < length xs \<Longrightarrow> j < length xs \<Longrightarrow> mset (swap_at i j xs) = mset xs"
  by (simp add: swap_at_def mset_swap)

lemma parent_less: "0 < j \<Longrightarrow> parent j < j"
  by (simp add: parent_def)

lemma parent_iff: "0 < k \<Longrightarrow> parent k = i \<longleftrightarrow> k = 2 * i + 1 \<or> k = 2 * i + 2"
  by (auto simp: parent_def)

function heap_up :: "('a \<Rightarrow> 'a \<Rightarrow> bool) \<Rightarrow> nat \<Rightarrow> 'a list \<Rightarrow> 'a list" where
  "heap_up lt j xs =
     (if 0 < j \<and> lt (xs ! j) (xs ! parent j) then heap_up lt (parent j) (swap_at (parent j) j xs) else xs)"
  by pat_completeness auto
termination by (relation "measure (\<lambda>(_, j, _). j)") (auto simp: parent_less)

definition best_child :: "('a \<Rightarrow> 'a \<Rightarrow> bool) \<Rightarrow> nat \<Rightarrow> nat \<Rightarrow> 'a list \<Rightarrow> nat" where
  "best_child lt n i xs =
     (if 2 * i + 2 < n \<and> lt (xs ! (2 * i + 2)) (xs ! (2 * i + 1)) then 2 * i + 2 else 2 * i + 1)"

function heap_down :: "('a \<Rightarrow> 'a \<Rightarrow> bool) \<Rightarrow> nat \<Rightarrow> nat \<Rightarrow> 'a list \<Rightarrow> 'a list" where
  "heap_down lt n i xs =
     (if 2 * i + 1 < n \<and> lt (xs ! best_child lt n i xs) (xs ! i)
      then heap_down lt n (best_child lt n i xs) (swap_at i (best_child lt n i xs) xs) else xs)"
  by pat_completeness auto
termination by (relation "measure (\<lambda>(_, n, i, _). n - i)") (auto simp: best_child_def)

declare heap_up.simps [simp del] heap_down.simps [simp del]

lemma best_child_bounds: "2 * i + 1 < n \<Longrightarrow> i < best_child lt n i xs \<and> best_child lt n i xs < n"
  by (simp add: best_child_def)

lemma heap_up_perm:
  "j < length xs \<Longrightarrow> mset (heap_up lt j xs) = mset xs \<and> length (heap_up lt j xs) = length xs"
proof (induction lt j xs rule: heap_up.induct)
  case (1 lt j xs)
  then show ?case using parent_less [of j] by (subst (1 2) heap_up.simps) auto
qed

lemma heap_down_perm:
  "n = length xs \<Longrightarrow> mset (heap_down lt n i xs) = mset xs \<and> length (heap_down lt n i xs) = n"
proof (induction lt n i xs rule: heap_down.induct)
  case (1 lt n i xs)
  then show ?case using best_child_bounds [of i n lt xs] by (subst (1 2) heap_down.simps) auto
qed

locale heap_order =
  fixes lt :: "'a \<Rightarrow> 'a \<Rightarrow> bool"
  assumes lt_asym: "lt a b \<Longrightarrow> \<not> lt b a"
    and lt_neg_trans: "\<not> lt a b \<Longrightarrow> \<not> lt b c \<Longrightarrow> \<not> lt a c"
begin

definition heap :: "'a list \<Rightarrow> bool" where
  "heap xs \<longleftrightarrow> (\<forall>k < length xs. 0 < k \<longrightarrow> \<not> lt (xs ! k) (xs ! parent k))"

definition up_ok :: "nat \<Rightarrow> 'a list \<Rightarrow> bool" where
  "up_ok j xs \<longleftrightarrow> j < length xs
     \<and> (\<forall>k < length xs. 0 < k \<and> k \<noteq> j \<longrightarrow> \<not> lt (xs ! k) (xs ! parent k))
     \<and> (\<forall>k < length xs. 0 < k \<and> parent k = j \<and> 0 < j \<longrightarrow> \<not> lt (xs ! k) (xs ! parent j))"

definition down_ok :: "nat \<Rightarrow> 'a list \<Rightarrow> bool" where
  "down_ok i xs \<longleftrightarrow> i < length xs
     \<and> (\<forall>k < length xs. 0 < k \<and> parent k \<noteq> i \<longrightarrow> \<not> lt (xs ! k) (xs ! parent k))
     \<and> (\<forall>k < length xs. 0 < k \<and> parent k = i \<and> 0 < i \<longrightarrow> \<not> lt (xs ! k) (xs ! parent i))"

lemma heap_top:
  assumes "heap xs" "k < length xs"
  shows "\<not> lt (xs ! k) (xs ! 0)"
  using assms(2)
proof (induction k rule: less_induct)
  case (less k)
  show ?case
  proof (cases "k = 0")
    case True
    then show ?thesis using lt_asym by blast
  next
    case False
    then show ?thesis
      using less.IH [of "parent k"] parent_less [of k] less.prems assms(1) lt_neg_trans
      unfolding heap_def by (metis gr0I less_trans)
  qed
qed

lemma heap_hd: "heap xs \<Longrightarrow> x \<in> set xs \<Longrightarrow> \<not> lt x (xs ! 0)"
  by (metis heap_top in_set_conv_nth)

lemma up_step:
  assumes up: "up_ok j xs" and j: "0 < j" and less: "lt (xs ! j) (xs ! parent j)"
  shows "up_ok (parent j) (swap_at (parent j) j xs)"
proof -
  let ?i = "parent j" and ?xs = "swap_at (parent j) j xs"
  have ij: "?i < j" "j < length xs" using parent_less [OF j] up by (auto simp: up_ok_def)
  have off: "\<And>k. k < length xs \<Longrightarrow> 0 < k \<Longrightarrow> k \<noteq> j \<Longrightarrow> \<not> lt (xs ! k) (xs ! parent k)"
    and grand: "\<And>k. k < length xs \<Longrightarrow> 0 < k \<Longrightarrow> parent k = j \<Longrightarrow> \<not> lt (xs ! k) (xs ! ?i)"
    using up j unfolding up_ok_def by blast+
  have nth: "\<And>k. k < length xs \<Longrightarrow> ?xs ! k = (if k = j then xs ! ?i else if k = ?i then xs ! j else xs ! k)"
    using ij by (simp add: nth_swap_at)
  have flip: "\<not> lt (xs ! ?i) (xs ! j)" using less by (rule lt_asym)
  have "\<not> lt (?xs ! k) (?xs ! parent k)" if k: "k < length xs" "0 < k" "k \<noteq> ?i" for k
  proof (cases "k = j")
    case True
    then show ?thesis using nth [of j] nth [of ?i] ij flip by simp
  next
    case False
    have p: "parent k < length xs" using parent_less [OF k(2)] k(1) by simp
    have "\<not> lt (xs ! k) (if parent k = j then xs ! ?i else if parent k = ?i then xs ! j else xs ! parent k)"
      using off [OF k(1,2) False] grand [OF k(1,2)] lt_neg_trans [OF _ flip] by (auto split: if_splits)
    then show ?thesis using nth [OF k(1)] nth [OF p] False k(3) by simp
  qed
  moreover have "\<not> lt (?xs ! k) (?xs ! parent ?i)" if k: "k < length xs" "0 < k" "parent k = ?i" "0 < ?i" for k
  proof -
    have top: "\<not> lt (xs ! ?i) (xs ! parent ?i)" using off [of ?i] ij k(4) by simp
    have "k \<noteq> ?i" using parent_less [OF k(4)] k(3) by auto
    then have "\<not> lt (?xs ! k) (xs ! parent ?i)"
      using nth [OF k(1)] top lt_neg_trans [OF _ top, of "xs ! k"] off [OF k(1,2)] k(3) by auto
    then show ?thesis using nth [of "parent ?i"] parent_less [OF k(4)] ij by simp
  qed
  ultimately show ?thesis unfolding up_ok_def using ij by simp
qed

lemma heap_up_heap: "up_ok j xs \<Longrightarrow> heap (heap_up lt j xs)"
proof (induction j arbitrary: xs rule: less_induct)
  case (less j)
  show ?case
  proof (cases "0 < j \<and> lt (xs ! j) (xs ! parent j)")
    case True
    then show ?thesis
      using less.IH [OF parent_less up_step [OF less.prems]] by (subst heap_up.simps) simp
  next
    case False
    then have "heap xs" using less.prems unfolding up_ok_def heap_def by auto
    then show ?thesis using False by (subst heap_up.simps) auto
  qed
qed

lemma down_step:
  assumes down: "down_ok i xs" and left: "2 * i + 1 < length xs"
    and c: "c = best_child lt (length xs) i xs" and less: "lt (xs ! c) (xs ! i)"
  shows "down_ok c (swap_at i c xs)"
proof -
  let ?xs = "swap_at i c xs"
  have ic: "i < c" "c < length xs" using best_child_bounds [OF left] c by auto
  have pc: "parent c = i" using c parent_iff [of c i] ic by (simp add: best_child_def split: if_splits)
  have off: "\<And>k. k < length xs \<Longrightarrow> 0 < k \<Longrightarrow> parent k \<noteq> i \<Longrightarrow> \<not> lt (xs ! k) (xs ! parent k)"
    and grand: "\<And>k. k < length xs \<Longrightarrow> 0 < k \<Longrightarrow> parent k = i \<Longrightarrow> 0 < i \<Longrightarrow> \<not> lt (xs ! k) (xs ! parent i)"
    using down unfolding down_ok_def by blast+
  have nth: "\<And>k. k < length xs \<Longrightarrow> ?xs ! k = (if k = c then xs ! i else if k = i then xs ! c else xs ! k)"
    using ic by (simp add: nth_swap_at)
  have best: "\<not> lt (xs ! k) (xs ! c)" if "k < length xs" "0 < k" "parent k = i" for k
    using that c lt_asym by (auto simp: best_child_def parent_iff split: if_splits)
  have "\<not> lt (?xs ! k) (?xs ! parent k)" if k: "k < length xs" "0 < k" "parent k \<noteq> c" for k
  proof -
    have p: "parent k < length xs" using parent_less [OF k(2)] k(1) by simp
    consider "k = c" | "k = i" | "k \<noteq> c" "k \<noteq> i" "parent k = i" | "k \<noteq> c" "k \<noteq> i" "parent k \<noteq> i" by blast
    then show ?thesis
    proof cases
      case 1
      then show ?thesis using nth [OF k(1)] nth [of i] ic pc lt_asym [OF less] by simp
    next
      case 2
      then have "parent k \<noteq> i" using parent_less [OF k(2)] by simp
      then show ?thesis using nth [OF k(1)] nth [OF p] 2 ic k grand [of c] pc by simp
    next
      case 3
      then show ?thesis using nth [OF k(1)] nth [OF p] ic k best [OF k(1,2)] by simp
    next
      case 4
      then show ?thesis using nth [OF k(1)] nth [OF p] k off by simp
    qed
  qed
  moreover have "\<not> lt (?xs ! k) (?xs ! parent c)" if k: "k < length xs" "0 < k" "parent k = c" for k
    using nth [OF k(1)] nth [of i] off [OF k(1,2)] parent_less [OF k(2)] k(3) ic pc by simp
  ultimately show ?thesis unfolding down_ok_def using ic by simp
qed

lemma down_stop:
  assumes down: "down_ok i xs"
    and stop: "\<not> (2 * i + 1 < length xs \<and> lt (xs ! best_child lt (length xs) i xs) (xs ! i))"
  shows "heap xs"
  unfolding heap_def
proof (intro allI impI)
  fix k assume k: "k < length xs" "0 < k"
  show "\<not> lt (xs ! k) (xs ! parent k)"
  proof (cases "parent k = i")
    case True
    let ?c = "best_child lt (length xs) i xs"
    have "\<not> lt (xs ! ?c) (xs ! i)" using stop k True parent_iff [of k i] by auto
    moreover have "\<not> lt (xs ! k) (xs ! ?c)"
      using k True lt_asym by (auto simp: best_child_def parent_iff split: if_splits)
    ultimately show ?thesis using lt_neg_trans True by blast
  qed (use down k in \<open>simp add: down_ok_def\<close>)
qed

lemma heap_down_heap: "n = length xs \<Longrightarrow> down_ok i xs \<Longrightarrow> heap (heap_down lt n i xs)"
proof (induction "n - i" arbitrary: i xs rule: less_induct)
  case less
  let ?c = "best_child lt n i xs"
  show ?case
  proof (cases "2 * i + 1 < n \<and> lt (xs ! ?c) (xs ! i)")
    case True
    then have "i < ?c" "i < n" using best_child_bounds [of i n lt xs] by auto
    then have "heap (heap_down lt n ?c (swap_at i ?c xs))"
      using True down_step [of i xs ?c] less.prems by (intro less.hyps) auto
    then show ?thesis using True by (subst heap_down.simps) simp
  next
    case False
    then show ?thesis using down_stop [of i xs] less.prems by (subst heap_down.simps) auto
  qed
qed

lemma push_heap:
  assumes "heap xs"
  shows "heap (heap_up lt (length xs) (xs @ [x]))"
proof (rule heap_up_heap)
  have "\<not> lt ((xs @ [x]) ! k) ((xs @ [x]) ! parent k)" if "k < length xs" "0 < k" for k
    using assms that parent_less [of k] by (auto simp: heap_def nth_append)
  moreover have "parent k \<noteq> length xs" if "k < Suc (length xs)" "0 < k" for k
    using parent_less [of k] that by simp
  ultimately show "up_ok (length xs) (xs @ [x])" by (auto simp: up_ok_def less_Suc_eq)
qed

lemma pop_heap:
  assumes "heap (x # xs)" "xs \<noteq> []"
  shows "heap (heap_down lt (length xs) 0 (last xs # butlast xs))"
proof (rule heap_down_heap)
  let ?ys = "last xs # butlast xs"
  have nth: "?ys ! k = (x # xs) ! k" if "0 < k" "k < length xs" for k
    using that by (cases k) (auto simp: nth_butlast)
  have "\<not> lt (?ys ! k) (?ys ! parent k)" if k: "k < length xs" "0 < k" "parent k \<noteq> 0" for k
  proof -
    have "\<not> lt ((x # xs) ! k) ((x # xs) ! parent k)"
      using assms(1) k unfolding heap_def by (metis length_Cons less_SucI)
    then show ?thesis
      using nth [OF k(2,1)] nth [of "parent k"] parent_less [OF k(2)] k by (metis gr0I less_trans)
  qed
  then show "down_ok 0 ?ys" using assms(2) by (auto simp: down_ok_def)
qed (use assms(2) in simp)

end

end
