(* ===== verification/PriorityMailbox.thy ===== *)
theory PriorityMailbox
  imports Mailbox BinaryHeap
begin

text \<open>
  The four priority mailboxes, \<open>src/priority.mailbox.ts\<close>: one binary heap in a
  flat array, with a parallel array of arrival numbers in the stable variants.
  The priority function is the caller's, so it is a parameter; here it compares
  two contexts by their messages.  Whatever it answers, no message is lost or
  duplicated; when it is a strict weak order, the stable variants deliver by
  priority and then by arrival, and every variant delivers a message that no
  pending one outranks.
\<close>

section \<open>State and operations\<close>

record 'm PriorityMailbox =
  pm_items :: "'m list"
  pm_seqs :: "nat list option"
  pm_capacity :: "nat option"
  pm_seq :: nat
  pm_disposed :: bool

text \<open>The capacity \<open>Infinity\<close> is \<^term>\<open>None\<close>.\<close>

definition pm_new :: "nat option \<Rightarrow> bool \<Rightarrow> 'm PriorityMailbox" where
  "pm_new capacity keeps_order =
     \<lparr>pm_items = [], pm_seqs = (if keeps_order then Some [] else None), pm_capacity = capacity,
      pm_seq = 0, pm_disposed = False\<rparr>"

definition pm_less :: "('m \<Rightarrow> 'm \<Rightarrow> bool) \<Rightarrow> 'm PriorityMailbox \<Rightarrow> nat \<Rightarrow> nat \<Rightarrow> bool" where
  "pm_less priorityFunc q i j =
     (let a = pm_items q ! i; b = pm_items q ! j in
      if priorityFunc a b then True
      else case pm_seqs q of
             None \<Rightarrow> False
           | Some seqs \<Rightarrow> if priorityFunc b a then False else seqs ! i < seqs ! j)"

definition pm_swap :: "nat \<Rightarrow> nat \<Rightarrow> 'm PriorityMailbox \<Rightarrow> 'm PriorityMailbox" where
  "pm_swap i j q =
     (let tmp = pm_items q ! i in
      q\<lparr>pm_items := (pm_items q)[i := pm_items q ! j, j := tmp],
        pm_seqs := (case pm_seqs q of
                      None \<Rightarrow> None
                    | Some seqs \<Rightarrow> let tmpSeq = seqs ! i in Some (seqs[i := seqs ! j, j := tmpSeq]))\<rparr>)"

function pm_siftUp :: "('m \<Rightarrow> 'm \<Rightarrow> bool) \<Rightarrow> nat \<Rightarrow> 'm PriorityMailbox \<Rightarrow> 'm PriorityMailbox" where
  "pm_siftUp pf j q =
     (if 0 < j
      then let i = (j - 1) div 2 in
           if \<not> pm_less pf q j i then q else pm_siftUp pf i (pm_swap i j q)
      else q)"
  by pat_completeness auto
termination by (relation "measure (\<lambda>(_, j, _). j)") auto

text \<open>The loop of \<open>siftDown\<close>; \<open>n\<close> is the length read before it.\<close>

function pm_siftDown :: "('m \<Rightarrow> 'm \<Rightarrow> bool) \<Rightarrow> nat \<Rightarrow> nat \<Rightarrow> 'm PriorityMailbox \<Rightarrow> 'm PriorityMailbox" where
  "pm_siftDown pf n i q =
     (let left = 2 * i + 1 in
      if n \<le> left then q
      else let right = left + 1;
               child = (if right < n \<and> pm_less pf q right left then right else left)
           in if \<not> pm_less pf q child i then q
              else pm_siftDown pf n child (pm_swap i child q))"
  by pat_completeness auto
termination by (relation "measure (\<lambda>(_, n, i, _). n - i)") (auto simp: Let_def split: if_splits)

declare pm_siftUp.simps [simp del] pm_siftDown.simps [simp del]

definition pm_push :: "'m \<Rightarrow> 'm PriorityMailbox \<Rightarrow> 'm PriorityMailbox" where
  "pm_push m q =
     (let q1 = q\<lparr>pm_items := pm_items q @ [m]\<rparr> in
      case pm_seqs q1 of
        None \<Rightarrow> q1
      | Some seqs \<Rightarrow> q1\<lparr>pm_seqs := Some (seqs @ [pm_seq q1]), pm_seq := pm_seq q1 + 1\<rparr>)"

definition pm_enqueue ::
  "('m \<Rightarrow> 'm \<Rightarrow> bool) \<Rightarrow> 'm \<Rightarrow> 'm PriorityMailbox \<Rightarrow> MailboxError option \<times> 'm PriorityMailbox" where
  "pm_enqueue pf m q =
     (if pm_disposed q then (Some ErrMailboxDisposed, q)
      else if (case pm_capacity q of None \<Rightarrow> False | Some c \<Rightarrow> c \<le> length (pm_items q))
           then (Some ErrMailboxFull, q)
      else let q1 = pm_push m q in (None, pm_siftUp pf (length (pm_items q1) - 1) q1))"

text \<open>Both arrays give up their last slot, and a heap that is left with any moves it to the top.\<close>

definition pm_pop :: "'m PriorityMailbox \<Rightarrow> 'm PriorityMailbox" where
  "pm_pop q =
     (let n = length (pm_items q);
          last_item = last (pm_items q);
          lastSeq = (case pm_seqs q of None \<Rightarrow> 0 | Some seqs \<Rightarrow> last seqs);
          q1 = q\<lparr>pm_items := butlast (pm_items q), pm_seqs := map_option butlast (pm_seqs q)\<rparr>
      in if 1 < n
         then q1\<lparr>pm_items := (pm_items q1)[0 := last_item],
                 pm_seqs := map_option (\<lambda>seqs. seqs[0 := lastSeq]) (pm_seqs q1)\<rparr>
         else q1)"

definition pm_dequeue ::
  "('m \<Rightarrow> 'm \<Rightarrow> bool) \<Rightarrow> 'm PriorityMailbox \<Rightarrow> 'm option \<times> 'm PriorityMailbox" where
  "pm_dequeue pf q =
     (let n = length (pm_items q) in
      if n = 0 then (None, q)
      else let top = pm_items q ! 0; q1 = pm_pop q
           in (Some top, if 1 < n then pm_siftDown pf (length (pm_items q1)) 0 q1 else q1))"

definition pm_isEmpty :: "'m PriorityMailbox \<Rightarrow> bool" where
  "pm_isEmpty q = (length (pm_items q) = 0)"

definition pm_len :: "'m PriorityMailbox \<Rightarrow> nat" where
  "pm_len q = length (pm_items q)"

definition pm_dispose :: "'m PriorityMailbox \<Rightarrow> 'm PriorityMailbox" where
  "pm_dispose q = q\<lparr>pm_disposed := True, pm_items := [], pm_seqs := map_option (\<lambda>_. []) (pm_seqs q)\<rparr>"

definition priority_mailbox :: "('m \<Rightarrow> 'm \<Rightarrow> bool) \<Rightarrow> ('m, 'm PriorityMailbox) Mailbox" where
  "priority_mailbox pf =
     \<lparr>mb_enqueue = pm_enqueue pf, mb_dequeue = pm_dequeue pf, mb_isEmpty = pm_isEmpty,
      mb_len = pm_len, mb_dispose = pm_dispose\<rparr>"

text \<open>The four exported classes.\<close>

definition checkCapacity :: "int \<Rightarrow> RangeError + unit" where
  "checkCapacity capacity = (if capacity \<le> 0 then Inl RangeError else Inr ())"

definition UnboundedPriorityMailbox :: "'m PriorityMailbox" where
  "UnboundedPriorityMailbox = pm_new None False"

definition UnboundedStablePriorityMailbox :: "'m PriorityMailbox" where
  "UnboundedStablePriorityMailbox = pm_new None True"

definition BoundedPriorityMailbox :: "int \<Rightarrow> RangeError + 'm PriorityMailbox" where
  "BoundedPriorityMailbox capacity =
     (case checkCapacity capacity of Inl e \<Rightarrow> Inl e | Inr _ \<Rightarrow> Inr (pm_new (Some (nat capacity)) False))"

definition BoundedStablePriorityMailbox :: "int \<Rightarrow> RangeError + 'm PriorityMailbox" where
  "BoundedStablePriorityMailbox capacity =
     (case checkCapacity capacity of Inl e \<Rightarrow> Inl e | Inr _ \<Rightarrow> Inr (pm_new (Some (nat capacity)) True))"

section \<open>The two arrays as one heap\<close>

text \<open>
  A slot is an item with its arrival number (zero throughout in the unstable
  variants), and \<open>less\<close> compares slots.
\<close>

definition pm_entries :: "'m PriorityMailbox \<Rightarrow> ('m \<times> nat) list" where
  "pm_entries q =
     zip (pm_items q) (case pm_seqs q of None \<Rightarrow> replicate (length (pm_items q)) 0 | Some seqs \<Rightarrow> seqs)"

fun outranks :: "('m \<Rightarrow> 'm \<Rightarrow> bool) \<Rightarrow> 'm \<times> nat \<Rightarrow> 'm \<times> nat \<Rightarrow> bool" where
  "outranks pf (a, s) (b, t) \<longleftrightarrow> pf a b \<or> \<not> pf b a \<and> s < t"

definition pm_shape :: "'m PriorityMailbox \<Rightarrow> bool" where
  "pm_shape q \<longleftrightarrow> (case pm_seqs q of None \<Rightarrow> True | Some seqs \<Rightarrow> length seqs = length (pm_items q))"

text \<open>What the sifting loops leave alone.\<close>

definition pm_frame :: "'m PriorityMailbox \<Rightarrow> 'm PriorityMailbox \<Rightarrow> bool" where
  "pm_frame q q' \<longleftrightarrow> pm_shape q' \<and> (pm_seqs q' = None \<longleftrightarrow> pm_seqs q = None)
     \<and> pm_capacity q' = pm_capacity q \<and> pm_seq q' = pm_seq q \<and> pm_disposed q' = pm_disposed q"

lemma length_pm_entries [simp]: "pm_shape q \<Longrightarrow> length (pm_entries q) = length (pm_items q)"
  by (simp add: pm_entries_def pm_shape_def split: option.splits)

lemma map_fst_entries [simp]: "pm_shape q \<Longrightarrow> map fst (pm_entries q) = pm_items q"
  by (simp add: pm_entries_def pm_shape_def split: option.splits)

lemma pm_less_entries:
  "pm_shape q \<Longrightarrow> i < length (pm_items q) \<Longrightarrow> j < length (pm_items q) \<Longrightarrow>
     pm_less pf q i j = outranks pf (pm_entries q ! i) (pm_entries q ! j)"
  by (auto simp: pm_entries_def pm_shape_def pm_less_def Let_def split: option.splits)

lemma pm_entries_swap:
  assumes "pm_shape q" "i < length (pm_items q)" "j < length (pm_items q)"
  shows "pm_entries (pm_swap i j q) = swap_at i j (pm_entries q)"
  using assms
  by (simp add: pm_entries_def pm_shape_def pm_swap_def swap_at_def zip_update Let_def split: option.splits)
    (simp add: list_eq_iff_nth_eq nth_list_update)

lemma pm_frame_swap: "pm_shape q \<Longrightarrow> pm_frame q (pm_swap i j q)"
  by (auto simp: pm_frame_def pm_shape_def pm_swap_def Let_def split: option.splits)

lemma pm_frame_refl: "pm_shape q \<Longrightarrow> pm_frame q q"
  by (simp add: pm_frame_def)

lemma pm_frame_trans: "pm_frame q q' \<Longrightarrow> pm_frame q' q'' \<Longrightarrow> pm_frame q q''"
  by (simp add: pm_frame_def)

lemma length_items_swap [simp]: "length (pm_items (pm_swap i j q)) = length (pm_items q)"
  by (simp add: pm_swap_def)

lemma pm_siftUp_heap:
  "pm_shape q \<Longrightarrow> j < length (pm_items q) \<Longrightarrow>
     pm_entries (pm_siftUp pf j q) = heap_up (outranks pf) j (pm_entries q) \<and> pm_frame q (pm_siftUp pf j q)"
proof (induction j arbitrary: q rule: less_induct)
  case (less j)
  let ?i = "parent j"
  show ?case
  proof (cases "0 < j \<and> pm_less pf q j ?i")
    case True
    have i: "?i < j" using True by (simp add: parent_less)
    have sw: "pm_frame q (pm_swap ?i j q)" using less.prems by (simp add: pm_frame_swap)
    have "pm_siftUp pf j q = pm_siftUp pf ?i (pm_swap ?i j q)"
      using True by (subst pm_siftUp.simps) (simp add: parent_def Let_def)
    moreover have "heap_up (outranks pf) j (pm_entries q) = heap_up (outranks pf) ?i (swap_at ?i j (pm_entries q))"
      using True i less.prems pm_less_entries [of q j ?i pf] by (subst heap_up.simps) simp
    ultimately show ?thesis
      using less.IH [OF i, of "pm_swap ?i j q"] sw less.prems i pm_entries_swap [of q ?i j]
        pm_frame_trans [OF sw] by (simp add: pm_frame_def)
  next
    case False
    have "pm_siftUp pf j q = q"
      using False by (subst pm_siftUp.simps) (auto simp: parent_def Let_def)
    moreover have "heap_up (outranks pf) j (pm_entries q) = pm_entries q"
      using False less.prems pm_less_entries [of q j ?i pf] parent_less [of j]
      by (subst heap_up.simps) auto
    ultimately show ?thesis using less.prems by (simp add: pm_frame_refl)
  qed
qed

lemma pm_child_best:
  "pm_shape q \<Longrightarrow> n = length (pm_items q) \<Longrightarrow> 2 * i + 1 < n \<Longrightarrow>
     (if 2 * i + 1 + 1 < n \<and> pm_less pf q (2 * i + 1 + 1) (2 * i + 1) then 2 * i + 1 + 1 else 2 * i + 1)
       = best_child (outranks pf) n i (pm_entries q)"
  by (auto simp: best_child_def pm_less_entries)

lemma pm_siftDown_step:
  assumes "pm_shape q" "n = length (pm_items q)" "c = best_child (outranks pf) n i (pm_entries q)"
  shows "pm_siftDown pf n i q =
     (if 2 * i + 1 < n \<and> outranks pf (pm_entries q ! c) (pm_entries q ! i)
      then pm_siftDown pf n c (pm_swap i c q) else q)"
proof (cases "2 * i + 1 < n")
  case True
  have c: "i < c" "c < n" using best_child_bounds [OF True] assms(3) by auto
  have notless: "(n \<le> 2 * i + 1) = False" using True by simp
  have "pm_siftDown pf n i q = (if \<not> pm_less pf q c i then q else pm_siftDown pf n c (pm_swap i c q))"
    unfolding assms(3) pm_child_best [OF assms(1,2) True, of pf, symmetric]
    by (subst pm_siftDown.simps) (simp only: Let_def notless if_False)
  then show ?thesis using True c assms(1,2) pm_less_entries [of q c i pf] by simp
qed (subst pm_siftDown.simps, simp add: Let_def)

lemma pm_siftDown_heap:
  "pm_shape q \<Longrightarrow> n = length (pm_items q) \<Longrightarrow>
     pm_entries (pm_siftDown pf n i q) = heap_down (outranks pf) n i (pm_entries q)
       \<and> pm_frame q (pm_siftDown pf n i q)"
proof (induction "n - i" arbitrary: i q rule: less_induct)
  case less
  let ?c = "best_child (outranks pf) n i (pm_entries q)"
  note step = pm_siftDown_step [OF less.prems refl, of pf i]
  show ?case
  proof (cases "2 * i + 1 < n \<and> outranks pf (pm_entries q ! ?c) (pm_entries q ! i)")
    case True
    have c: "i < ?c" "?c < n" using True best_child_bounds by auto
    have sw: "pm_frame q (pm_swap i ?c q)" using less.prems by (simp add: pm_frame_swap)
    have "heap_down (outranks pf) n i (pm_entries q) = heap_down (outranks pf) n ?c (swap_at i ?c (pm_entries q))"
      using True by (subst heap_down.simps) simp
    moreover have "pm_entries (pm_siftDown pf n ?c (pm_swap i ?c q))
        = heap_down (outranks pf) n ?c (pm_entries (pm_swap i ?c q))
        \<and> pm_frame (pm_swap i ?c q) (pm_siftDown pf n ?c (pm_swap i ?c q))"
      using c sw less.prems(2) by (intro less.hyps) (auto simp: pm_frame_def)
    moreover have "pm_entries (pm_swap i ?c q) = swap_at i ?c (pm_entries q)"
      using pm_entries_swap [OF less.prems(1)] c less.prems(2) by simp
    moreover have "pm_siftDown pf n i q = pm_siftDown pf n ?c (pm_swap i ?c q)"
      using step True by simp
    ultimately show ?thesis using pm_frame_trans [OF sw] by simp
  next
    case False
    have "heap_down (outranks pf) n i (pm_entries q) = pm_entries q"
      using False by (subst heap_down.simps) auto
    moreover have "pm_siftDown pf n i q = q" unfolding step if_not_P [OF False] ..
    ultimately show ?thesis using less.prems(1) by (simp add: pm_frame_refl)
  qed
qed

section \<open>Nothing is lost, whatever the priority function answers\<close>

definition pm_inv :: "'m PriorityMailbox \<Rightarrow> bool" where
  "pm_inv q \<longleftrightarrow> pm_shape q \<and> (pm_disposed q \<longrightarrow> pm_items q = [])
     \<and> (case pm_capacity q of None \<Rightarrow> True | Some c \<Rightarrow> length (pm_items q) \<le> c)
     \<and> (case pm_seqs q of None \<Rightarrow> True | Some seqs \<Rightarrow> mset seqs \<subseteq># mset [0..<pm_seq q])"

lemma pm_inv_new: "pm_inv (pm_new c b)"
  by (simp add: pm_inv_def pm_new_def pm_shape_def split: option.splits)

lemma pm_entries_new [simp]: "pm_entries (pm_new c b) = []"
  by (simp add: pm_entries_def pm_new_def)

definition seq_of :: "'m PriorityMailbox \<Rightarrow> nat" where
  "seq_of q = (case pm_seqs q of None \<Rightarrow> 0 | Some _ \<Rightarrow> pm_seq q)"

text \<open>The invariant as a fact about the slots.\<close>

lemma map_snd_entries:
  "pm_shape q \<Longrightarrow> map snd (pm_entries q) =
     (case pm_seqs q of None \<Rightarrow> replicate (length (pm_items q)) 0 | Some seqs \<Rightarrow> seqs)"
  by (auto simp: pm_entries_def pm_shape_def split: option.splits)

lemma pm_inv_entries:
  "pm_inv q \<longleftrightarrow> pm_shape q \<and> (pm_disposed q \<longrightarrow> pm_entries q = [])
     \<and> (case pm_capacity q of None \<Rightarrow> True | Some c \<Rightarrow> size (mset (pm_entries q)) \<le> c)
     \<and> (pm_seqs q \<noteq> None \<longrightarrow> image_mset snd (mset (pm_entries q)) \<subseteq># mset [0..<pm_seq q])"
proof (cases "pm_shape q")
  case True
  have e: "(pm_entries q = []) = (pm_items q = [])"
    using length_pm_entries [OF True] by (metis length_0_conv)
  have s: "image_mset snd (mset (pm_entries q)) = mset seqs" if "pm_seqs q = Some seqs" for seqs
    using map_snd_entries [OF True] that by (metis mset_map option.simps(5))
  show ?thesis
    using True e s by (auto simp: pm_inv_def split: option.splits simp del: mset_upt)
qed (simp add: pm_inv_def)

lemma pm_push_entries:
  assumes "pm_shape q"
  shows "pm_shape (pm_push m q)" "pm_entries (pm_push m q) = pm_entries q @ [(m, seq_of q)]"
  using assms
  by (auto simp: pm_push_def pm_shape_def pm_entries_def seq_of_def replicate_append_same [symmetric]
      split: option.splits)

lemma pm_enqueue_entries:
  assumes inv: "pm_inv q" and e: "pm_enqueue pf m q = (None, q')"
  shows "pm_entries q' = heap_up (outranks pf) (length (pm_items q)) (pm_entries q @ [(m, seq_of q)])"
    and "pm_frame (pm_push m q) q'" and "\<not> pm_disposed q" and "pm_capacity q \<noteq> Some (length (pm_items q))"
proof -
  have sh: "pm_shape q" using inv by (simp add: pm_inv_def)
  have len: "length (pm_items (pm_push m q)) = Suc (length (pm_items q))"
    by (simp add: pm_push_def Let_def split: option.splits)
  have q': "q' = pm_siftUp pf (length (pm_items q)) (pm_push m q)"
    using e len by (auto simp: pm_enqueue_def Let_def split: if_splits)
  show "pm_entries q' = heap_up (outranks pf) (length (pm_items q)) (pm_entries q @ [(m, seq_of q)])"
    and "pm_frame (pm_push m q) q'"
    using pm_siftUp_heap [OF pm_push_entries(1) [OF sh], of "length (pm_items q)" m pf] len q'
      pm_push_entries(2) [OF sh] by simp_all
  show "\<not> pm_disposed q" "pm_capacity q \<noteq> Some (length (pm_items q))"
    using e by (auto simp: pm_enqueue_def split: if_splits)
qed

lemma pm_enqueue_mset:
  assumes "pm_inv q" and "pm_enqueue pf m q = (None, q')"
  shows "mset (pm_entries q') = add_mset (m, seq_of q) (mset (pm_entries q))"
proof -
  have "pm_shape q" using assms(1) by (simp add: pm_inv_def)
  then show ?thesis
    using pm_enqueue_entries(1) [OF assms] heap_up_perm [of "length (pm_items q)" "pm_entries q @ [(m, seq_of q)]" "outranks pf"]
    by simp
qed

lemma pm_enqueue_inv:
  assumes inv: "pm_inv q" and e: "pm_enqueue pf m q = (None, q')"
  shows "pm_inv q'"
proof -
  have sh: "pm_shape q" using inv by (simp add: pm_inv_def)
  have fr: "pm_shape q'" "pm_disposed q' = pm_disposed q" "pm_capacity q' = pm_capacity q"
      "(pm_seqs q' = None) = (pm_seqs q = None)" "pm_seqs q \<noteq> None \<Longrightarrow> pm_seq q' = Suc (pm_seq q)"
    using pm_enqueue_entries(2) [OF inv e] by (auto simp: pm_frame_def pm_push_def Let_def split: option.splits)
  have cap: "\<And>c. pm_capacity q = Some c \<Longrightarrow> length (pm_items q) < c"
    using pm_enqueue_entries(4) [OF inv e] inv by (force simp: pm_inv_def)
  show ?thesis
    using inv cap pm_enqueue_entries(3) [OF inv e] sh fr
    unfolding pm_inv_entries pm_enqueue_mset [OF inv e]
    by (auto simp: seq_of_def split: option.splits simp del: mset_upt)
qed

lemma pm_pop_entries:
  assumes sh: "pm_shape q" and es: "pm_entries q = e # es"
  shows "pm_shape (pm_pop q)" "pm_entries (pm_pop q) = (if es = [] then [] else last es # butlast es)"
proof -
  obtain x xs where it: "pm_items q = x # xs" "x = fst e" "xs = map fst es"
    using map_fst_entries [OF sh] es by (metis list.simps(9))
  obtain sq where sq: "map snd (pm_entries q) = snd e # sq" "sq = map snd es" using es by simp
  have zip: "zip (last xs # butlast xs) (last sq # butlast sq) = last es # butlast es" if "es \<noteq> []"
    using it(3) sq(2) that by (simp add: last_map map_butlast [symmetric] zip_map_fst_snd)
  have len: "length xs = length es" "length sq = length es" using it sq by auto
  have seqs: "pm_seqs q = None \<and> sq = replicate (length es) 0 \<or> pm_seqs q = Some (snd e # sq)"
    using map_snd_entries [OF sh] sq it es length_pm_entries [OF sh] by (auto split: option.splits)
  show "pm_shape (pm_pop q)"
    using seqs it(1) len by (auto simp: pm_pop_def pm_shape_def Let_def)
  show "pm_entries (pm_pop q) = (if es = [] then [] else last es # butlast es)"
  proof (cases "es = []")
    case True
    then show ?thesis using it(1) len by (simp add: pm_pop_def pm_entries_def)
  next
    case False
    then have ne: "xs \<noteq> []" "sq \<noteq> []" using len by auto
    have rep: "replicate (length es) 0 = last sq # butlast sq" if "sq = replicate (length es) (0::nat)"
      using that False by (cases "length es") (auto simp: replicate_append_same [symmetric])
    have "pm_entries (pm_pop q) = zip (last xs # butlast xs) (last sq # butlast sq)"
      using seqs
    proof
      assume none: "pm_seqs q = None \<and> sq = replicate (length es) 0"
      then have "pm_entries (pm_pop q) = zip (last xs # butlast xs) (replicate (length es) 0)"
        using it(1) ne len by (simp add: pm_pop_def pm_entries_def Let_def)
      then show ?thesis using rep none by metis
    qed (use it(1) ne len False in \<open>simp add: pm_pop_def pm_entries_def Let_def\<close>)
    then show ?thesis using zip [OF False] False by simp
  qed
qed

lemma pm_dequeue_entries:
  assumes inv: "pm_inv q" and d: "pm_dequeue pf q = (Some m, q')"
  obtains e es where "pm_entries q = e # es" "m = fst e" "pm_frame q q'"
    "pm_entries q' = (if es = [] then [] else heap_down (outranks pf) (length es) 0 (last es # butlast es))"
proof -
  have sh: "pm_shape q" using inv by (simp add: pm_inv_def)
  obtain e es where es: "pm_entries q = e # es"
    using d length_pm_entries [OF sh] by (cases "pm_entries q") (auto simp: pm_dequeue_def)
  have it: "pm_items q = fst e # map fst es" using map_fst_entries [OF sh] es by (metis list.simps(9))
  note pop = pm_pop_entries [OF sh es]
  have fr: "pm_frame q (pm_pop q)"
    using pop(1) by (auto simp: pm_frame_def pm_pop_def Let_def)
  have len: "length (pm_items (pm_pop q)) = length es"
    using length_pm_entries [OF pop(1)] pop(2) by (simp split: if_splits)
  have m: "m = fst e" and q': "q' = (if es = [] then pm_pop q else pm_siftDown pf (length es) 0 (pm_pop q))"
    using d it len by (auto simp: pm_dequeue_def Let_def)
  show thesis
  proof (rule that [OF es m])
    show "pm_frame q q'"
      using pm_siftDown_heap [OF pop(1) len [symmetric], of pf 0] q' fr pm_frame_trans [OF fr] by auto
    show "pm_entries q' = (if es = [] then [] else heap_down (outranks pf) (length es) 0 (last es # butlast es))"
      using pm_siftDown_heap [OF pop(1) len [symmetric], of pf 0] q' pop(2) by auto
  qed
qed

lemma pm_dequeue_mset:
  assumes "pm_inv q" and "pm_dequeue pf q = (Some m, q')"
  obtains e where "pm_entries q ! 0 = e" "pm_entries q \<noteq> []" "m = fst e"
    "mset (pm_entries q) = add_mset e (mset (pm_entries q'))"
proof -
  obtain e es where e: "pm_entries q = e # es" "m = fst e"
    "pm_entries q' = (if es = [] then [] else heap_down (outranks pf) (length es) 0 (last es # butlast es))"
    using pm_dequeue_entries [OF assms] .
  have "mset (last es # butlast es) = mset es" if "es \<noteq> []"
    using append_butlast_last_id [OF that] by (metis add.commute mset.simps mset_append union_mset_add_mset_right add_0_right)
  then have "mset (pm_entries q') = mset es"
    using e(3) heap_down_perm [of "length es" "last es # butlast es" "outranks pf" 0] by (cases "es = []") auto
  then show thesis using that e by simp
qed

lemma pm_dequeue_inv:
  assumes inv: "pm_inv q" and d: "pm_dequeue pf q = (Some m, q')"
  shows "pm_inv q'"
proof -
  obtain e where e: "mset (pm_entries q) = add_mset e (mset (pm_entries q'))" "pm_entries q \<noteq> []"
    using pm_dequeue_mset [OF inv d] .
  have fr: "pm_frame q q'" using pm_dequeue_entries [OF inv d] .
  have "image_mset snd (mset (pm_entries q')) \<subseteq># image_mset snd (mset (pm_entries q))"
    unfolding e(1) by simp
  then show ?thesis
    using inv fr e unfolding pm_inv_entries pm_frame_def
    by (auto split: option.splits simp del: mset_upt size_mset
        dest!: mset_subset_eq_insertD intro: subset_mset.less_imp_le)
qed

lemma pm_dequeue_none: "pm_dequeue pf q = (None, q') \<Longrightarrow> q' = q \<and> pm_items q = []"
  by (auto simp: pm_dequeue_def Let_def split: if_splits)

lemma pm_mset_items: "pm_shape q \<Longrightarrow> mset (pm_items q) = image_mset fst (mset (pm_entries q))"
  by (metis map_fst_entries mset_map)

interpretation pm: mailbox "priority_mailbox pf" pm_inv pm_disposed "\<lambda>q. mset (pm_items q)" for pf
proof (unfold_locales, goal_cases)
  case (1 q m q')
  then have e: "pm_enqueue pf m q = (None, q')" by (simp add: priority_mailbox_def)
  have "pm_disposed q' = pm_disposed q"
    using pm_enqueue_entries(2) [OF 1(1) e] by (auto simp: pm_frame_def pm_push_def Let_def split: option.splits)
  then show ?case
    using pm_enqueue_inv [OF 1(1) e] pm_enqueue_mset [OF 1(1) e] pm_enqueue_entries(3) [OF 1(1) e] 1(1)
    by (simp add: pm_mset_items pm_inv_def)
next
  case (4 q m q')
  then have d: "pm_dequeue pf q = (Some m, q')" by (simp add: priority_mailbox_def)
  obtain e where "m = fst e" "mset (pm_entries q) = add_mset e (mset (pm_entries q'))"
    using pm_dequeue_mset [OF 4(1) d] .
  moreover have "pm_disposed q' = pm_disposed q"
    using pm_dequeue_entries [OF 4(1) d] by (metis pm_frame_def)
  ultimately show ?case
    using pm_dequeue_inv [OF 4(1) d] 4(1) by (simp add: pm_mset_items pm_inv_def)
next
  case (8 q)
  then show ?case
    by (auto simp: priority_mailbox_def pm_dispose_def pm_inv_def pm_shape_def split: option.splits)
qed (auto simp: priority_mailbox_def pm_enqueue_def pm_isEmpty_def pm_len_def pm_inv_def Let_def
    dest: pm_dequeue_none split: if_splits)

section \<open>Delivery by priority\<close>

text \<open>
  A priority function is meant to be a strict weak order: it never ranks two
  messages above each other, and not being outranked is transitive.  The empty
  order stands in for a function that is not one, so that the heap library
  applies to every function.
\<close>

definition weak_order :: "('m \<Rightarrow> 'm \<Rightarrow> bool) \<Rightarrow> bool" where
  "weak_order pf \<longleftrightarrow>
     (\<forall>a b. pf a b \<longrightarrow> \<not> pf b a) \<and> (\<forall>a b c. \<not> pf a b \<longrightarrow> \<not> pf b c \<longrightarrow> \<not> pf a c)"

definition order_of :: "('m \<Rightarrow> 'm \<Rightarrow> bool) \<Rightarrow> 'm \<Rightarrow> 'm \<Rightarrow> bool" where
  "order_of pf = (if weak_order pf then pf else (\<lambda>_ _. False))"

lemma weak_order_of: "weak_order (order_of pf)"
  by (simp add: order_of_def) (simp add: weak_order_def)

lemma weak_orderD:
  assumes "weak_order pf"
  shows "pf a b \<Longrightarrow> \<not> pf b a" and "\<not> pf a b \<Longrightarrow> \<not> pf b c \<Longrightarrow> \<not> pf a c"
  using assms unfolding weak_order_def by blast+

lemma outranks_asym:
  assumes "weak_order pf"
  shows "outranks pf a b \<Longrightarrow> \<not> outranks pf b a"
  using weak_orderD(1) [OF assms, of "fst a" "fst b"] by (cases a; cases b) auto

lemma outranks_neg_trans:
  assumes "weak_order pf"
  shows "\<not> outranks pf a b \<Longrightarrow> \<not> outranks pf b c \<Longrightarrow> \<not> outranks pf a c"
  using weak_orderD(2) [OF assms, of "fst a" "fst b" "fst c"]
    weak_orderD(2) [OF assms, of "fst c" "fst a" "fst b"] weak_orderD(2) [OF assms, of "fst b" "fst c" "fst a"]
  by (cases a; cases b; cases c) auto

interpretation rank: heap_order "outranks (order_of pf)" for pf
  using outranks_asym [OF weak_order_of] outranks_neg_trans [OF weak_order_of]
  by unfold_locales blast+

definition pm_ranked :: "('m \<Rightarrow> 'm \<Rightarrow> bool) \<Rightarrow> 'm PriorityMailbox \<Rightarrow> bool" where
  "pm_ranked pf q \<longleftrightarrow> pm_inv q \<and> rank.heap pf (pm_entries q)"

lemma pm_ranked_new: "pm_ranked pf (pm_new c b)"
  by (simp add: pm_ranked_def pm_inv_new rank.heap_def)

lemma pm_ranked_enqueue:
  assumes "pm_ranked pf q" and e: "pm_enqueue (order_of pf) m q = (None, q')"
  shows "pm_ranked pf q'"
proof -
  have inv: "pm_inv q" and heap: "rank.heap pf (pm_entries q)" using assms(1) by (auto simp: pm_ranked_def)
  have "length (pm_items q) = length (pm_entries q)" using inv by (simp add: pm_inv_def)
  then show ?thesis
    using pm_enqueue_inv [OF inv e] pm_enqueue_entries(1) [OF inv e] rank.push_heap [OF heap]
    by (simp add: pm_ranked_def)
qed

lemma pm_ranked_dequeue:
  assumes "pm_ranked pf q" and d: "pm_dequeue (order_of pf) q = (Some m, q')"
  shows "pm_ranked pf q'"
proof -
  have inv: "pm_inv q" and heap: "rank.heap pf (pm_entries q)" using assms(1) by (auto simp: pm_ranked_def)
  obtain e es where e: "pm_entries q = e # es"
    "pm_entries q' = (if es = [] then [] else heap_down (outranks (order_of pf)) (length es) 0 (last es # butlast es))"
    using pm_dequeue_entries [OF inv d] .
  have "rank.heap pf (pm_entries q')"
    using rank.pop_heap [of pf e es] heap e by (simp add: rank.heap_def split: if_splits)
  then show ?thesis using pm_dequeue_inv [OF inv d] by (simp add: pm_ranked_def)
qed

lemma pm_ranked_call:
  assumes r: "pm_ranked pf q" and c: "mb_call (priority_mailbox (order_of pf)) c q = (a, q')"
  shows "pm_ranked pf q'"
proof -
  have inv: "pm_inv q" using r by (simp add: pm_ranked_def)
  from inv c show ?thesis
  proof (cases rule: pm.call_cases)
    case (accept m)
    then show ?thesis using pm_ranked_enqueue [OF r] by (simp add: priority_mailbox_def)
  next
    case (refuse m e)
    then have "q' = q" by (auto simp: priority_mailbox_def pm_enqueue_def Let_def split: if_splits)
    then show ?thesis using r by simp
  next
    case (deliver m)
    then show ?thesis using pm_ranked_dequeue [OF r] by (simp add: priority_mailbox_def)
  next
    case drained
    then show ?thesis using pm_dequeue_none r by (simp add: priority_mailbox_def) blast
  next
    case dispose
    then have "pm_items q' = []" by (simp add: priority_mailbox_def pm_dispose_def)
    then show ?thesis using pm.call_inv [OF inv c] by (simp add: pm_ranked_def rank.heap_def pm_entries_def)
  qed (use r in simp)
qed

lemma pm_ranked_run:
  "pm_ranked pf q \<Longrightarrow> mb_run (priority_mailbox (order_of pf)) cs q = (as, q') \<Longrightarrow> pm_ranked pf q'"
  by (induction cs arbitrary: q as) (auto dest: pm_ranked_call split: prod.splits)

lemma pm_ranked_top:
  assumes "pm_ranked pf q" and d: "pm_dequeue (order_of pf) q = (Some m, q')" and "x \<in> set (pm_items q)"
  shows "\<not> order_of pf x m"
proof -
  have inv: "pm_inv q" and heap: "rank.heap pf (pm_entries q)" using assms(1) by (auto simp: pm_ranked_def)
  obtain e where e: "pm_entries q ! 0 = e" "m = fst e" using pm_dequeue_mset [OF inv d] .
  have "x \<in> set (map fst (pm_entries q))" using assms(3) inv by (simp add: pm_inv_def del: set_map)
  then obtain s where "(x, s) \<in> set (pm_entries q)" by auto
  then have "\<not> outranks (order_of pf) (x, s) e" using rank.heap_hd [OF heap] e(1) by simp
  then show ?thesis using e(2) by (cases e) simp
qed

section \<open>The stable variants as a sorted list\<close>

text \<open>
  The reference keeps the pending messages in serving order: a new one goes
  behind all those it does not outrank.
\<close>

definition ins :: "('a \<Rightarrow> 'a \<Rightarrow> bool) \<Rightarrow> 'a \<Rightarrow> 'a list \<Rightarrow> 'a list" where
  "ins lt x xs = takeWhile (\<lambda>y. \<not> lt x y) xs @ x # dropWhile (\<lambda>y. \<not> lt x y) xs"

definition ranked_enqueue ::
  "('m \<Rightarrow> 'm \<Rightarrow> bool) \<Rightarrow> nat option \<Rightarrow> 'm \<Rightarrow> 'm fifo \<Rightarrow> MailboxError option \<times> 'm fifo" where
  "ranked_enqueue pf cap m q =
     (if gone q then (Some ErrMailboxDisposed, q)
      else if cap = Some (length (items q)) then (Some ErrMailboxFull, q)
      else (None, q\<lparr>items := ins pf m (items q)\<rparr>))"

definition ranked_spec :: "('m \<Rightarrow> 'm \<Rightarrow> bool) \<Rightarrow> nat option \<Rightarrow> ('m, 'm fifo) Mailbox" where
  "ranked_spec pf cap = (fifo_spec cap)\<lparr>mb_enqueue := ranked_enqueue pf cap\<rparr>"

definition isort :: "('a \<Rightarrow> 'a \<Rightarrow> bool) \<Rightarrow> 'a list \<Rightarrow> 'a list" where
  "isort lt xs = foldr (ins lt) xs []"

lemma mset_ins [simp]: "mset (ins lt x xs) = add_mset x (mset xs)"
proof -
  have "mset (takeWhile P xs) + mset (dropWhile P xs) = mset xs" for P
    by (metis mset_append takeWhile_dropWhile_id)
  then show ?thesis by (simp add: ins_def)
qed

lemma mset_isort [simp]: "mset (isort lt xs) = mset xs"
  by (induction xs) (simp_all add: isort_def)

lemma length_isort [simp]: "length (isort lt xs) = length xs"
  by (metis mset_isort size_mset)

lemma ins_map:
  "\<forall>y \<in> set xs. lt x y = lt' (f x) (f y) \<Longrightarrow> map f (ins lt x xs) = ins lt' (f x) (map f xs)"
  unfolding ins_def takeWhile_map dropWhile_map
  by (simp cong: takeWhile_cong dropWhile_cong)

context heap_order
begin

lemma ins_sorted: "sorted_wrt (\<lambda>a b. \<not> lt b a) xs \<Longrightarrow> sorted_wrt (\<lambda>a b. \<not> lt b a) (ins lt x xs)"
proof (induction xs)
  case (Cons y ys)
  show ?case
  proof (cases "lt x y")
    case True
    then have "\<not> lt z x" if "z \<in> set (y # ys)" for z
      using Cons.prems that lt_asym lt_neg_trans by (metis set_ConsD sorted_wrt.simps(2))
    then show ?thesis using Cons.prems True by (simp add: ins_def)
  next
    case False
    have eq: "ins lt x (y # ys) = y # ins lt x ys" using False by (simp add: ins_def)
    have "set (ins lt x ys) = insert x (set ys)"
      by (metis mset_ins set_mset_add_mset_insert set_mset_mset)
    then show ?thesis unfolding eq using Cons False by auto
  qed
qed (simp add: ins_def)

lemma isort_sorted: "sorted_wrt (\<lambda>a b. \<not> lt b a) (isort lt xs)"
  by (induction xs) (simp_all add: isort_def ins_sorted)

lemma sorted_unique:
  assumes "sorted_wrt (\<lambda>a b. \<not> lt b a) xs" "sorted_wrt (\<lambda>a b. \<not> lt b a) ys" "mset xs = mset ys"
    and "\<And>a b. a \<in> set xs \<Longrightarrow> b \<in> set xs \<Longrightarrow> a \<noteq> b \<Longrightarrow> lt a b \<or> lt b a"
  shows "xs = ys"
  using assms
proof (induction xs arbitrary: ys)
  case (Cons x xs)
  obtain y zs where ys: "ys = y # zs" using Cons.prems(3) by (cases ys) auto
  have sets: "set (x # xs) = set (y # zs)" using Cons.prems(3) ys by (metis set_mset_mset)
  have "x = y"
  proof (rule ccontr)
    assume "x \<noteq> y"
    then have "y \<in> set xs" "x \<in> set zs" using sets by auto
    then have "\<not> lt y x" "\<not> lt x y" using Cons.prems(1,2) ys by auto
    then show False using Cons.prems(4) [of x y] \<open>y \<in> set xs\<close> \<open>x \<noteq> y\<close> by simp
  qed
  then show ?case using Cons.IH [of zs] Cons.prems ys by simp
qed simp

lemma isort_eqI:
  assumes "sorted_wrt (\<lambda>a b. \<not> lt b a) ys" "mset xs = mset ys"
    and "\<And>a b. a \<in> set ys \<Longrightarrow> b \<in> set ys \<Longrightarrow> a \<noteq> b \<Longrightarrow> lt a b \<or> lt b a"
  shows "isort lt xs = ys"
  using sorted_unique [OF assms(1) isort_sorted [of xs]] assms(2,3) by simp

end

definition pm_abs :: "('m \<Rightarrow> 'm \<Rightarrow> bool) \<Rightarrow> 'm PriorityMailbox \<Rightarrow> 'm fifo" where
  "pm_abs pf q = \<lparr>items = map fst (isort (outranks (order_of pf)) (pm_entries q)), gone = pm_disposed q\<rparr>"

definition pm_stable :: "('m \<Rightarrow> 'm \<Rightarrow> bool) \<Rightarrow> nat option \<Rightarrow> 'm PriorityMailbox \<Rightarrow> bool" where
  "pm_stable pf cap q \<longleftrightarrow> pm_ranked pf q \<and> pm_seqs q \<noteq> None \<and> pm_capacity q = cap"

lemma stable_arrivals:
  assumes "pm_inv q" "pm_seqs q \<noteq> None"
  shows "distinct (map snd (pm_entries q))" "\<forall>e \<in> set (pm_entries q). snd e < pm_seq q"
proof -
  have sub: "mset (map snd (pm_entries q)) \<subseteq># mset [0..<pm_seq q]"
    using assms by (simp add: pm_inv_entries)
  have "count (mset (map snd (pm_entries q))) x \<le> 1" for x
  proof -
    have "count (mset (map snd (pm_entries q))) x \<le> count (mset [0..<pm_seq q]) x"
      using sub by (rule mset_subset_eq_count)
    also have "\<dots> \<le> 1" using distinct_upt by (metis distinct_count_atmost_1 less_or_eq_imp_le not_in_iff zero_le le_refl)
    finally show ?thesis .
  qed
  then show "distinct (map snd (pm_entries q))"
    by (metis One_nat_def count_greater_zero_iff distinct_count_atmost_1 le_antisym Suc_leI not_in_iff set_mset_mset)
  show "\<forall>e \<in> set (pm_entries q). snd e < pm_seq q"
    using set_mset_mono [OF sub] by auto
qed

lemma distinct_seq_total:
  assumes "distinct (map snd es)" "a \<in> set es" "b \<in> set es" "a \<noteq> b"
  shows "outranks (order_of pf) a b \<or> outranks (order_of pf) b a"
proof -
  have "snd a \<noteq> snd b" using assms by (auto simp: distinct_map inj_on_def)
  then show ?thesis by (cases a; cases b) auto
qed

lemma pm_abs_enqueue:
  assumes st: "pm_stable pf cap q" and e: "pm_enqueue (order_of pf) m q = (None, q')"
  shows "pm_stable pf cap q'" and "items (pm_abs pf q') = ins (order_of pf) m (items (pm_abs pf q))"
    and "gone (pm_abs pf q') = gone (pm_abs pf q)"
proof -
  let ?lt = "outranks (order_of pf)" and ?e = "(m, pm_seq q)"
  have inv: "pm_inv q" and seqs: "pm_seqs q \<noteq> None" and r: "pm_ranked pf q"
    using st by (auto simp: pm_stable_def pm_ranked_def)
  have fr: "pm_seqs q' \<noteq> None" "pm_capacity q' = pm_capacity q" "pm_disposed q' = pm_disposed q"
    using pm_enqueue_entries(2) [OF inv e] seqs
    by (auto simp: pm_frame_def pm_push_def Let_def split: option.splits)
  show "pm_stable pf cap q'"
    using pm_ranked_enqueue [OF r e] fr st by (simp add: pm_stable_def)
  show "gone (pm_abs pf q') = gone (pm_abs pf q)" using fr by (simp add: pm_abs_def)
  have old: "\<forall>y \<in> set (isort ?lt (pm_entries q)). snd y < pm_seq q"
    using stable_arrivals(2) [OF inv seqs] by (metis mset_isort set_mset_mset)
  have ms: "mset (pm_entries q') = mset (ins ?lt ?e (isort ?lt (pm_entries q)))"
    using pm_enqueue_mset [OF inv e] seqs by (auto simp: seq_of_def)
  have "isort ?lt (pm_entries q') = ins ?lt ?e (isort ?lt (pm_entries q))"
  proof (rule rank.isort_eqI [OF rank.ins_sorted [OF rank.isort_sorted] ms])
    fix a b
    assume "a \<in> set (ins ?lt ?e (isort ?lt (pm_entries q)))" "b \<in> set (ins ?lt ?e (isort ?lt (pm_entries q)))" "a \<noteq> b"
    then show "?lt a b \<or> ?lt b a"
      using distinct_seq_total stable_arrivals(1) [OF pm_enqueue_inv [OF inv e] fr(1)] ms
      by (metis set_mset_mset)
  qed
  moreover have "map fst (ins ?lt ?e (isort ?lt (pm_entries q)))
      = ins (order_of pf) m (map fst (isort ?lt (pm_entries q)))"
    using old by (subst ins_map [where f = fst and lt' = "order_of pf"]) auto
  ultimately show "items (pm_abs pf q') = ins (order_of pf) m (items (pm_abs pf q))"
    by (simp add: pm_abs_def)
qed

lemma pm_abs_dequeue:
  assumes st: "pm_stable pf cap q" and d: "pm_dequeue (order_of pf) q = (Some m, q')"
  shows "pm_stable pf cap q'" and "items (pm_abs pf q) = m # items (pm_abs pf q')"
    and "gone (pm_abs pf q') = gone (pm_abs pf q)"
proof -
  let ?lt = "outranks (order_of pf)"
  have inv: "pm_inv q" and seqs: "pm_seqs q \<noteq> None" and r: "pm_ranked pf q" and heap: "rank.heap pf (pm_entries q)"
    using st by (auto simp: pm_stable_def pm_ranked_def)
  have fr: "pm_frame q q'" using pm_dequeue_entries [OF inv d] .
  then show "pm_stable pf cap q'"
    using pm_ranked_dequeue [OF r d] st by (simp add: pm_stable_def pm_frame_def)
  show "gone (pm_abs pf q') = gone (pm_abs pf q)" using fr by (simp add: pm_abs_def pm_frame_def)
  obtain e where e: "pm_entries q ! 0 = e" "m = fst e"
    "mset (pm_entries q) = add_mset e (mset (pm_entries q'))"
    using pm_dequeue_mset [OF inv d] .
  have ms: "mset (pm_entries q) = mset (e # isort ?lt (pm_entries q'))" using e(3) by simp
  have "isort ?lt (pm_entries q) = e # isort ?lt (pm_entries q')"
  proof (rule rank.isort_eqI [OF _ ms])
    have "\<not> ?lt x e" if "x \<in> set (isort ?lt (pm_entries q'))" for x
      using rank.heap_hd [OF heap] e(1) ms that by (metis list.set_intros(2) set_mset_mset)
    then show "sorted_wrt (\<lambda>a b. \<not> ?lt b a) (e # isort ?lt (pm_entries q'))"
      by (simp add: rank.isort_sorted)
    fix a b
    assume "a \<in> set (e # isort ?lt (pm_entries q'))" "b \<in> set (e # isort ?lt (pm_entries q'))" "a \<noteq> b"
    then show "?lt a b \<or> ?lt b a"
      using distinct_seq_total stable_arrivals(1) [OF inv seqs] ms by (metis set_mset_mset)
  qed
  then show "items (pm_abs pf q) = m # items (pm_abs pf q')" using e(2) by (simp add: pm_abs_def)
qed

lemma length_pm_abs: "pm_inv q \<Longrightarrow> length (items (pm_abs pf q)) = length (pm_items q)"
  by (simp add: pm_abs_def pm_inv_def)

lemma pm_enqueue_refused:
  assumes st: "pm_stable pf cap q" and e: "pm_enqueue (order_of pf) m q = (Some err, q')"
  shows "q' = q" and "ranked_enqueue (order_of pf) cap m (pm_abs pf q) = (Some err, pm_abs pf q)"
proof -
  have inv: "pm_inv q" and cap: "pm_capacity q = cap" using st by (auto simp: pm_stable_def pm_ranked_def)
  show "q' = q" using e by (auto simp: pm_enqueue_def Let_def split: if_splits)
  have g: "gone (pm_abs pf q) = pm_disposed q" by (simp add: pm_abs_def)
  show "ranked_enqueue (order_of pf) cap m (pm_abs pf q) = (Some err, pm_abs pf q)"
    using e inv cap g length_pm_abs [OF inv, of pf]
    by (auto simp: pm_enqueue_def ranked_enqueue_def Let_def pm_inv_def split: if_splits option.splits)
qed

lemma pm_sim:
  assumes st: "pm_stable pf cap q" and c: "mb_call (priority_mailbox (order_of pf)) c q = (a, q')"
  shows "pm_stable pf cap q' \<and> mb_call (ranked_spec (order_of pf) cap) c (pm_abs pf q) = (a, pm_abs pf q')"
proof -
  have inv: "pm_inv q" and cap: "pm_capacity q = cap" using st by (auto simp: pm_stable_def pm_ranked_def)
  have len: "length (items (pm_abs pf q)) = length (pm_items q)" by (rule length_pm_abs [OF inv])
  from inv c show ?thesis
  proof (cases rule: pm.call_cases)
    case (accept m)
    then have e: "pm_enqueue (order_of pf) m q = (None, q')" by (simp add: priority_mailbox_def)
    have "\<not> gone (pm_abs pf q)" "cap \<noteq> Some (length (items (pm_abs pf q)))"
      using pm_enqueue_entries(3,4) [OF inv e] len cap by (simp_all add: pm_abs_def)
    then show ?thesis
      using accept pm_abs_enqueue [OF st e] by (simp add: ranked_spec_def ranked_enqueue_def)
  next
    case (refuse m err)
    then show ?thesis
      using pm_enqueue_refused [OF st, of m err q'] st
      by (simp add: priority_mailbox_def ranked_spec_def)
  next
    case (deliver m)
    then have d: "pm_dequeue (order_of pf) q = (Some m, q')" by (simp add: priority_mailbox_def)
    show ?thesis
      using deliver pm_abs_dequeue [OF st d] by (simp add: ranked_spec_def fifo_defs)
  next
    case drained
    then have "q' = q" "pm_items q = []" using pm_dequeue_none [of "order_of pf" q q'] by (auto simp: priority_mailbox_def)
    then show ?thesis using drained st len by (simp add: ranked_spec_def fifo_defs)
  next
    case query
    then show ?thesis
      using c st len by (auto simp: ranked_spec_def fifo_defs priority_mailbox_def pm_isEmpty_def pm_len_def)
  next
    case dispose
    then have q': "q' = pm_dispose q" by (simp add: priority_mailbox_def)
    have fields: "pm_entries q' = []" "pm_disposed q'" "pm_seqs q' \<noteq> None" "pm_capacity q' = cap"
      using st by (simp_all add: q' pm_dispose_def pm_entries_def pm_stable_def)
    then show ?thesis
      using dispose(1,2) pm_ranked_call [of pf q c a q'] c st
      by (simp add: ranked_spec_def fifo_defs pm_stable_def pm_abs_def isort_def)
  qed
qed

interpretation stable: mailbox_refinement "priority_mailbox (order_of pf)" "ranked_spec (order_of pf) cap"
  "pm_stable pf cap" "pm_abs pf" for pf cap
  by unfold_locales (rule pm_sim)

section \<open>Properties\<close>

lemma weak_order_id: "weak_order pf \<Longrightarrow> order_of pf = pf"
  by (simp add: order_of_def)

lemma pm_stable_new: "pm_stable pf cap (pm_new cap True)" "pm_abs pf (pm_new cap True) = fifo_new"
  by (simp add: pm_stable_def pm_ranked_new) (simp_all add: pm_new_def pm_abs_def isort_def pm_entries_def fifo_new_def)

text \<open>
  C1. When the priority function is a strict weak order, no sequence of calls
  tells a stable priority mailbox from a list kept in serving order, where a
  message goes behind all those it does not outrank: highest priority first, and
  arrival order among equals.  The capacity, if any, is enforced alike.
\<close>

theorem stable_priority_refines_sorted:
  assumes "weak_order pf"
  shows "fst (mb_run (priority_mailbox pf) cs (pm_new cap True)) = fst (mb_run (ranked_spec pf cap) cs fifo_new)"
  using stable.same_answers [OF pm_stable_new(1), of pf cs cap] weak_order_id [OF assms]
  by (simp add: pm_stable_new(2))

theorem stable_priority_refines_sorted_witness:
  "weak_order (\<lambda>(a :: nat \<times> nat) b. fst a < fst b)
   \<and> fst (mb_run (priority_mailbox (\<lambda>a b. fst a < fst b))
        [Enqueue (2::nat, 0::nat), Enqueue (1, 1), Enqueue (2, 2), Enqueue (1, 3), Dequeue, Dequeue, Dequeue, Dequeue]
        (pm_new None True))
     = [Enqueued None, Enqueued None, Enqueued None, Enqueued None,
        Dequeued (Some (1, 1)), Dequeued (Some (1, 3)), Dequeued (Some (2, 0)), Dequeued (Some (2, 2))]"
proof -
  have w: "weak_order (\<lambda>(a :: nat \<times> nat) b. fst a < fst b)" by (auto simp: weak_order_def)
  show ?thesis
    using w unfolding stable_priority_refines_sorted [OF w]
    by (simp add: ranked_spec_def ranked_enqueue_def ins_def fifo_defs)
qed

text \<open>
  In every variant, stable or not, the message a dequeue delivers is one that
  no pending message outranks, when the priority function is a strict weak order.
\<close>

lemma priority_delivers_highest:
  assumes "weak_order pf"
    and "mb_run (priority_mailbox pf) cs (pm_new cap keeps_order) = (as, q)"
    and "pm_dequeue pf q = (Some m, q')"
  shows "\<forall>x \<in> set (pm_items q). \<not> pf x m"
  using pm_ranked_top [of pf q m q'] pm_ranked_run [OF pm_ranked_new, of pf cs cap keeps_order as q]
    assms weak_order_id [OF assms(1)] by simp

text \<open>
  Whatever the priority function answers, a priority mailbox neither loses nor
  duplicates a message: until it is disposed, the messages it accepted are those
  it delivered together with those pending.
\<close>

lemma priority_conserves:
  assumes "Dispose \<notin> set cs" and "mb_run (priority_mailbox pf) cs (pm_new cap keeps_order) = (as, q)"
  shows "mset (accepted cs as) = mset (delivered as) + mset (pm_items q)"
  using pm.run_conserves [OF pm_inv_new assms(2,1)] by (simp add: pm_new_def)

end
