(* ===== verification/Stash.thy ===== *)
theory Stash
  imports UnboundedMailbox
begin

text \<open>
  The stash, \<open>src/stash.ts\<close>, and the behavior stack, \<open>src/behavior.stack.ts\<close>:
  the two buffers of an actor that postpones messages while it waits in another
  behavior.  The stash is a FIFO buffer over the default mailbox; the theory
  shows that draining it ends, and gives back what was stashed, in order.
\<close>

section \<open>The stash\<close>

record 'm Stash =
  st_buffer :: "'m UnboundedMailbox"

definition st_new :: "'m Stash" where
  "st_new = \<lparr>st_buffer = ub_new\<rparr>"

definition st_stash :: "'m \<Rightarrow> 'm Stash \<Rightarrow> MailboxError option \<times> 'm Stash" where
  "st_stash ctx s = (let (e, b) = ub_enqueue ctx (st_buffer s) in (e, s\<lparr>st_buffer := b\<rparr>))"

definition st_unstash :: "'m Stash \<Rightarrow> 'm option \<times> 'm Stash" where
  "st_unstash s = (let (r, b) = ub_dequeue (st_buffer s) in (r, s\<lparr>st_buffer := b\<rparr>))"

text \<open>The loop of \<open>unstashAll\<close>; \<^term>\<open>None\<close> would be a loop that never ends.\<close>

partial_function (option) st_drain :: "'m list \<Rightarrow> 'm Stash \<Rightarrow> ('m list \<times> 'm Stash) option" where
  "st_drain out s =
     (case st_unstash s of
        (None, s') \<Rightarrow> Some (out, s')
      | (Some ctx, s') \<Rightarrow> st_drain (out @ [ctx]) s')"

definition st_unstashAll :: "'m Stash \<Rightarrow> ('m list \<times> 'm Stash) option" where
  "st_unstashAll s = st_drain [] s"

definition st_isEmpty :: "'m Stash \<Rightarrow> bool" where
  "st_isEmpty s = ub_isEmpty (st_buffer s)"

definition st_len :: "'m Stash \<Rightarrow> nat" where
  "st_len s = ub_len (st_buffer s)"

definition st_dispose :: "'m Stash \<Rightarrow> 'm Stash" where
  "st_dispose s = s\<lparr>st_buffer := ub_dispose (st_buffer s)\<rparr>"

definition st_inv :: "'m Stash \<Rightarrow> bool" where
  "st_inv s = ub_inv (st_buffer s)"

definition st_contents :: "'m Stash \<Rightarrow> 'm list" where
  "st_contents s = ub_contents (st_buffer s)"

lemma st_new_ok [simp]: "st_inv st_new" "st_contents st_new = []"
  by (simp_all add: st_inv_def st_new_def st_contents_def ub_inv_def ub_new_def ub_contents_def)

lemma st_stash_ok:
  assumes "st_inv s" "\<not> ub_disposed (st_buffer s)" "st_stash ctx s = (e, s')"
  shows "e = None" "st_inv s'" "st_contents s' = st_contents s @ [ctx]" "\<not> ub_disposed (st_buffer s')"
  using assms ub.enqueue_sim [of "st_buffer s" ctx e "st_buffer s'"]
  by (auto simp: st_inv_def st_stash_def st_contents_def unbounded_mailbox_def ub_abs_def fifo_enqueue_def
      split: prod.splits)

lemma st_unstash_cases:
  assumes "st_inv s"
  obtains (empty) s' where "st_unstash s = (None, s')" "st_contents s = []" "st_contents s' = []" "st_inv s'"
  | (oldest) ctx s' where "st_unstash s = (Some ctx, s')" "st_contents s = ctx # st_contents s'" "st_inv s'"
proof (cases "st_unstash s")
  case (Pair r s')
  then have d: "mb_dequeue unbounded_mailbox (st_buffer s) = (r, st_buffer s')"
    by (auto simp: st_unstash_def unbounded_mailbox_def split: prod.splits)
  have inv: "ub_inv (st_buffer s)" using assms by (simp add: st_inv_def)
  show thesis
  proof (cases r)
    case None
    then show thesis using ub.dequeue_none_sim [OF inv, of "st_buffer s'"] d Pair
      by (intro empty [of s']) (auto simp: st_contents_def st_inv_def ub_abs_def)
  next
    case (Some ctx)
    then show thesis using ub.dequeue_some_sim [OF inv, of ctx "st_buffer s'"] d Pair
      by (intro oldest [of ctx s']) (auto simp: st_contents_def st_inv_def ub_abs_def)
  qed
qed

lemma st_drain_ends:
  "st_inv s \<Longrightarrow> \<exists>s'. st_drain out s = Some (out @ st_contents s, s') \<and> st_inv s' \<and> st_contents s' = []"
proof (induction "length (st_contents s)" arbitrary: out s rule: less_induct)
  case less
  from less.prems show ?case
  proof (cases rule: st_unstash_cases)
    case (empty s')
    then show ?thesis by (subst st_drain.simps) simp
  next
    case (oldest ctx s')
    then show ?thesis using less.hyps [of s' "out @ [ctx]"] by (subst st_drain.simps) simp
  qed
qed

section \<open>The behavior stack\<close>

text \<open>The top of the stack is the last item of the array; a behavior is an opaque value.\<close>

record 'b BehaviorStack =
  bs_items :: "'b list"

definition bs_new :: "'b BehaviorStack" where
  "bs_new = \<lparr>bs_items = []\<rparr>"

definition bs_len :: "'b BehaviorStack \<Rightarrow> nat" where
  "bs_len s = length (bs_items s)"

definition bs_peek :: "'b BehaviorStack \<Rightarrow> 'b option" where
  "bs_peek s = (if bs_items s = [] then None else Some (bs_items s ! (length (bs_items s) - 1)))"

definition bs_pop :: "'b BehaviorStack \<Rightarrow> 'b option \<times> 'b BehaviorStack" where
  "bs_pop s = (if bs_items s = [] then (None, s)
               else (Some (last (bs_items s)), s\<lparr>bs_items := butlast (bs_items s)\<rparr>))"

definition bs_push :: "'b \<Rightarrow> 'b BehaviorStack \<Rightarrow> 'b BehaviorStack" where
  "bs_push b s = s\<lparr>bs_items := bs_items s @ [b]\<rparr>"

definition bs_isEmpty :: "'b BehaviorStack \<Rightarrow> bool" where
  "bs_isEmpty s = (length (bs_items s) = 0)"

definition bs_reset :: "'b BehaviorStack \<Rightarrow> 'b BehaviorStack" where
  "bs_reset s = s\<lparr>bs_items := []\<rparr>"

lemma bs_pop_push [simp]: "bs_pop (bs_push b s) = (Some b, s)"
  by (simp add: bs_pop_def bs_push_def)

lemma bs_peek_push [simp]: "bs_peek (bs_push b s) = Some b"
  by (simp add: bs_peek_def bs_push_def)

lemma bs_peek_pop: "bs_peek s = fst (bs_pop s)"
  by (simp add: bs_peek_def bs_pop_def last_conv_nth)

end
